(* ===== verification/Weensy_Prelude.thy ===== *)
theory Weensy_Prelude
  imports Main "HOL-Library.Word"
begin

text \<open>
  The vocabulary shared by every component of the development: the C integer types of
  \<^verbatim>\<open>shared/lib.h\<close> as machine words, the way a C computation can end, the rounding macros of
  \<^verbatim>\<open>shared/lib.h\<close>, and the generic lemmas on words and rounding that the component proofs use.
\<close>

unbundle bit_operations_syntax

section \<open>Integer types\<close>

type_synonym u8 = "8 word"
type_synonym u16 = "16 word"
type_synonym u32 = "32 word"
type_synonym u64 = "64 word"

section \<open>How a computation ends\<close>

text \<open>
  \<open>None\<close> is a computation that never returns (a loop that spins forever), \<open>Some (Inl f)\<close> is
  one that stops the process or the kernel, \<open>Some (Inr x)\<close> is a normal return of \<open>x\<close>.
\<close>

datatype fault = Null_deref | Out_of_range | Undefined | Assert_fail | Kernel_panic
  | Power_off | Soft_reboot "u8 list" | Exit nat

type_synonym 'a outcome = "(fault + 'a) option"

definition ret :: "'a \<Rightarrow> 'a outcome" where
  "ret x = Some (Inr x)"

definition fail :: "fault \<Rightarrow> 'a outcome" where
  "fail f = Some (Inl f)"

definition bindo :: "'a outcome \<Rightarrow> ('a \<Rightarrow> 'b outcome) \<Rightarrow> 'b outcome" where
  "bindo r k = (case r of None \<Rightarrow> None | Some (Inl f) \<Rightarrow> Some (Inl f) | Some (Inr x) \<Rightarrow> k x)"

definition assertion :: "bool \<Rightarrow> unit outcome" where
  "assertion b = (if b then ret () else fail Assert_fail)"

definition lift_option :: "'a option \<Rightarrow> 'a outcome" where
  "lift_option r = map_option Inr r"

named_theorems outcome_simps "evaluation of the outcome monad"

lemma bindo_ret [simp, outcome_simps]: "bindo (ret x) k = k x"
  by (simp add: bindo_def ret_def)

lemma bindo_fail [simp, outcome_simps]: "bindo (fail f) k = fail f"
  by (simp add: bindo_def fail_def)

lemma bindo_None [simp, outcome_simps]: "bindo None k = None"
  by (simp add: bindo_def)

lemma ret_inject [simp]: "(ret x = ret y) = (x = y)"
  by (simp add: ret_def)

lemma ret_neq_fail [simp]: "ret x \<noteq> fail f" "fail f \<noteq> ret x"
  by (simp_all add: ret_def fail_def)

lemma ret_neq_None [simp]: "ret x \<noteq> None" "None \<noteq> ret x" "fail f \<noteq> None" "None \<noteq> fail f"
  by (simp_all add: ret_def fail_def)

lemma fail_inject [simp]: "(fail f = fail g) = (f = g)"
  by (simp add: fail_def)

lemma lift_option_Some [simp, outcome_simps]: "lift_option (Some x) = ret x"
  by (simp add: lift_option_def ret_def)

lemma assertion_True [simp, outcome_simps]: "assertion True = ret ()"
  by (simp add: assertion_def)

lemma bindo_assertion [simp]:
  "bindo (assertion b) k = (if b then k () else fail Assert_fail)"
  by (simp add: assertion_def)

lemma bindo_eq_ret: "bindo r k = ret y \<longleftrightarrow> (\<exists>x. r = ret x \<and> k x = ret y)"
  by (auto simp: bindo_def ret_def split: option.splits sum.splits)

lemma bindo_assoc: "bindo (bindo r k) l = bindo r (\<lambda>x. bindo (k x) l)"
  by (auto simp: bindo_def split: option.splits sum.splits)

lemma bindo_cong [fundef_cong]:
  "r = r' \<Longrightarrow> (\<And>x. r' = ret x \<Longrightarrow> k x = k' x) \<Longrightarrow> bindo r k = bindo r' k'"
  by (auto simp: bindo_def ret_def split: option.split sum.split)

lemma bindo_mono [partial_function_mono]:
  assumes r: "mono_option r" and k: "\<And>x. mono_option (\<lambda>f. k x f)"
  shows "mono_option (\<lambda>f. bindo (r f) (\<lambda>x. k x f))"
proof (rule monotoneI)
  fix f g :: "'a \<Rightarrow> 'b option"
  assume fg: "fun_ord option_ord f g"
  have "option_ord (r f) (r g)" and "\<forall>x. option_ord (k x f) (k x g)"
    using r k fg by (auto simp: monotone_def)
  then show "option_ord (bindo (r f) (\<lambda>x. k x f)) (bindo (r g) (\<lambda>x. k x g))"
    by (cases "r f"; cases "r g") (auto simp: flat_ord_def bindo_def split: sum.split)
qed

section \<open>Words\<close>

lemma unat_pred: "(n :: 'a::len word) \<noteq> 0 \<Longrightarrow> unat (n - 1) = unat n - 1"
  by (rule unat_minus_one)

lemma pred_less_iff:
  "(a :: 'a::len word) \<noteq> 0 \<Longrightarrow> b \<noteq> 0 \<Longrightarrow> a - 1 < b - 1 \<longleftrightarrow> a < b"
  using unat_gt_0 [of a] unat_gt_0 [of b] by (simp add: word_less_nat_alt unat_pred) linarith

lemma unat_less_2p64: "unat (a :: u64) < 18446744073709551616"
  using unsigned_less [of a] by simp

lemma unat_neq: "a \<noteq> b \<Longrightarrow> unat (a :: u64) \<noteq> unat b"
  by (simp add: word_unat_eq_iff)

lemma unat_sint: "0 \<le> sint (x :: u32) \<Longrightarrow> unat x = nat (sint x)"
proof -
  assume nonneg: "0 \<le> sint x"
  have "sint x < 2 ^ 31"
    using sint_less [of x] by simp
  then have "take_bit 32 (sint x) = sint x"
    using nonneg by (intro take_bit_int_eq_self) auto
  then show ?thesis
    using uint_sint [of x] by (simp add: unat_eq_nat_uint)
qed

lemma sint_small_nat: "n < 2 ^ 31 \<Longrightarrow> sint (of_nat n :: u32) = int n"
  by (simp add: signed_of_nat signed_take_bit_int_eq_self)

lemma sint_small: "unat (w :: u32) < 2 ^ 31 \<Longrightarrow> sint w = int (unat w)"
  using sint_small_nat [of "unat w"] by simp

lemma index_word: "i < 2 ^ 31 \<Longrightarrow> (scast (of_nat i :: u32) :: u64) = of_nat i"
  by (simp add: scast_eq sint_small_nat)

section \<open>Rounding\<close>

lemma unat_and_not_mask: "unat ((a :: u64) AND NOT (mask n)) = unat a - unat a mod 2 ^ n"
proof -
  have "(a AND NOT (mask n)) AND (a AND mask n) = 0"
    by (rule bit_word_eqI) (auto simp: bit_simps)
  moreover have "(a AND NOT (mask n)) OR (a AND mask n) = a"
    by (rule bit_word_eqI) (auto simp: bit_simps)
  ultimately have "a AND NOT (mask n) = a - take_bit n a"
    by (metis add_diff_cancel_right' disjunctive_add_eq_or take_bit_eq_mask)
  moreover have "unat (take_bit n a) = unat a mod 2 ^ n"
    by (simp only: unsigned_take_bit_eq) (simp add: take_bit_eq_mod)
  ultimately show ?thesis
    by (simp add: unat_sub word_le_nat_alt)
qed

definition ROUNDDOWN :: "u64 \<Rightarrow> u64 \<Rightarrow> u64" where
  "ROUNDDOWN a n = a - a mod n"

definition ROUNDUP :: "u64 \<Rightarrow> u64 \<Rightarrow> u64" where
  "ROUNDUP a n = ROUNDDOWN (a + n - 1) n"

text \<open>Rounding on natural numbers, the reference for the two macros.\<close>

definition round_up_nat :: "nat \<Rightarrow> nat \<Rightarrow> nat" where
  "round_up_nat a n = (a + n - 1) div n * n"


lemma unat_ROUNDDOWN: "unat (ROUNDDOWN a n) = unat a div unat n * unat n"
proof -
  have "a mod n \<le> a"
    by (simp add: word_le_nat_alt unat_mod)
  then have "unat (a - a mod n) = unat a - unat a mod unat n"
    by (simp add: unat_sub unat_mod)
  then show ?thesis
    by (simp add: ROUNDDOWN_def minus_mod_eq_div_mult)
qed

lemma unat_ROUNDUP:
  assumes "n \<noteq> 0" and "unat a + unat n \<le> 2 ^ 64"
  shows "unat (ROUNDUP a n) = round_up_nat (unat a) (unat n)"
proof -
  have n: "0 < unat n"
    using assms(1) by (simp add: unat_gt_0)
  have "unat (n - 1) = unat n - 1"
    using assms(1) by (simp add: unat_minus_one)
  moreover have "unat a + (unat n - 1) < 2 ^ 64"
    using assms(2) n by linarith
  ultimately have "unat (a + (n - 1)) = unat a + unat n - 1"
    using n by (simp add: unat_word_ariths)
  moreover have "a + n - 1 = a + (n - 1)"
    by simp
  ultimately show ?thesis
    by (simp only: ROUNDUP_def unat_ROUNDDOWN round_up_nat_def)
qed

lemma round_up_nat_ge: "0 < n \<Longrightarrow> a \<le> round_up_nat a n"
proof -
  assume n: "0 < n"
  then have "(a + n - 1) mod n < n"
    by simp
  moreover have "round_up_nat a n = a + n - 1 - (a + n - 1) mod n"
    by (simp add: round_up_nat_def minus_mod_eq_div_mult)
  ultimately show ?thesis
    by linarith
qed

lemma round_up_nat_less: "0 < n \<Longrightarrow> round_up_nat a n < a + n"
proof -
  assume n: "0 < n"
  have "round_up_nat a n \<le> a + n - 1"
    unfolding round_up_nat_def by (rule div_times_less_eq_dividend)
  then show ?thesis
    using n by linarith
qed

lemma dvd_round_up_nat [simp]: "n dvd round_up_nat a n"
  by (simp add: round_up_nat_def)

lemma round_up_nat_least: "0 < n \<Longrightarrow> n dvd b \<Longrightarrow> a \<le> b \<Longrightarrow> round_up_nat a n \<le> b"
proof -
  assume n: "0 < n" and dvd: "n dvd b" and le: "a \<le> b"
  from dvd obtain k where k: "b = n * k" ..
  have "round_up_nat a n < n * (k + 1)"
    using round_up_nat_less [OF n, of a] le k by simp
  moreover have "n dvd round_up_nat a n"
    by simp
  then obtain j where j: "round_up_nat a n = n * j" ..
  ultimately have "j < k + 1"
    by (metis mult_less_cancel1)
  then show ?thesis
    using j k by simp
qed

lemma round_up_nat_id: "0 < n \<Longrightarrow> n dvd a \<Longrightarrow> round_up_nat a n = a"
  using round_up_nat_ge [of n a] round_up_nat_least [of n a a] by simp

end
