(* ===== verification/Byte_Memory.thy ===== *)
theory Byte_Memory
  imports Weensy_Prelude
begin

text \<open>
  Memory is a total map from 64-bit addresses to bytes. The same model serves the virtual
  address space of a process (the heap that \<^verbatim>\<open>uspace/malloc.c\<close> manages) and physical memory
  (the page tables that \<^verbatim>\<open>kernel/vm.c\<close> walks). The theory gives the little-endian accesses
  of the compiled code, and the copy loops \<open>memcpy\<close>, \<open>memmove\<close> and \<open>memset\<close> of
  \<^verbatim>\<open>shared/lib.c\<close> with their reference semantics.
\<close>

type_synonym mem = "u64 \<Rightarrow> u8"

section \<open>Accesses of 64, 16 and 32 bits\<close>

definition load64 :: "mem \<Rightarrow> u64 \<Rightarrow> u64" where
  "load64 m a =
     ucast (m a) OR push_bit 8 (ucast (m (a + 1))) OR push_bit 16 (ucast (m (a + 2)))
     OR push_bit 24 (ucast (m (a + 3))) OR push_bit 32 (ucast (m (a + 4)))
     OR push_bit 40 (ucast (m (a + 5))) OR push_bit 48 (ucast (m (a + 6)))
     OR push_bit 56 (ucast (m (a + 7)))"

definition store64 :: "mem \<Rightarrow> u64 \<Rightarrow> u64 \<Rightarrow> mem" where
  "store64 m a v =
     m(a := ucast v, a + 1 := ucast (drop_bit 8 v), a + 2 := ucast (drop_bit 16 v),
       a + 3 := ucast (drop_bit 24 v), a + 4 := ucast (drop_bit 32 v),
       a + 5 := ucast (drop_bit 40 v), a + 6 := ucast (drop_bit 48 v),
       a + 7 := ucast (drop_bit 56 v))"

definition load16 :: "mem \<Rightarrow> u64 \<Rightarrow> u16" where
  "load16 m a = ucast (m a) OR push_bit 8 (ucast (m (a + 1)))"

definition load32 :: "mem \<Rightarrow> u64 \<Rightarrow> u32" where
  "load32 m a = ucast (m a) OR push_bit 8 (ucast (m (a + 1))) OR push_bit 16 (ucast (m (a + 2)))
     OR push_bit 24 (ucast (m (a + 3)))"

definition store32 :: "mem \<Rightarrow> u64 \<Rightarrow> u32 \<Rightarrow> mem" where
  "store32 m a v = m(a := ucast v, a + 1 := ucast (drop_bit 8 v), a + 2 := ucast (drop_bit 16 v), a + 3 := ucast (drop_bit 24 v))"

definition aligned8 :: "u64 \<Rightarrow> bool" where
  "aligned8 a \<longleftrightarrow> 8 dvd unat a"

section \<open>The copy loops of lib.c\<close>

function memcpy :: "mem \<Rightarrow> u64 \<Rightarrow> u64 \<Rightarrow> u64 \<Rightarrow> mem" where
  "memcpy m d s n = (if 0 < n then memcpy (m(d := m s)) (d + 1) (s + 1) (n - 1) else m)"
  by pat_completeness auto
termination
  by (relation "measure (\<lambda>(m, d, s, n). unat n)") (auto simp: unat_minus_one unat_gt_0 word_gt_0)

function memmove_down :: "mem \<Rightarrow> u64 \<Rightarrow> u64 \<Rightarrow> u64 \<Rightarrow> mem" where
  "memmove_down m d s n =
     (if 0 < n then memmove_down (m(d - 1 := m (s - 1))) (d - 1) (s - 1) (n - 1) else m)"
  by pat_completeness auto
termination
  by (relation "measure (\<lambda>(m, d, s, n). unat n)") (auto simp: unat_minus_one unat_gt_0 word_gt_0)

definition memmove :: "mem \<Rightarrow> u64 \<Rightarrow> u64 \<Rightarrow> u64 \<Rightarrow> mem" where
  "memmove m d s n =
     (if s < d \<and> s + n > d then memmove_down m (d + n) (s + n) n else memcpy m d s n)"

function memset :: "mem \<Rightarrow> u64 \<Rightarrow> u32 \<Rightarrow> u64 \<Rightarrow> mem" where
  "memset m p c n = (if 0 < n then memset (m(p := ucast c)) (p + 1) c (n - 1) else m)"
  by pat_completeness auto
termination
  by (relation "measure (\<lambda>(m, p, c, n). unat n)") (auto simp: unat_minus_one unat_gt_0 word_gt_0)

declare memcpy.simps [simp del] memmove_down.simps [simp del] memset.simps [simp del]

text \<open>The reference semantics: all bytes of the range at once.\<close>

definition copied :: "mem \<Rightarrow> u64 \<Rightarrow> u64 \<Rightarrow> u64 \<Rightarrow> mem" where
  "copied m d s n = (\<lambda>x. if x - d < n then m (s + (x - d)) else m x)"

definition filled :: "mem \<Rightarrow> u64 \<Rightarrow> u8 \<Rightarrow> u64 \<Rightarrow> mem" where
  "filled m p c n = (\<lambda>x. if x - p < n then c else m x)"

section \<open>Lemmas\<close>

subsection \<open>64-bit accesses\<close>

lemma byte_of_u64: "(ucast (ucast (w :: u64) :: u8) :: u64) = take_bit 8 w"
  by (rule bit_word_eqI) (auto simp: bit_simps)

lemma top_byte_u64: "take_bit 8 (drop_bit 56 (v :: u64)) = drop_bit 56 v"
  by (rule bit_word_eqI) (auto simp: bit_simps dest: bit_imp_le_length)

lemma join_byte:
  "push_bit n (take_bit 8 (drop_bit n v)) OR push_bit (n + 8) (drop_bit (n + 8) v)
     = push_bit n (drop_bit n (v :: u64))"
  by (rule bit_word_eqI) (auto simp: bit_simps, rule ccontr, simp)

lemma join_low_byte: "take_bit 8 v OR push_bit 8 (drop_bit 8 v) = (v :: u64)"
  by (rule bit_word_eqI) (auto simp: bit_simps, rule ccontr, simp)

lemma bytes_of_u64:
  "take_bit 8 v OR push_bit 8 (take_bit 8 (drop_bit 8 v)) OR push_bit 16 (take_bit 8 (drop_bit 16 v))
   OR push_bit 24 (take_bit 8 (drop_bit 24 v)) OR push_bit 32 (take_bit 8 (drop_bit 32 v))
   OR push_bit 40 (take_bit 8 (drop_bit 40 v)) OR push_bit 48 (take_bit 8 (drop_bit 48 v))
   OR push_bit 56 (take_bit 8 (drop_bit 56 v)) = (v :: u64)"
  using join_byte [of 48 v] join_byte [of 40 v] join_byte [of 32 v] join_byte [of 24 v]
    join_byte [of 16 v] join_byte [of 8 v] join_low_byte [of v]
  by (simp add: top_byte_u64)

lemma load64_store64_same [simp]: "load64 (store64 m a v) a = v"
  unfolding load64_def store64_def
  by (simp add: byte_of_u64 bytes_of_u64)

lemma unat_aligned_add:
  assumes "aligned8 a" and "k < 8"
  shows "unat (a + of_nat k) = unat a + k"
proof -
  obtain j where j: "unat a = 8 * j"
    using assms(1) by (auto simp: aligned8_def)
  have "unat a + k < 2 ^ 64"
    using j assms(2) unat_less_2p64 [of a] by simp
  then show ?thesis
    using assms(2) by (simp add: unat_word_ariths unat_of_nat)
qed

lemma store64_apply:
  "store64 m a v x =
     (if x = a + 7 then ucast (drop_bit 56 v) else if x = a + 6 then ucast (drop_bit 48 v)
      else if x = a + 5 then ucast (drop_bit 40 v) else if x = a + 4 then ucast (drop_bit 32 v)
      else if x = a + 3 then ucast (drop_bit 24 v) else if x = a + 2 then ucast (drop_bit 16 v)
      else if x = a + 1 then ucast (drop_bit 8 v) else if x = a then ucast v else m x)"
  by (simp add: store64_def)

lemma store64_frame:
  assumes "aligned8 a" and "unat x < unat a \<or> unat a + 8 \<le> unat x"
  shows "store64 m a v x = m x"
proof -
  have "x \<noteq> a + of_nat k" if "k < 8" for k
    using unat_aligned_add [OF assms(1) that] assms(2) that by auto
  from this [of 0] this [of 1] this [of 2] this [of 3] this [of 4] this [of 5] this [of 6]
    this [of 7] show ?thesis
    by (simp add: store64_def)
qed

lemma load64_cong:
  assumes "aligned8 a" and "\<And>x. unat a \<le> unat x \<Longrightarrow> unat x < unat a + 8 \<Longrightarrow> m x = m' x"
  shows "load64 m a = load64 m' a"
proof -
  have "m (a + of_nat k) = m' (a + of_nat k)" if "k < 8" for k
    using unat_aligned_add [OF assms(1) that] that by (intro assms(2)) auto
  from this [of 0] this [of 1] this [of 2] this [of 3] this [of 4] this [of 5] this [of 6]
    this [of 7] show ?thesis
    by (simp add: load64_def)
qed

lemma aligned8_apart:
  assumes "aligned8 a" and "aligned8 b" and "a \<noteq> b"
  shows "unat a + 8 \<le> unat b \<or> unat b + 8 \<le> unat a"
proof -
  have "unat a \<noteq> unat b"
    using assms(3) by (rule unat_neq)
  then show ?thesis
    using assms(1,2) unfolding aligned8_def by presburger
qed

lemma load64_store64_other [simp]:
  assumes "aligned8 a" and "aligned8 b" and "a \<noteq> b"
  shows "load64 (store64 m a v) b = load64 m b"
proof (rule load64_cong [OF assms(2)])
  fix x :: u64
  assume "unat b \<le> unat x" and "unat x < unat b + 8"
  then show "store64 m a v x = m x"
    using aligned8_apart [OF assms] by (intro store64_frame [OF assms(1)]) linarith
qed

subsection \<open>32-bit accesses\<close>

lemma bytes_of_u32:
  "ucast (ucast (v :: u32) :: u8) OR push_bit 8 (ucast (ucast (drop_bit 8 v) :: u8))
    OR push_bit 16 (ucast (ucast (drop_bit 16 v) :: u8)) OR push_bit 24 (ucast (ucast (drop_bit 24 v) :: u8)) = v"
  (is "?w = v")
proof (rule bit_word_eqI)
  fix n assume "n < LENGTH(32)"
  then consider "n < 8" | "8 \<le> n" "n < 16" | "16 \<le> n" "n < 24" | "24 \<le> n" "n < 32"
    by fastforce
  then show "bit ?w n = bit v n"
    by cases (auto simp: bit_simps)
qed

lemma load32_store32 [simp]: "load32 (store32 m a v) a = v"
  using bytes_of_u32 [of v] by (simp add: load32_def store32_def)

lemma load32_store32_fields [simp]: "load32 (store32 m (a + 16) v) a = load32 m a"
  by (simp add: load32_def store32_def)

lemma store32_frame:
  assumes "unat a + 4 \<le> 2 ^ 64" and "unat x < unat a \<or> unat a + 4 \<le> unat x"
  shows "store32 m a v x = m x"
proof -
  have "unat (a + 1) = unat a + 1" "unat (a + 2) = unat a + 2" "unat (a + 3) = unat a + 3"
    using assms(1) by (simp_all add: unat_word_ariths)
  then show ?thesis
    using assms(2) by (auto simp: store32_def)
qed

lemma store32_other:
  assumes "\<And>j. j < 4 \<Longrightarrow> x \<noteq> a + of_nat j"
  shows "store32 m a v x = m x"
  using assms [of 0] assms [of 1] assms [of 2] assms [of 3] by (simp add: store32_def)

lemma load32_agree:
  assumes "\<And>j. j < 4 \<Longrightarrow> m (a + of_nat j) = m' (b + of_nat j)"
  shows "load32 m a = load32 m' b"
  using assms [of 0] assms [of 1] assms [of 2] assms [of 3] by (simp add: load32_def)

subsection \<open>The copy loops\<close>

lemma memcpy_copied:
  assumes "d = s \<or> n \<le> d - s"
  shows "memcpy m d s n = copied m d s n"
  using assms
proof (induction m d s n rule: memcpy.induct)
  case (1 m d s n)
  show ?case
  proof (cases "0 < n")
    case True
    have le: "n - 1 \<le> n"
      using True by (simp add: word_le_nat_alt unat_minus_one word_gt_0)
    have "memcpy (m(d := m s)) (d + 1) (s + 1) (n - 1)
            = copied (m(d := m s)) (d + 1) (s + 1) (n - 1)"
      using "1.prems" le by (intro "1.IH" [OF True]) auto
    also have "\<dots> = copied m d s n"
    proof (rule ext)
      fix x
      show "copied (m(d := m s)) (d + 1) (s + 1) (n - 1) x = copied m d s n x"
      proof (cases "x = d")
        case True
        then show ?thesis
          using \<open>0 < n\<close> by (simp add: copied_def)
      next
        case False
        have eq: "x - (d + 1) = (x - d) - 1"
          by simp
        have lt: "x - (d + 1) < n - 1 \<longleftrightarrow> x - d < n"
          using False \<open>0 < n\<close> unfolding eq by (intro pred_less_iff) (auto simp: word_gt_0)
        have "s + (x - d) \<noteq> d" if "x - d < n"
        proof
          assume "s + (x - d) = d"
          then have "x - d = d - s"
            by (metis add_diff_cancel_left')
          then show False
            using "1.prems" False that by auto
        qed
        then show ?thesis
          using False lt by (auto simp: copied_def)
      qed
    qed
    finally show ?thesis
      using True by (simp add: memcpy.simps [of m d s n])
  next
    case False
    then have "n = 0"
      by (simp add: word_gt_0)
    then show ?thesis
      by (simp add: memcpy.simps [of m d s 0] copied_def)
  qed
qed

lemma memset_filled: "memset m p c n = filled m p (ucast c) n"
proof (induction m p c n rule: memset.induct)
  case (1 m p c n)
  show ?case
  proof (cases "0 < n")
    case True
    have "filled (m(p := ucast c)) (p + 1) (ucast c) (n - 1) x = filled m p (ucast c) n x" for x
    proof (cases "x = p")
      case True
      then show ?thesis
        using \<open>0 < n\<close> by (simp add: filled_def)
    next
      case False
      have eq: "x - (p + 1) = (x - p) - 1"
        by simp
      have "x - (p + 1) < n - 1 \<longleftrightarrow> x - p < n"
        using False \<open>0 < n\<close> unfolding eq by (intro pred_less_iff) (auto simp: word_gt_0)
      then show ?thesis
        using False by (simp add: filled_def)
    qed
    then have "filled (m(p := ucast c)) (p + 1) (ucast c) (n - 1) = filled m p (ucast c) n"
      by (rule ext)
    moreover have "memset (m(p := ucast c)) (p + 1) c (n - 1)
                     = filled (m(p := ucast c)) (p + 1) (ucast c) (n - 1)"
      by (rule "1.IH" [OF True])
    ultimately show ?thesis
      using True by (simp add: memset.simps [of m p c n])
  next
    case False
    then have "n = 0"
      by (simp add: word_gt_0)
    then show ?thesis
      by (simp add: memset.simps [of m p c 0] filled_def)
  qed
qed

text \<open>The descending loop of \<open>memmove\<close>: the source is read before it is overwritten as long as
  the destination does not lie just below it.\<close>

lemma memmove_down_copied:
  assumes "d = s \<or> n \<le> s - d"
  shows "memmove_down m (d + n) (s + n) n = copied m d s n"
  using assms
proof (induction "unat n" arbitrary: m n)
  case 0
  then have "n = 0"
    by (simp add: unat_eq_0)
  then show ?case
    by (simp add: memmove_down.simps [of m d s 0] copied_def)
next
  case (Suc k)
  then have pos: "0 < n"
    by (auto simp: word_gt_0)
  then have k: "k = unat (n - 1)"
    using Suc.hyps(2) by (simp add: unat_pred word_gt_0)
  let ?m = "m(d + n - 1 := m (s + n - 1))"
  have "n - 1 \<le> n"
    using pos by (simp add: word_le_nat_alt unat_pred word_gt_0)
  then have "memmove_down ?m (d + (n - 1)) (s + (n - 1)) (n - 1) = copied ?m d s (n - 1)"
    using Suc.prems by (intro Suc.hyps(1) [OF k]) auto
  also have "\<dots> = copied m d s n"
  proof (rule ext)
    fix x
    have lt: "x - d < n \<longleftrightarrow> x - d < n - 1 \<or> x = d + n - 1"
    proof -
      have "x - d < n \<longleftrightarrow> x - d < n - 1 \<or> x - d = n - 1"
        using pos by (auto simp: word_less_nat_alt unat_pred word_gt_0 word_unat_eq_iff)
      then show ?thesis
        by (auto simp: algebra_simps)
    qed
    have "s + (x - d) \<noteq> d + n - 1" if "x - d < n - 1"
    proof
      assume "s + (x - d) = d + n - 1"
      then have e: "s - d = (n - 1) - (x - d)"
        by (simp add: algebra_simps)
      have le: "x - d \<le> n - 1"
        using that by simp
      have "unat (s - d) = unat (n - 1) - unat (x - d)"
        unfolding e by (rule unat_sub [OF le])
      then have "unat (s - d) \<le> unat (n - 1)" and "unat (s - d) \<noteq> 0"
        using that by (auto simp: word_less_nat_alt)
      then show False
        using Suc.prems pos by (auto simp: word_le_nat_alt unat_pred word_gt_0)
    qed
    moreover have "s + (x - d) = s + n - 1" if "x = d + n - 1"
      using that by simp
    ultimately show "copied ?m d s (n - 1) x = copied m d s n x"
      using lt by (auto simp: copied_def add_diff_eq)
  qed
  finally show ?case
    using pos by (simp add: memmove_down.simps [of m "d + n"] algebra_simps)
qed

lemma memmove_copied:
  assumes "unat s + unat n \<le> 2 ^ 64" and "unat d + unat n \<le> 2 ^ 64"
  shows "memmove m d s n = copied m d s n"
proof (cases "n = 0")
  case True
  then show ?thesis
    by (auto simp: memmove_def copied_def memcpy.simps [of m d s 0])
next
  case False
  show ?thesis
  proof (cases "s < d \<and> s + n > d")
    case True
    then have "unat (s - d) = 2 ^ 64 - unat d + unat s"
      using unat_less_2p64 [of d]
      by (simp add: unat_sub_if_size word_le_nat_alt word_less_nat_alt word_size)
    then have "n \<le> s - d"
      using assms(2) by (simp add: word_le_nat_alt)
    then show ?thesis
      using True by (simp add: memmove_def memmove_down_copied)
  next
    case False
    have "d = s \<or> n \<le> d - s"
    proof (cases "d \<le> s")
      case True
      then have "unat (d - s) = 2 ^ 64 - unat s + unat d \<or> d = s"
        using unat_less_2p64 [of s]
        by (auto simp: unat_sub_if_size word_le_nat_alt word_size word_unat_eq_iff)
      then show ?thesis
        using assms(1) by (auto simp: word_le_nat_alt)
    next
      case lt: False
      then have "s + n \<le> d"
        using False by (simp add: not_le not_less)
      moreover have "unat (s + n) = unat s + unat n"
        using lt assms(2) by (simp add: unat_word_ariths word_le_nat_alt)
      ultimately show ?thesis
        using lt by (auto simp: word_le_nat_alt unat_sub)
    qed
    then show ?thesis
      using False by (auto simp: memmove_def memcpy_copied)
  qed
qed

text \<open>Byte by byte, for ranges that do not wrap around the address space.\<close>

lemma in_range_iff:
  fixes p n x :: u64
  assumes "unat p + unat n \<le> 2 ^ 64"
  shows "x - p < n \<longleftrightarrow> unat p \<le> unat x \<and> unat x < unat p + unat n"
proof (cases "p \<le> x")
  case True
  then show ?thesis
    by (auto simp: word_less_nat_alt unat_sub word_le_nat_alt)
next
  case False
  then have "unat (x - p) = 2 ^ 64 - unat p + unat x"
    using unat_less_2p64 [of p] by (auto simp: unat_sub_if_size word_le_nat_alt word_size)
  then show ?thesis
    using False assms by (auto simp: word_less_nat_alt word_le_nat_alt)
qed

lemma memset_frame:
  assumes "unat p + unat n \<le> 2 ^ 64" and "unat x < unat p \<or> unat p + unat n \<le> unat x"
  shows "memset m p c n x = m x"
  using assms(2) by (auto simp: memset_filled filled_def in_range_iff [OF assms(1)])

lemma copied_frame:
  assumes "unat d + unat n \<le> 2 ^ 64" and "unat x < unat d \<or> unat d + unat n \<le> unat x"
  shows "copied m d s n x = m x"
  using assms(2) by (auto simp: copied_def in_range_iff [OF assms(1)])

lemma copied_byte: "i < n \<Longrightarrow> copied m d s n (d + i) = m (s + i)"
  by (simp add: copied_def)

subsection \<open>Addresses inside an aligned record\<close>

lemma aligned8_add: "aligned8 p \<Longrightarrow> aligned8 q \<Longrightarrow> aligned8 (p + q)"
proof -
  assume "aligned8 p" and "aligned8 q"
  then have "8 dvd unat p + unat q"
    by (simp add: aligned8_def)
  then have "8 dvd (unat p + unat q) mod 2 ^ 64"
    by (rule dvd_mod) simp
  then show ?thesis
    by (simp add: aligned8_def unat_word_ariths)
qed

lemma aligned8_sub: "aligned8 p \<Longrightarrow> aligned8 q \<Longrightarrow> aligned8 (p - q)"
  by (auto simp: aligned8_def unat_sub_if_size word_size intro!: dvd_diff_nat dvd_add)

lemma aligned8_numeral [simp]: "aligned8 0" "aligned8 8" "aligned8 16" "aligned8 24" "aligned8 32"
  by (simp_all add: aligned8_def)

end
