(* ===== verification/Page_Tables.thy ===== *)
theory Page_Tables
  imports Byte_Memory
begin

text \<open>
  Four-level x86-64 page tables: the macros of \<^verbatim>\<open>shared/x86-64.h\<close> and the functions of
  \<^verbatim>\<open>kernel/vm.c\<close>. Physical memory is the byte memory of the theory \<open>Byte_Memory\<close>; the kernel
  runs identity mapped, so a page table pointer is the physical address of its 512 entries. Every
  page table of this kernel has five pages (one at each of the levels 1 to 3 and two at level 4):
  \<open>pt_shape\<close>. On such a table the functions refine an abstract address space, a function from
  page numbers to page table entries.
\<close>

section \<open>Macros of x86-64.h\<close>

definition PAGESIZE :: u64 where
  "PAGESIZE = 4096"

definition PAGENUMBER :: "u64 \<Rightarrow> u32" where
  "PAGENUMBER ptr = ucast (drop_bit 12 ptr)"

definition PAGEADDRESS :: "u32 \<Rightarrow> u64" where
  "PAGEADDRESS pn = push_bit 12 (scast pn)"

text \<open>The assertion of \<open>pageindex\<close> (\<open>level\<close> between 0 and 3) holds at every call.\<close>

definition pageindex :: "u64 \<Rightarrow> nat \<Rightarrow> u64" where
  "pageindex addr level = drop_bit (12 + (3 - level) * 9) addr AND 0x1FF"

definition L4PAGEINDEX :: "u64 \<Rightarrow> u64" where
  "L4PAGEINDEX addr = pageindex addr 3"

definition PAGEOFFSET :: "u64 \<Rightarrow> u64" where
  "PAGEOFFSET addr = addr AND 0xFFF"

definition PTE_ADDR :: "u64 \<Rightarrow> u64" where
  "PTE_ADDR pageentry = pageentry AND NOT 0xFFF"

definition PTE_FLAGS :: "u64 \<Rightarrow> u64" where
  "PTE_FLAGS pageentry = pageentry AND 0xFFF"

definition PTE_P :: u64 where
  "PTE_P = 1"

definition PTE_W :: u64 where
  "PTE_W = 2"

definition PTE_U :: u64 where
  "PTE_U = 4"

definition MEMSIZE_PHYSICAL :: u64 where
  "MEMSIZE_PHYSICAL = 0x200000"

definition MEMSIZE_VIRTUAL :: u64 where
  "MEMSIZE_VIRTUAL = 0x300000"

lemmas pte_bits = PTE_P_def PTE_W_def PTE_U_def

section \<open>Functions of vm.c\<close>

record vamapping =
  vam_pn :: u32
  vam_pa :: u64
  vam_perm :: u32

text \<open>\<open>pt->entry[i]\<close> is the quadword at \<open>pt + 8 * i\<close>.\<close>

definition entry_at :: "mem \<Rightarrow> u64 \<Rightarrow> u64 \<Rightarrow> u64" where
  "entry_at m pt i = load64 m (pt + 8 * i)"

definition set_entry :: "u64 \<Rightarrow> u64 \<Rightarrow> u64 \<Rightarrow> mem \<Rightarrow> mem" where
  "set_entry pt i e m = store64 m (pt + 8 * i) e"

primrec lookup_levels :: "mem \<Rightarrow> u64 \<Rightarrow> nat list \<Rightarrow> u64 \<Rightarrow> u64 \<Rightarrow> u64" where
  "lookup_levels m va [] pt pe = pe"
| "lookup_levels m va (i # is) pt pe =
     (if pe AND PTE_P = 0 then pe
      else let pe' = entry_at m pt (pageindex va i) AND NOT (pe AND (PTE_W OR PTE_U))
           in lookup_levels m va is (PTE_ADDR pe') pe')"

definition virtual_memory_lookup :: "mem \<Rightarrow> u64 \<Rightarrow> u64 \<Rightarrow> vamapping" where
  "virtual_memory_lookup m pagetable va =
     (let pe = lookup_levels m va [0, 1, 2, 3] pagetable (PTE_W OR PTE_U OR PTE_P)
      in if pe AND PTE_P \<noteq> 0
         then \<lparr>vam_pn = PAGENUMBER pe, vam_pa = PTE_ADDR pe + PAGEOFFSET va, vam_perm = ucast (PTE_FLAGS pe)\<rparr>
         else \<lparr>vam_pn = - 1, vam_pa = - 1, vam_perm = 0\<rparr>)"

text \<open>\<open>lookup_l4pagetable\<close> walks the levels 0 to 2. The result 0 is \<open>NULL\<close>; the log output of the
  failing branch is left out. \<open>perm\<close> is a C \<open>int\<close>, sign extended where it meets an entry.\<close>

primrec l4_levels :: "mem \<Rightarrow> u64 \<Rightarrow> u32 \<Rightarrow> nat list \<Rightarrow> u64 \<Rightarrow> u64 outcome" where
  "l4_levels m va perm [] pt = ret pt"
| "l4_levels m va perm (i # is) pt =
     (let pe = entry_at m pt (pageindex va i)
      in if pe AND PTE_P = 0 then ret 0
         else bindo (assertion (PTE_ADDR pe < MEMSIZE_PHYSICAL)) (\<lambda>_.
              bindo (assertion (scast perm AND PTE_W \<noteq> 0 \<longrightarrow> pe AND PTE_W \<noteq> 0)) (\<lambda>_.
              bindo (assertion (scast perm AND PTE_U \<noteq> 0 \<longrightarrow> pe AND PTE_U \<noteq> 0)) (\<lambda>_.
                l4_levels m va perm is (PTE_ADDR pe)))))"

definition lookup_l4pagetable :: "mem \<Rightarrow> u64 \<Rightarrow> u64 \<Rightarrow> u32 \<Rightarrow> u64 outcome" where
  "lookup_l4pagetable m pagetable va perm = l4_levels m va perm [0, 1, 2] pagetable"

partial_function (option) map_pages ::
  "u64 \<Rightarrow> u32 \<Rightarrow> u32 \<Rightarrow> u64 \<Rightarrow> u64 \<Rightarrow> u64 \<Rightarrow> u64 \<Rightarrow> mem \<Rightarrow> (u32 \<times> mem) outcome" where
  "map_pages pagetable perm last_index123 l4pagetable va pa sz m =
     (if sz = 0 then ret (0, m)
      else
        let cur_index123 = ucast (drop_bit 21 va)
        in bindo (if cur_index123 \<noteq> last_index123 then lookup_l4pagetable m pagetable va perm
                  else ret l4pagetable) (\<lambda>l4.
             if scast perm AND PTE_P \<noteq> 0 \<and> l4 \<noteq> 0 then
               map_pages pagetable perm cur_index123 l4 (va + PAGESIZE) (pa + PAGESIZE) (sz - PAGESIZE)
                 (set_entry l4 (L4PAGEINDEX va) (pa OR scast perm) m)
             else if l4 \<noteq> 0 then
               map_pages pagetable perm cur_index123 l4 (va + PAGESIZE) (pa + PAGESIZE) (sz - PAGESIZE)
                 (set_entry l4 (L4PAGEINDEX va) (scast perm) m)
             else if scast perm AND PTE_P \<noteq> 0 then ret (- 1, m)
             else
               map_pages pagetable perm cur_index123 l4 (va + PAGESIZE) (pa + PAGESIZE) (sz - PAGESIZE) m))"

definition virtual_memory_map ::
  "u64 \<Rightarrow> u64 \<Rightarrow> u64 \<Rightarrow> u64 \<Rightarrow> u32 \<Rightarrow> mem \<Rightarrow> (u32 \<times> mem) outcome" where
  "virtual_memory_map pagetable va pa sz perm m =
     bindo (assertion (va mod PAGESIZE = 0)) (\<lambda>_.
     bindo (assertion (sz mod PAGESIZE = 0)) (\<lambda>_.
     bindo (assertion (va + sz \<ge> va \<or> va + sz = 0)) (\<lambda>_.
     bindo (assertion (scast perm AND PTE_P \<noteq> 0 \<longrightarrow>
              pa mod PAGESIZE = 0 \<and> pa + sz \<ge> pa \<and> pa + sz \<le> MEMSIZE_PHYSICAL)) (\<lambda>_.
     bindo (assertion (0 \<le> sint perm \<and> sint perm < 0x1000)) (\<lambda>_.
     bindo (assertion (pagetable mod PAGESIZE = 0)) (\<lambda>_.
       map_pages pagetable perm (- 1) 0 va pa sz m))))))"

text \<open>The addresses the linker gives to the symbols of the kernel.\<close>

record link_map =
  kernel_pagetables :: u64
  default_int_handler :: u64
  virtual_memory_map_addr :: u64
  start_data :: u64
  kernel_end :: u64
  console_addr :: u64

definition set_pagetable :: "link_map \<Rightarrow> u64 \<Rightarrow> u64 \<Rightarrow> mem \<Rightarrow> u64 outcome" where
  "set_pagetable lm kernel_pagetable pagetable m =
     bindo (assertion (PAGEOFFSET pagetable = 0)) (\<lambda>_.
     bindo (assertion (vam_pa (virtual_memory_lookup m pagetable (default_int_handler lm))
                         = default_int_handler lm)) (\<lambda>_.
     bindo (assertion (vam_pa (virtual_memory_lookup m kernel_pagetable pagetable) = pagetable)) (\<lambda>_.
     bindo (assertion (vam_pa (virtual_memory_lookup m pagetable kernel_pagetable) = kernel_pagetable)) (\<lambda>_.
     bindo (assertion (vam_pa (virtual_memory_lookup m pagetable (virtual_memory_map_addr lm))
                         = virtual_memory_map_addr lm)) (\<lambda>_.
       ret pagetable)))))"

text \<open>The loop of assertions of \<open>virtual_memory_init\<close>, for the page addresses from \<open>addr\<close> up.\<close>

function check_identity :: "mem \<Rightarrow> u64 \<Rightarrow> u64 \<Rightarrow> unit outcome" where
  "check_identity m kernel_pagetable addr =
     (if addr < MEMSIZE_PHYSICAL then
        let vmap = virtual_memory_lookup m kernel_pagetable addr
        in bindo (assertion (vam_pa vmap = addr)) (\<lambda>_.
           bindo (assertion (scast (vam_perm vmap) AND (PTE_P OR PTE_W) = PTE_P OR PTE_W)) (\<lambda>_.
             check_identity m kernel_pagetable (addr + PAGESIZE)))
      else ret ())"
  by auto
termination
  by (relation "measure (\<lambda>(m, k, addr). unat MEMSIZE_PHYSICAL - unat addr)")
    (auto simp: MEMSIZE_PHYSICAL_def PAGESIZE_def word_less_nat_alt unat_word_ariths)

declare check_identity.simps [simp del]

text \<open>\<open>virtual_memory_init\<close> returns the memory with the kernel page table and the new value of the
  register \<open>cr3\<close>.\<close>

definition virtual_memory_init :: "link_map \<Rightarrow> mem \<Rightarrow> (mem \<times> u64) outcome" where
  "virtual_memory_init lm m0 =
     (let k0 = kernel_pagetables lm;
          table = (\<lambda>i. k0 + i * PAGESIZE);
          m1 = memset m0 k0 0 (5 * PAGESIZE);
          m2 = set_entry (table 0) 0 (table 1 OR PTE_P OR PTE_W OR PTE_U) m1;
          m3 = set_entry (table 1) 0 (table 2 OR PTE_P OR PTE_W OR PTE_U) m2;
          m4 = set_entry (table 2) 0 (table 3 OR PTE_P OR PTE_W OR PTE_U) m3;
          m5 = set_entry (table 2) 1 (table 4 OR PTE_P OR PTE_W OR PTE_U) m4
      in bindo (virtual_memory_map k0 0 0 MEMSIZE_PHYSICAL (ucast (PTE_P OR PTE_W OR PTE_U)) m5) (\<lambda>(_, m6).
         bindo (check_identity m6 k0 0) (\<lambda>_.
         bindo (set_pagetable lm k0 k0 m6) (\<lambda>cr3. ret (m6, cr3)))))"

section \<open>Entries of page table pages\<close>

definition page_aligned :: "u64 \<Rightarrow> bool" where
  "page_aligned a \<longleftrightarrow> PAGEOFFSET a = 0"

lemma page_aligned_iff: "page_aligned a \<longleftrightarrow> 4096 dvd unat a"
proof -
  have "PAGEOFFSET a = take_bit 12 a"
    by (simp add: PAGEOFFSET_def take_bit_eq_mask mask_eq_exp_minus_1)
  then have "unat (PAGEOFFSET a) = unat a mod 4096"
    by (simp only: unsigned_take_bit_eq) (simp add: take_bit_eq_mod)
  then show ?thesis
    by (simp add: page_aligned_def word_unat_eq_iff dvd_eq_mod_eq_0)
qed

lemma mod_PAGESIZE: "a mod PAGESIZE = 0 \<longleftrightarrow> page_aligned a"
  by (simp add: page_aligned_iff PAGESIZE_def word_unat_eq_iff unat_mod dvd_eq_mod_eq_0)

lemma page_aligned_room: "page_aligned a \<Longrightarrow> unat a + 4096 \<le> 2 ^ 64"
  using unat_less_2p64 [of a] by (auto simp: page_aligned_iff)

lemma page_aligned_PTE_ADDR [simp]: "page_aligned (PTE_ADDR e)"
  unfolding page_aligned_def PAGEOFFSET_def PTE_ADDR_def
  by (rule bit_word_eqI) (auto simp: bit_simps)

lemma unat_entry:
  assumes "page_aligned t" and "unat i < 512"
  shows "unat (t + 8 * i) = unat t + 8 * unat i"
  using assms page_aligned_room [OF assms(1)] by (simp add: unat_word_ariths)

lemma aligned8_entry:
  assumes "page_aligned t" and "unat i < 512"
  shows "aligned8 (t + 8 * i)"
  using assms(1) by (auto simp: aligned8_def unat_entry [OF assms] page_aligned_iff intro: dvd_trans [of 8 4096])

lemma pages_apart:
  assumes "page_aligned t" and "page_aligned u" and "t \<noteq> u"
  shows "unat t + 4096 \<le> unat u \<or> unat u + 4096 \<le> unat t"
  using unat_neq [OF assms(3)] assms(1,2) unfolding page_aligned_iff dvd_def by auto

lemma entry_at_set_entry:
  assumes "page_aligned t" and "page_aligned u" and "unat i < 512" and "unat j < 512"
  shows "entry_at (set_entry t i e m) u j = (if t = u \<and> i = j then e else entry_at m u j)"
proof (cases "t = u \<and> i = j")
  case True
  then show ?thesis
    by (simp add: entry_at_def set_entry_def)
next
  case False
  have "unat (t + 8 * i) \<noteq> unat (u + 8 * j)"
  proof (cases "t = u")
    case True
    then have "unat i \<noteq> unat j"
      using False by (simp add: word_unat_eq_iff)
    then show ?thesis
      using True by (simp add: unat_entry assms)
  next
    case False
    then show ?thesis
      using pages_apart [OF assms(1,2)] assms(3,4) unat_entry [OF assms(1,3)] unat_entry [OF assms(2,4)]
      by auto
  qed
  then have "t + 8 * i \<noteq> u + 8 * j"
    by metis
  then show ?thesis
    using False by (auto simp: entry_at_def set_entry_def aligned8_entry assms)
qed

text \<open>\<open>in_page t x\<close>: the address \<open>x\<close> is in the page that starts at \<open>t\<close>.\<close>

definition in_page :: "u64 \<Rightarrow> u64 \<Rightarrow> bool" where
  "in_page t x \<longleftrightarrow> unat t \<le> unat x \<and> unat x < unat t + 4096"

lemma set_entry_frame:
  assumes "page_aligned t" and "unat i < 512" and "\<not> in_page t x"
  shows "set_entry t i e m x = m x"
  unfolding set_entry_def
  using assms(3) aligned8_entry [OF assms(1,2)] assms(2)
  by (intro store64_frame) (auto simp: unat_entry [OF assms(1,2)] in_page_def)

lemma entry_at_cong:
  assumes "page_aligned t" and "unat i < 512" and "\<And>x. in_page t x \<Longrightarrow> m x = m' x"
  shows "entry_at m t i = entry_at m' t i"
  unfolding entry_at_def
  using assms(2,3) aligned8_entry [OF assms(1,2)]
  by (intro load64_cong) (auto simp: unat_entry [OF assms(1,2)] in_page_def)

section \<open>Indices\<close>

lemma unat_pageindex: "unat (pageindex va level) = unat va div 2 ^ (12 + (3 - level) * 9) mod 512"
proof -
  have "pageindex va level = take_bit 9 (drop_bit (12 + (3 - level) * 9) va)"
    by (simp add: pageindex_def take_bit_eq_mask mask_eq_exp_minus_1)
  then show ?thesis
    by (simp only: unsigned_take_bit_eq unat_drop_bit_eq) (simp add: take_bit_eq_mod drop_bit_eq_div)
qed

lemma pageindex_less [simp]: "unat (pageindex va level) < 512"
  by (simp add: unat_pageindex)

lemma low_indices:
  assumes "unat va < 0x400000"
  shows "pageindex va 0 = 0" "pageindex va (Suc 0) = 0"
    "pageindex va 2 = of_nat (unat va div 4096 div 512)"
    "pageindex va 3 = of_nat (unat va div 4096 mod 512)"
  using assms by (simp_all add: word_unat_eq_iff unat_pageindex unat_of_nat div_mult2_eq [symmetric])

section \<open>Bits of an entry\<close>

lemma pte_bit:
  "e AND PTE_P = 0 \<longleftrightarrow> \<not> bit e 0" "e AND PTE_W = 0 \<longleftrightarrow> \<not> bit e 1" "e AND PTE_U = 0 \<longleftrightarrow> \<not> bit e 2"
  using and_exp_eq_0_iff_not_bit [of e 0] and_exp_eq_0_iff_not_bit [of e 1] and_exp_eq_0_iff_not_bit [of e 2]
  by (simp_all add: pte_bits)

lemma bit_PTE [simp]:
  "bit PTE_P n \<longleftrightarrow> n = 0" "bit PTE_W n \<longleftrightarrow> n = 1" "bit PTE_U n \<longleftrightarrow> n = 2"
proof -
  have eqs: "PTE_P = 2 ^ 0" "PTE_W = 2 ^ 1" "PTE_U = 2 ^ 2"
    by (simp_all add: pte_bits)
  show "bit PTE_P n \<longleftrightarrow> n = 0" "bit PTE_W n \<longleftrightarrow> n = 1" "bit PTE_U n \<longleftrightarrow> n = 2"
    unfolding eqs bit_exp_iff by auto
qed

lemma bit_fff: "bit (0xFFF :: u64) n \<longleftrightarrow> n < 12"
proof -
  have eq: "(0xFFF :: u64) = mask 12"
    by (simp add: mask_eq_exp_minus_1)
  show ?thesis
    unfolding eq bit_mask_iff by auto
qed

lemma bit_PTE_ADDR: "bit (PTE_ADDR e) n \<longleftrightarrow> bit e n \<and> 12 \<le> n"
  unfolding PTE_ADDR_def bit_and_iff bit_not_iff bit_fff
  by (auto dest: bit_imp_le_length)

text \<open>A link to a lower table: present, writable, for user access, and inside physical memory.\<close>

definition link_ok :: "u64 \<Rightarrow> bool" where
  "link_ok e \<longleftrightarrow> e AND PTE_P \<noteq> 0 \<and> e AND PTE_W \<noteq> 0 \<and> e AND PTE_U \<noteq> 0 \<and> PTE_ADDR e < MEMSIZE_PHYSICAL"

section \<open>The address space of a five-page table\<close>

definition table2 :: "mem \<Rightarrow> u64 \<Rightarrow> u64" where
  "table2 m pt = PTE_ADDR (entry_at m pt 0)"

definition table3 :: "mem \<Rightarrow> u64 \<Rightarrow> u64" where
  "table3 m pt = PTE_ADDR (entry_at m (table2 m pt) 0)"

definition table4 :: "mem \<Rightarrow> u64 \<Rightarrow> nat \<Rightarrow> u64" where
  "table4 m pt i = PTE_ADDR (entry_at m (table3 m pt) (of_nat i))"

definition pt_shape :: "mem \<Rightarrow> u64 \<Rightarrow> bool" where
  "pt_shape m pt \<longleftrightarrow> page_aligned pt \<and>
     link_ok (entry_at m pt 0) \<and> link_ok (entry_at m (table2 m pt) 0) \<and>
     link_ok (entry_at m (table3 m pt) 0) \<and> link_ok (entry_at m (table3 m pt) 1) \<and>
     table4 m pt 0 \<notin> {0, pt, table2 m pt, table3 m pt} \<and>
     table4 m pt 1 \<notin> {0, pt, table2 m pt, table3 m pt, table4 m pt 0}"

text \<open>The entry of page \<open>p\<close>, for the first 1024 virtual pages (4 MB).\<close>

definition pt_entry :: "mem \<Rightarrow> u64 \<Rightarrow> nat \<Rightarrow> u64" where
  "pt_entry m pt p = entry_at m (table4 m pt (p div 512)) (of_nat (p mod 512))"

definition decode :: "u64 \<Rightarrow> u64 \<Rightarrow> vamapping" where
  "decode e va =
     (if e AND PTE_P \<noteq> 0
      then \<lparr>vam_pn = PAGENUMBER e, vam_pa = PTE_ADDR e + PAGEOFFSET va, vam_perm = ucast (PTE_FLAGS e)\<rparr>
      else \<lparr>vam_pn = - 1, vam_pa = - 1, vam_perm = 0\<rparr>)"

lemma table4_index: "i < 2 \<Longrightarrow> i = 0 \<or> i = (1 :: nat)"
  by auto

lemma page_aligned_tables [simp]:
  "page_aligned (table2 m pt)" "page_aligned (table3 m pt)" "page_aligned (table4 m pt i)"
  by (simp_all add: table2_def table3_def table4_def)

lemma lookup_entries:
  assumes e1: "e1 AND PTE_P \<noteq> 0" and e2: "e2 AND PTE_P \<noteq> 0" "e2 AND PTE_W \<noteq> 0" "e2 AND PTE_U \<noteq> 0"
    and e3: "e3 AND PTE_P \<noteq> 0"
    and at: "entry_at m pt (pageindex va 0) = e1" "entry_at m (PTE_ADDR e1) (pageindex va 1) = e2"
      "entry_at m (PTE_ADDR e2) (pageindex va 2) = e3"
  shows "lookup_levels m va [0, 1, 2, 3] pt (PTE_W OR PTE_U OR PTE_P)
    = entry_at m (PTE_ADDR e3) (pageindex va 3)"
proof -
  let ?WU = "PTE_W OR PTE_U" and ?all = "PTE_W OR PTE_U OR PTE_P"
  have all: "?all AND PTE_P \<noteq> 0" "?all AND ?WU = ?WU"
    by (simp_all add: pte_bits)
  have strip: "(e AND NOT ?WU) AND PTE_P \<noteq> 0" "PTE_ADDR (e AND NOT ?WU) = PTE_ADDR e"
      "(e AND NOT ?WU) AND ?WU = 0" if "e AND PTE_P \<noteq> 0" for e
  proof -
    show "(e AND NOT ?WU) AND PTE_P \<noteq> 0"
      using that by (auto simp: pte_bit bit_and_iff bit_or_iff bit_not_iff)
    show "PTE_ADDR (e AND NOT ?WU) = PTE_ADDR e"
      by (rule bit_word_eqI) (auto simp: bit_PTE_ADDR bit_and_iff bit_or_iff bit_not_iff)
    show "(e AND NOT ?WU) AND ?WU = 0"
      by (rule bit_word_eqI) (auto simp: bit_and_iff bit_or_iff bit_not_iff)
  qed
  have "e2 AND ?WU = ?WU"
    using e2 by (intro bit_word_eqI) (auto simp: bit_and_iff bit_or_iff pte_bit)
  then show ?thesis
    using all strip [OF e1] strip [OF e3] e2 at by (simp add: Let_def)
qed

lemma lookup_decode:
  assumes "pt_shape m pt" and "unat va < 0x400000"
  shows "virtual_memory_lookup m pt va = decode (pt_entry m pt (unat va div 4096)) va"
proof -
  let ?i = "unat va div 4096 div 512"
  have "?i = 0 \<or> ?i = 1"
    using assms(2) by (intro table4_index) simp
  then have "link_ok (entry_at m (table3 m pt) (of_nat ?i))"
    using assms(1) unfolding pt_shape_def by auto
  then have "lookup_levels m va [0, 1, 2, 3] pt (PTE_W OR PTE_U OR PTE_P)
      = entry_at m (PTE_ADDR (entry_at m (table3 m pt) (of_nat ?i))) (pageindex va 3)"
    using assms(1) unfolding pt_shape_def link_ok_def table2_def table3_def
    by (intro lookup_entries) (auto simp: low_indices [OF assms(2)])
  then show ?thesis
    unfolding virtual_memory_lookup_def decode_def Let_def pt_entry_def table4_def low_indices(4) [OF assms(2)]
    by simp
qed

lemma shape_table4:
  assumes "pt_shape m pt" and "i < 2"
  shows "table4 m pt i \<notin> {0, pt, table2 m pt, table3 m pt}"
    and "link_ok (entry_at m (table3 m pt) (of_nat i))"
  using table4_index [OF assms(2)] assms(1) unfolding pt_shape_def by auto

lemma lookup_l4:
  assumes "pt_shape m pt" and "unat va < 0x400000"
  shows "lookup_l4pagetable m pt va perm = ret (table4 m pt (unat va div 4096 div 512))"
proof -
  have "unat va div 4096 div 512 < 2"
    using assms(2) by simp
  then have l3: "link_ok (entry_at m (table3 m pt) (of_nat (unat va div 4096 div 512)))"
    by (rule shape_table4 [OF assms(1)])
  have l1: "link_ok (entry_at m pt 0)" and l2: "link_ok (entry_at m (table2 m pt) 0)"
    using assms(1) unfolding pt_shape_def by auto
  show ?thesis
    using l1 l2 l3 unfolding lookup_l4pagetable_def table4_def table3_def table2_def link_ok_def
    by (simp add: low_indices [OF assms(2)] Let_def numeral_2_eq_2 [symmetric])
qed

text \<open>Writing an entry of a level-4 table changes that entry of the address space and keeps the shape.\<close>

lemma set_leaf:
  fixes e :: u64
  assumes sh: "pt_shape m pt" and p: "p < 1024"
  defines "m' \<equiv> set_entry (table4 m pt (p div 512)) (of_nat (p mod 512)) e m"
  shows "pt_shape m' pt" and "i < 2 \<Longrightarrow> table4 m' pt i = table4 m pt i"
    and "table2 m' pt = table2 m pt" and "table3 m' pt = table3 m pt"
    and "q < 1024 \<Longrightarrow> pt_entry m' pt q = (if q = p then e else pt_entry m pt q)"
proof -
  let ?t = "table4 m pt (p div 512)"
  have al: "page_aligned pt"
    using sh by (simp add: pt_shape_def)
  have off: "?t \<notin> {0, pt, table2 m pt, table3 m pt}"
    using p by (intro shape_table4(1) [OF sh]) simp
  have j: "unat (of_nat (p mod 512) :: u64) < 512"
    by (simp add: unat_of_nat)
  have keep: "entry_at m' u k = entry_at m u k" if "page_aligned u" "?t \<noteq> u" "unat k < 512" for u k
    using that j by (auto simp: m'_def entry_at_set_entry)
  have low: "unat (of_nat i :: u64) < 512" if "i < 2" for i
    using that by (simp add: unat_of_nat)
  show t2: "table2 m' pt = table2 m pt"
    using keep [of pt 0] al off by (simp add: table2_def)
  show t3: "table3 m' pt = table3 m pt"
    using keep [of "table2 m pt" 0] off by (simp add: table3_def t2)
  have e3: "entry_at m' (table3 m pt) k = entry_at m (table3 m pt) k" if "unat k < 512" for k
    using keep [of "table3 m pt" k] off that by simp
  show t4: "table4 m' pt i = table4 m pt i" if "i < 2" for i
    using e3 [OF low [OF that]] by (simp add: table4_def t3)
  show "pt_shape m' pt"
    using sh keep [of pt 0] keep [of "table2 m pt" 0] e3 [of 0] e3 [of 1] al off t4 [of 0] t4 [of 1]
    by (simp add: pt_shape_def t2 t3)
  show "pt_entry m' pt q = (if q = p then e else pt_entry m pt q)" if q: "q < 1024"
  proof -
    have q2: "q div 512 < 2" "p div 512 < 2"
      using p q by simp_all
    have "table4 m pt (q div 512) = ?t \<longleftrightarrow> q div 512 = p div 512"
      using table4_index [OF q2(1)] table4_index [OF q2(2)] sh unfolding pt_shape_def by auto
    moreover have "(of_nat (p mod 512) :: u64) = of_nat (q mod 512) \<longleftrightarrow> p mod 512 = q mod 512"
      by (simp add: word_unat_eq_iff unat_of_nat)
    moreover have "q = p \<longleftrightarrow> q div 512 = p div 512 \<and> q mod 512 = p mod 512"
      by (metis div_mult_mod_eq)
    moreover have "unat (of_nat (q mod 512) :: u64) < 512"
      by (simp add: unat_of_nat)
    ultimately show ?thesis
      unfolding pt_entry_def t4 [OF q2(1)] using j by (auto simp: m'_def entry_at_set_entry)
  qed
qed

lemma scast_small:
  fixes x :: u32
  assumes "0 \<le> sint x" and "sint x < 0x1000"
  shows "unat (scast x :: u64) < 4096"
proof -
  have "(scast x :: u64) = word_of_int (sint x)"
    by (rule scast_eq)
  then have "uint (scast x :: u64) = take_bit 64 (sint x)"
    by (simp only: uint_word_of_int_eq) simp
  then have "uint (scast x :: u64) = sint x"
    using assms by (simp add: take_bit_int_eq_self)
  then have "unat (scast x :: u64) = nat (sint x)"
    by (simp only: unat_eq_nat_uint)
  then show ?thesis
    using assms by simp
qed

text \<open>The mapping loop, from any point of it: \<open>n\<close> pages are left.\<close>

definition mapped_entry :: "u64 \<Rightarrow> u32 \<Rightarrow> u64" where
  "mapped_entry pa perm = (if scast perm AND PTE_P \<noteq> 0 then pa OR scast perm else scast perm)"

lemma index123_div:
  assumes "unat va = 4096 * v" and "v \<le> 1024"
  shows "unat (ucast (drop_bit 21 va) :: u32) = v div 512"
proof -
  have "unat (drop_bit 21 va) = v div 512"
    using assms div_mult2_eq [of "4096 * v" 4096 512]
    by (simp only: unat_drop_bit_eq) (simp add: drop_bit_eq_div)
  then show ?thesis
    using assms(2) by (simp add: unsigned_ucast_eq take_bit_nat_eq_self)
qed

lemma map_pages_refines:
  "pt_shape m pt \<Longrightarrow> unat va = 4096 * v \<Longrightarrow> unat sz = 4096 * n \<Longrightarrow> v + n \<le> 1024 \<Longrightarrow>
   (prev = ucast (drop_bit 21 va) \<longrightarrow> l4 = table4 m pt (v div 512)) \<Longrightarrow>
   \<exists>m'. map_pages pt perm prev l4 va pa sz m = ret (0, m') \<and> pt_shape m' pt \<and>
     (\<forall>i<2. table4 m' pt i = table4 m pt i) \<and>
     (\<forall>q<1024. pt_entry m' pt q =
        (if v \<le> q \<and> q < v + n then mapped_entry (pa + of_nat (q - v) * 4096) perm else pt_entry m pt q)) \<and>
     (\<forall>x. \<not> in_page (table4 m pt 0) x \<and> \<not> in_page (table4 m pt 1) x \<longrightarrow> m' x = m x)"
proof (induction n arbitrary: m va v pa sz prev l4)
  case 0
  then have "sz = 0"
    by (simp add: unat_eq_0)
  then show ?case
    using 0 by (auto simp: map_pages.simps)
next
  case (Suc n)
  let ?t = "table4 m pt (v div 512)" and ?cur = "ucast (drop_bit 21 va) :: u32"
  let ?m = "set_entry ?t (of_nat (v mod 512)) (mapped_entry pa perm) m"
  have v: "v < 1024" "unat va < 0x400000" "v div 512 < 2"
    using Suc.prems by auto
  have nz: "sz \<noteq> 0" "?t \<noteq> 0"
    using Suc.prems(3) shape_table4(1) [OF Suc.prems(1) v(3)] by auto
  have l4: "(if ?cur \<noteq> prev then lookup_l4pagetable m pt va perm else ret l4) = ret ?t"
    using Suc.prems(5) lookup_l4 [OF Suc.prems(1) v(2), of perm] Suc.prems(2) by auto
  have ix: "L4PAGEINDEX va = of_nat (v mod 512)"
    using low_indices(4) [OF v(2)] Suc.prems(2) by (simp add: L4PAGEINDEX_def)
  have step: "map_pages pt perm prev l4 va pa sz m
      = map_pages pt perm ?cur ?t (va + PAGESIZE) (pa + PAGESIZE) (sz - PAGESIZE) ?m"
    using nz by (subst map_pages.simps) (simp add: Let_def l4 ix mapped_entry_def)
  note leaf = set_leaf [OF Suc.prems(1) v(1), where e = "mapped_entry pa perm"]
  have nx: "unat (va + PAGESIZE) = 4096 * Suc v" "unat (sz - PAGESIZE) = 4096 * n"
    using Suc.prems v(1) by (simp_all add: PAGESIZE_def unat_word_ariths unat_sub word_le_nat_alt)
  have l4': "?cur = ucast (drop_bit 21 (va + PAGESIZE)) \<longrightarrow> ?t = table4 ?m pt (Suc v div 512)"
  proof
    assume "?cur = ucast (drop_bit 21 (va + PAGESIZE))"
    then have "v div 512 = Suc v div 512"
      using index123_div [OF Suc.prems(2)] index123_div [OF nx(1)] v(1) by simp
    then show "?t = table4 ?m pt (Suc v div 512)"
      using leaf(2) v(3) by metis
  qed
  from Suc.IH [OF leaf(1) nx _ l4', of "pa + PAGESIZE"] Suc.prems(4) obtain m' where
    m': "map_pages pt perm ?cur ?t (va + PAGESIZE) (pa + PAGESIZE) (sz - PAGESIZE) ?m = ret (0, m')"
    "pt_shape m' pt" "\<forall>i<2. table4 m' pt i = table4 ?m pt i"
    "\<forall>q<1024. pt_entry m' pt q =
        (if Suc v \<le> q \<and> q < Suc v + n then mapped_entry (pa + PAGESIZE + of_nat (q - Suc v) * 4096) perm
         else pt_entry ?m pt q)"
    "\<forall>x. \<not> in_page (table4 ?m pt 0) x \<and> \<not> in_page (table4 ?m pt 1) x \<longrightarrow> m' x = ?m x"
    by auto
  have "m' x = m x" if x: "\<not> in_page (table4 m pt 0) x" "\<not> in_page (table4 m pt 1) x" for x
  proof -
    have "\<not> in_page ?t x"
      using table4_index [OF v(3)] x by auto
    then show ?thesis
      using m'(5) leaf(2) x by (simp add: set_entry_frame unat_of_nat)
  qed
  moreover have "pt_entry m' pt q = (if v \<le> q \<and> q < v + Suc n
      then mapped_entry (pa + of_nat (q - v) * 4096) perm else pt_entry m pt q)" if q: "q < 1024" for q
  proof -
    have "pa + PAGESIZE + of_nat (q - Suc v) * 4096 = pa + of_nat (q - v) * 4096" if "Suc v \<le> q"
    proof -
      have "q - v = Suc (q - Suc v)"
        using that by simp
      then show ?thesis
        by (simp only: of_nat_Suc) (simp add: PAGESIZE_def algebra_simps)
    qed
    then have "pt_entry m' pt q = (if Suc v \<le> q \<and> q < Suc v + n
        then mapped_entry (pa + of_nat (q - v) * 4096) perm else pt_entry ?m pt q)"
      using m'(4) q by metis
    moreover have "(if Suc v \<le> q \<and> q < Suc v + n then x else if q = v then y else z)
        = (if v \<le> q \<and> q < v + Suc n then (if q = v then y else x) else z)" for x y z :: u64
      by auto
    ultimately show ?thesis
      unfolding leaf(5) [OF q] by simp
  qed
  ultimately show ?case
    using step m'(1,2,3) leaf(2) by (intro exI [of _ m']) auto
qed

text \<open>The contract of \<open>virtual_memory_map\<close> on a five-page table: the pages of the range get their
  new entries, all other entries and all memory outside the level-4 tables stay as they are.\<close>

definition map_range_ok :: "nat \<Rightarrow> u64 \<Rightarrow> nat \<Rightarrow> u32 \<Rightarrow> bool" where
  "map_range_ok v pa n perm \<longleftrightarrow>
     v + n \<le> 1024 \<and> 0 \<le> sint perm \<and> sint perm < 0x1000 \<and>
     (scast perm AND PTE_P \<noteq> 0 \<longrightarrow> page_aligned pa \<and> unat pa + 4096 * n \<le> unat MEMSIZE_PHYSICAL)"

lemma virtual_memory_map_refines:
  assumes sh: "pt_shape m pt" and va: "unat va = 4096 * v" and sz: "unat sz = 4096 * n"
    and ok: "map_range_ok v pa n perm"
  shows "\<exists>m'. virtual_memory_map pt va pa sz perm m = ret (0, m') \<and> pt_shape m' pt \<and>
     (\<forall>i<2. table4 m' pt i = table4 m pt i) \<and>
     (\<forall>q<1024. pt_entry m' pt q =
        (if v \<le> q \<and> q < v + n then mapped_entry (pa + of_nat (q - v) * 4096) perm else pt_entry m pt q)) \<and>
     (\<forall>x. \<not> in_page (table4 m pt 0) x \<and> \<not> in_page (table4 m pt 1) x \<longrightarrow> m' x = m x)"
proof -
  have vn: "v + n \<le> 1024" and perm: "0 \<le> sint perm" "sint perm < 0x1000"
    using ok by (simp_all add: map_range_ok_def)
  have "va mod PAGESIZE = 0" "sz mod PAGESIZE = 0" "pt mod PAGESIZE = 0"
    using va sz sh by (simp_all add: mod_PAGESIZE page_aligned_iff pt_shape_def)
  moreover have "va + sz \<ge> va"
    using va sz vn by (simp add: word_le_nat_alt unat_word_ariths)
  moreover have "pa mod PAGESIZE = 0 \<and> pa + sz \<ge> pa \<and> pa + sz \<le> MEMSIZE_PHYSICAL"
    if "scast perm AND PTE_P \<noteq> 0"
    using that ok sz by (auto simp: map_range_ok_def mod_PAGESIZE word_le_nat_alt unat_word_ariths MEMSIZE_PHYSICAL_def)
  ultimately have "virtual_memory_map pt va pa sz perm m = map_pages pt perm (- 1) 0 va pa sz m"
    using perm by (simp add: virtual_memory_map_def)
  moreover have "ucast (drop_bit 21 va) \<noteq> (- 1 :: u32)"
  proof
    assume "ucast (drop_bit 21 va) = (- 1 :: u32)"
    then have "unat (- 1 :: u32) = v div 512"
      using index123_div [OF va] vn by simp
    then show False
      using vn by (simp add: unsigned_minus_1_eq_mask mask_eq_exp_minus_1)
  qed
  ultimately show ?thesis
    using map_pages_refines [OF sh va sz vn, of "- 1" 0 perm pa] by auto
qed

section \<open>Mapping and looking up\<close>

lemma unat_PAGEOFFSET: "unat (PAGEOFFSET a) = unat a mod 4096"
proof -
  have "PAGEOFFSET a = take_bit 12 a"
    by (simp add: PAGEOFFSET_def take_bit_eq_mask mask_eq_exp_minus_1)
  then show ?thesis
    by (simp only: unsigned_take_bit_eq) (simp add: take_bit_eq_mod)
qed

lemma page_aligned_bits: "page_aligned b \<Longrightarrow> n < 12 \<Longrightarrow> \<not> bit b n"
proof -
  assume "page_aligned b" and n: "n < 12"
  then have "bit (b AND 0xFFF) n = bit (0 :: u64) n"
    by (simp only: page_aligned_def PAGEOFFSET_def)
  then show ?thesis
    using n unfolding bit_and_iff bit_fff by simp
qed

lemma small_bits:
  assumes "unat (q :: u64) < 4096" and "12 \<le> n"
  shows "\<not> bit q n"
proof -
  have "take_bit 12 q = q"
    using assms(1) by (simp add: word_unat_eq_iff unsigned_take_bit_eq take_bit_nat_eq_self)
  then show ?thesis
    using assms(2) by (metis bit_take_bit_iff not_le)
qed

lemma entry_parts:
  assumes "page_aligned b" and "unat q < 4096"
  shows "PTE_ADDR (b OR q) = b" and "PTE_FLAGS (b OR q) = q" and "(b OR q) AND PTE_P = 0 \<longleftrightarrow> q AND PTE_P = 0"
    and "drop_bit 12 (b OR q) = drop_bit 12 b"
proof -
  note bits = page_aligned_bits [OF assms(1)] small_bits [OF assms(2)]
  show "PTE_ADDR (b OR q) = b"
    using bits by (intro bit_word_eqI) (auto simp: bit_PTE_ADDR bit_or_iff not_le [symmetric])
  show "PTE_FLAGS (b OR q) = q"
  proof (rule bit_word_eqI)
    show "bit (PTE_FLAGS (b OR q)) n = bit q n" for n
      using bits [of n] unfolding PTE_FLAGS_def bit_and_iff bit_or_iff bit_fff by (cases "n < 12") auto
  qed
  show "(b OR q) AND PTE_P = 0 \<longleftrightarrow> q AND PTE_P = 0"
    using bits(1) [of 0] by (simp add: pte_bit bit_or_iff)
  show "drop_bit 12 (b OR q) = drop_bit 12 b"
    using bits by (intro bit_word_eqI) (auto simp: bit_drop_bit_eq bit_or_iff)
qed

lemma ucast_scast: "(ucast (scast (x :: u32) :: u64) :: u32) = x"
  by (rule bit_word_eqI) (auto simp: bit_simps)

lemma drop_bit_page:
  assumes "page_aligned b" and "unat o' < 4096"
  shows "drop_bit 12 (b + o') = drop_bit 12 b"
proof -
  have "unat (b + o') = unat b + unat o'"
    using page_aligned_room [OF assms(1)] assms(2) by (simp add: unat_word_ariths)
  moreover obtain j where "unat b = 4096 * j"
    using assms(1) by (auto simp: page_aligned_iff)
  ultimately show ?thesis
    using assms(2) by (simp only: word_unat_eq_iff unat_drop_bit_eq) (simp add: drop_bit_eq_div)
qed

lemma decode_mapped:
  assumes b: "page_aligned b" and perm: "0 \<le> sint perm" "sint perm < 0x1000"
  shows "decode (mapped_entry b perm) a =
    (if scast perm AND PTE_P \<noteq> 0
     then \<lparr>vam_pn = PAGENUMBER (b + PAGEOFFSET a), vam_pa = b + PAGEOFFSET a, vam_perm = perm\<rparr>
     else \<lparr>vam_pn = - 1, vam_pa = - 1, vam_perm = 0\<rparr>)"
proof -
  note small = scast_small [OF perm]
  have "drop_bit 12 (b + PAGEOFFSET a) = drop_bit 12 b"
    by (rule drop_bit_page [OF b]) (simp add: unat_PAGEOFFSET)
  then show ?thesis
    using entry_parts [OF b small]
    by (simp add: decode_def mapped_entry_def PAGENUMBER_def ucast_scast)
qed

lemma page_aligned_add_pages:
  assumes "page_aligned pa"
  shows "page_aligned (pa + of_nat k * 4096)"
proof -
  have "unat (pa + of_nat k * 4096) = (unat pa + k * 4096) mod 2 ^ 64"
    by (simp add: unat_word_ariths unat_of_nat mod_simps)
  moreover have "4096 dvd (unat pa + k * 4096) mod (2 ^ 64 :: nat)"
    using assms by (intro dvd_mod) (auto simp: page_aligned_iff)
  ultimately show ?thesis
    by (simp add: page_aligned_iff)
qed

lemma page_split: "unat va = 4096 * v \<Longrightarrow> unat va \<le> unat a \<Longrightarrow>
  a - va = of_nat (unat a div 4096 - v) * 4096 + PAGEOFFSET a"
proof -
  assume va: "unat va = 4096 * v" and le: "unat va \<le> unat a"
  then have "v \<le> unat a div 4096"
    by (simp add: less_eq_div_iff_mult_less_eq mult.commute)
  then obtain k where k: "unat a div 4096 = v + k"
    using le_Suc_ex by blast
  then have ua: "unat a = 4096 * (v + k) + unat a mod 4096"
    using mult_div_mod_eq [of 4096 "unat a"] by simp
  have "unat (a - va) = 4096 * k + unat a mod 4096"
    using le ua va by (simp add: unat_sub word_le_nat_alt)
  moreover have "4096 * k + unat a mod 4096 < 2 ^ 64"
    using ua unat_less_2p64 [of a] by simp
  then have "unat (of_nat k * 4096 + PAGEOFFSET a) = 4096 * k + unat a mod 4096"
    by (simp add: unat_word_ariths unat_of_nat unat_PAGEOFFSET mod_simps mult.commute)
  ultimately show ?thesis
    using k by (simp add: word_unat_eq_iff)
qed

text \<open>What \<open>virtual_memory_lookup\<close> returns after \<open>virtual_memory_map\<close>.\<close>

lemma map_lookup:
  assumes sh: "pt_shape m pt" and va: "unat va = 4096 * v" and sz: "unat sz = 4096 * n"
    and ok: "map_range_ok v pa n perm" and pa: "page_aligned pa"
    and map: "virtual_memory_map pt va pa sz perm m = ret (r, m')" and a: "unat a < 0x400000"
  shows "virtual_memory_lookup m' pt a =
    (if unat va \<le> unat a \<and> unat a < unat va + unat sz
     then if scast perm AND PTE_P \<noteq> 0
          then \<lparr>vam_pn = PAGENUMBER (pa + (a - va)), vam_pa = pa + (a - va), vam_perm = perm\<rparr>
          else \<lparr>vam_pn = - 1, vam_pa = - 1, vam_perm = 0\<rparr>
     else virtual_memory_lookup m pt a)"
proof -
  let ?q = "unat a div 4096"
  from virtual_memory_map_refines [OF sh va sz ok] map have
    sh': "pt_shape m' pt" and ent: "\<forall>q<1024. pt_entry m' pt q =
        (if v \<le> q \<and> q < v + n then mapped_entry (pa + of_nat (q - v) * 4096) perm else pt_entry m pt q)"
    by auto
  have q: "?q < 1024"
    using a by simp
  have range: "v \<le> ?q \<and> ?q < v + n \<longleftrightarrow> unat va \<le> unat a \<and> unat a < unat va + unat sz"
    unfolding va sz by (auto simp: less_eq_div_iff_mult_less_eq div_less_iff_less_mult algebra_simps)
  have perm: "0 \<le> sint perm" "sint perm < 0x1000"
    using ok by (simp_all add: map_range_ok_def)
  show ?thesis
  proof (cases "unat va \<le> unat a \<and> unat a < unat va + unat sz")
    case True
    have "pa + of_nat (?q - v) * 4096 + PAGEOFFSET a = pa + (a - va)"
      using page_split [OF va] True by (simp add: add.assoc)
    moreover have "pt_entry m' pt ?q = mapped_entry (pa + of_nat (?q - v) * 4096) perm"
      using ent q True unfolding range [symmetric] by presburger
    ultimately show ?thesis
      using True decode_mapped [OF page_aligned_add_pages [OF pa] perm, of "?q - v" a]
      unfolding lookup_decode [OF sh' a] by presburger
  next
    case False
    then show ?thesis
      using ent q range unfolding lookup_decode [OF sh' a] lookup_decode [OF sh a] by auto
  qed
qed

section \<open>The kernel's own page table\<close>

definition PTE_PWU :: u64 where
  "PTE_PWU = PTE_P OR PTE_W OR PTE_U"

lemma link_entry:
  assumes "page_aligned t" and "t < MEMSIZE_PHYSICAL"
  shows "PTE_ADDR (t OR PTE_PWU) = t" and "link_ok (t OR PTE_PWU)"
proof -
  have "unat PTE_PWU < 4096"
    by (simp add: PTE_PWU_def pte_bits)
  then show "PTE_ADDR (t OR PTE_PWU) = t"
    by (rule entry_parts(1) [OF assms(1)])
  then show "link_ok (t OR PTE_PWU)"
    using assms(2) by (simp add: link_ok_def pte_bit bit_or_iff PTE_PWU_def)
qed

lemma link_five_tables:
  fixes t0 t1 t2 t3 t4 :: u64 and m :: mem
  assumes al: "page_aligned t0" "page_aligned t1" "page_aligned t2" "page_aligned t3" "page_aligned t4"
    and lt: "t1 < MEMSIZE_PHYSICAL" "t2 < MEMSIZE_PHYSICAL" "t3 < MEMSIZE_PHYSICAL" "t4 < MEMSIZE_PHYSICAL"
    and d: "distinct [0, t0, t1, t2, t3, t4]"
  defines "m' \<equiv> set_entry t2 1 (t4 OR PTE_PWU) (set_entry t2 0 (t3 OR PTE_PWU)
      (set_entry t1 0 (t2 OR PTE_PWU) (set_entry t0 0 (t1 OR PTE_PWU) m)))"
  shows "pt_shape m' t0" and "table4 m' t0 0 = t3" and "table4 m' t0 1 = t4"
    and "unat j < 512 \<Longrightarrow> entry_at m' t3 j = entry_at m t3 j"
    and "unat j < 512 \<Longrightarrow> entry_at m' t4 j = entry_at m t4 j"
    and "\<not> in_page t0 x \<Longrightarrow> \<not> in_page t1 x \<Longrightarrow> \<not> in_page t2 x \<Longrightarrow> m' x = m x"
    and "table2 m' t0 = t1" and "table3 m' t0 = t2"
proof -
  have e: "entry_at m' t0 0 = t1 OR PTE_PWU" "entry_at m' t1 0 = t2 OR PTE_PWU"
    "entry_at m' t2 0 = t3 OR PTE_PWU" "entry_at m' t2 1 = t4 OR PTE_PWU"
    using d al by (auto simp: m'_def entry_at_set_entry)
  have t: "table2 m' t0 = t1" "table3 m' t0 = t2" "table4 m' t0 0 = t3" "table4 m' t0 (Suc 0) = t4"
    using e al lt by (simp_all add: table2_def table3_def table4_def link_entry)
  then show "table4 m' t0 0 = t3" "table4 m' t0 1 = t4" "table2 m' t0 = t1" "table3 m' t0 = t2"
    by simp_all
  show "pt_shape m' t0"
    using e al lt d by (auto simp: pt_shape_def t link_entry)
  show "unat j < 512 \<Longrightarrow> entry_at m' t3 j = entry_at m t3 j"
    "unat j < 512 \<Longrightarrow> entry_at m' t4 j = entry_at m t4 j"
    using d al by (auto simp: m'_def entry_at_set_entry)
  show "\<not> in_page t0 x \<Longrightarrow> \<not> in_page t1 x \<Longrightarrow> \<not> in_page t2 x \<Longrightarrow> m' x = m x"
    using al by (simp add: m'_def set_entry_frame)
qed

lemma check_identity_ok:
  assumes "\<And>a. unat a < 0x200000 \<Longrightarrow> virtual_memory_lookup m pt a
      = \<lparr>vam_pn = PAGENUMBER a, vam_pa = a, vam_perm = 7\<rparr>"
  shows "check_identity m pt addr = ret ()"
  using assms
proof (induction m pt addr rule: check_identity.induct)
  case (1 m pt addr)
  have "check_identity m pt (addr + PAGESIZE) = ret ()" if "addr < MEMSIZE_PHYSICAL"
    using 1 that by (simp add: MEMSIZE_PHYSICAL_def word_less_nat_alt pte_bits)
  then show ?case
    using "1.prems" [of addr]
    by (subst check_identity.simps) (simp add: Let_def MEMSIZE_PHYSICAL_def word_less_nat_alt pte_bits)
qed

text \<open>The link addresses are sound: five pages for the tables inside physical memory, and code
  inside physical memory.\<close>

definition link_map_ok :: "link_map \<Rightarrow> bool" where
  "link_map_ok lm \<longleftrightarrow> page_aligned (kernel_pagetables lm) \<and> kernel_pagetables lm \<noteq> 0 \<and>
     unat (kernel_pagetables lm) + 5 * 4096 \<le> 0x200000 \<and>
     unat (default_int_handler lm) < 0x200000 \<and> unat (virtual_memory_map_addr lm) < 0x200000"

lemma zeroed_entry:
  assumes "page_aligned t" and "unat j < 512" and "\<And>x. in_page t x \<Longrightarrow> m x = 0"
  shows "entry_at m t j = 0"
proof -
  have "entry_at m t j = entry_at (\<lambda>_. 0) t j"
    using assms by (intro entry_at_cong) auto
  then show ?thesis
    by (simp add: entry_at_def load64_def)
qed

lemma init_links:
  fixes k0 :: u64 and m :: mem
  assumes k0: "page_aligned k0" "k0 \<noteq> 0" "unat k0 + 5 * 4096 \<le> 0x200000"
    and t_def: "t = (\<lambda>i. k0 + i * PAGESIZE)"
    and m5_def: "m5 = set_entry (t 2) 1 (t 4 OR PTE_PWU) (set_entry (t 2) 0 (t 3 OR PTE_PWU)
      (set_entry (t 1) 0 (t 2 OR PTE_PWU) (set_entry (t 0) 0 (t 1 OR PTE_PWU) (memset m k0 0 (5 * PAGESIZE)))))"
  shows "\<And>i. unat i < 5 \<Longrightarrow> unat (t i) = unat k0 + unat i * 4096 \<and> page_aligned (t i)"
    and "pt_shape m5 k0" and "table2 m5 k0 = t 1" and "table3 m5 k0 = t 2" and "table4 m5 k0 0 = t 3" and "table4 m5 k0 1 = t 4"
    and "p < 1024 \<Longrightarrow> pt_entry m5 k0 p = 0"
    and "unat x < unat k0 \<or> unat k0 + 5 * 4096 \<le> unat x \<Longrightarrow> m5 x = m x"
proof -
  define m1 where "m1 = memset m k0 0 (5 * PAGESIZE)"
  have m5: "m5 = set_entry (t 2) 1 (t 4 OR PTE_PWU) (set_entry (t 2) 0 (t 3 OR PTE_PWU)
      (set_entry (t 1) 0 (t 2 OR PTE_PWU) (set_entry (t 0) 0 (t 1 OR PTE_PWU) m1)))"
    by (simp only: m5_def m1_def)
  have ut: "unat (t i) = unat k0 + unat i * 4096" if "unat i < 5" for i
    using k0(3) that by (simp add: t_def PAGESIZE_def unat_word_ariths)
  have al: "page_aligned (t i)" if "unat i < 5" for i
    using k0(1) ut [OF that] by (simp add: page_aligned_iff)
  then show "\<And>i. unat i < 5 \<Longrightarrow> unat (t i) = unat k0 + unat i * 4096 \<and> page_aligned (t i)"
    using ut by simp
  have lt: "t i < MEMSIZE_PHYSICAL" if "unat i < 5" for i
    using k0(3) ut [OF that] that by (simp add: word_less_nat_alt MEMSIZE_PHYSICAL_def)
  have d: "distinct [0, t 0, t 1, t 2, t 3, t 4]"
    using k0(2) ut [of 0] ut [of 1] ut [of 2] ut [of 3] ut [of 4] by (auto simp: word_unat_eq_iff)
  have als: "page_aligned (t 0)" "page_aligned (t 1)" "page_aligned (t 2)" "page_aligned (t 3)" "page_aligned (t 4)"
    by (rule al; simp)+
  have lts: "t 1 < MEMSIZE_PHYSICAL" "t 2 < MEMSIZE_PHYSICAL" "t 3 < MEMSIZE_PHYSICAL" "t 4 < MEMSIZE_PHYSICAL"
    by (rule lt; simp)+
  have t0: "t 0 = k0"
    by (simp add: t_def)
  note five = link_five_tables [OF als lts d, where m = m1, folded m5, unfolded t0]
  show "pt_shape m5 k0" "table2 m5 k0 = t 1" "table3 m5 k0 = t 2" "table4 m5 k0 0 = t 3" "table4 m5 k0 1 = t 4"
    by (fact five)+
  have fits: "unat k0 + unat (5 * PAGESIZE) \<le> 2 ^ 64" "unat (5 * PAGESIZE) = 5 * 4096"
    using k0(3) by (simp_all add: PAGESIZE_def)
  have zero: "m1 x = 0" if "in_page (t i) x" "unat i < 5" for i x
    using that ut [OF that(2)] unfolding m1_def memset_filled filled_def in_range_iff [OF fits(1)] fits(2)
    by (auto simp: in_page_def)
  show "pt_entry m5 k0 p = 0" if "p < 1024"
  proof -
    have "p div 512 = 0 \<or> p div 512 = 1"
      using that by (intro table4_index) simp
    moreover have "unat (of_nat (p mod 512) :: u64) < 512"
      by (simp add: unat_of_nat)
    ultimately show ?thesis
      unfolding pt_entry_def using five(2-5) zeroed_entry [OF als(4)] zeroed_entry [OF als(5)] zero [of 3] zero [of 4]
      by auto
  qed
  show "m5 x = m x" if x: "unat x < unat k0 \<or> unat k0 + 5 * 4096 \<le> unat x"
  proof -
    have "\<not> in_page (t i) x" if "unat i < 5" for i
      using x that ut [OF that] by (auto simp: in_page_def)
    from five(6) this [of 0] this [of 1] this [of 2] have "m5 x = m1 x"
      by (simp add: t0)
    then show ?thesis
      unfolding m1_def using memset_frame [OF fits(1)] x fits(2) by simp
  qed
qed

lemma init_maps_all:
  assumes sh: "pt_shape m5 k0" and empty: "\<And>p. p < 1024 \<Longrightarrow> pt_entry m5 k0 p = 0"
  obtains m6 where "virtual_memory_map k0 0 0 MEMSIZE_PHYSICAL 7 m5 = ret (0, m6)" and "pt_shape m6 k0"
    and "\<And>i. i < 2 \<Longrightarrow> table4 m6 k0 i = table4 m5 k0 i"
    and "\<And>x. \<not> in_page (table4 m5 k0 0) x \<Longrightarrow> \<not> in_page (table4 m5 k0 1) x \<Longrightarrow> m6 x = m5 x"
    and "\<And>a. unat a < 0x200000 \<Longrightarrow> virtual_memory_lookup m6 k0 a = \<lparr>vam_pn = PAGENUMBER a, vam_pa = a, vam_perm = 7\<rparr>"
    and "\<And>a. 0x200000 \<le> unat a \<Longrightarrow> unat a < 0x400000 \<Longrightarrow>
      virtual_memory_lookup m6 k0 a = \<lparr>vam_pn = - 1, vam_pa = - 1, vam_perm = 0\<rparr>"
proof -
  have ok: "map_range_ok 0 0 512 7"
    by (simp add: map_range_ok_def MEMSIZE_PHYSICAL_def page_aligned_iff)
  have sz: "unat (0 :: u64) = 4096 * 0" "unat MEMSIZE_PHYSICAL = 4096 * 512"
    by (simp_all add: MEMSIZE_PHYSICAL_def)
  from virtual_memory_map_refines [OF sh sz ok] obtain m6 where
    m6: "virtual_memory_map k0 0 0 MEMSIZE_PHYSICAL 7 m5 = ret (0, m6)" "pt_shape m6 k0"
    "\<forall>i<2. table4 m6 k0 i = table4 m5 k0 i"
    "\<forall>x. \<not> in_page (table4 m5 k0 0) x \<and> \<not> in_page (table4 m5 k0 1) x \<longrightarrow> m6 x = m5 x"
    by blast
  note look = map_lookup [OF sh sz ok _ m6(1)]
  have "virtual_memory_lookup m6 k0 a = \<lparr>vam_pn = PAGENUMBER a, vam_pa = a, vam_perm = 7\<rparr>" if "unat a < 0x200000" for a
    using look [of a] that by (simp add: page_aligned_iff MEMSIZE_PHYSICAL_def pte_bits)
  moreover have "virtual_memory_lookup m6 k0 a = \<lparr>vam_pn = - 1, vam_pa = - 1, vam_perm = 0\<rparr>"
    if "0x200000 \<le> unat a" "unat a < 0x400000" for a
    using look [of a] that lookup_decode [OF sh that(2)] empty [of "unat a div 4096"]
    by (simp add: page_aligned_iff MEMSIZE_PHYSICAL_def decode_def)
  ultimately show ?thesis
    using that m6 by blast
qed

lemma virtual_memory_init_tables:
  assumes lm: "link_map_ok lm"
  defines "k0 \<equiv> kernel_pagetables lm"
  shows "\<exists>m'. virtual_memory_init lm m = ret (m', k0) \<and> pt_shape m' k0 \<and>
    (\<forall>a. unat a < 0x200000 \<longrightarrow>
       virtual_memory_lookup m' k0 a = \<lparr>vam_pn = PAGENUMBER a, vam_pa = a, vam_perm = 7\<rparr>) \<and>
    (\<forall>a. 0x200000 \<le> unat a \<and> unat a < 0x400000 \<longrightarrow>
       virtual_memory_lookup m' k0 a = \<lparr>vam_pn = - 1, vam_pa = - 1, vam_perm = 0\<rparr>) \<and>
    (\<forall>x. unat x < unat k0 \<or> unat k0 + 5 * 4096 \<le> unat x \<longrightarrow> m' x = m x) \<and>
    (\<forall>u\<in>{table2 m' k0, table3 m' k0, table4 m' k0 0, table4 m' k0 1}.
       unat k0 \<le> unat u \<and> unat u < unat k0 + 5 * 4096)"
proof -
  have k0: "page_aligned k0" "k0 \<noteq> 0" "unat k0 + 5 * 4096 \<le> 0x200000"
    using lm by (auto simp: link_map_ok_def k0_def)
  define t where "t = (\<lambda>i. k0 + i * PAGESIZE)"
  define m5 where "m5 = set_entry (t 2) 1 (t 4 OR PTE_PWU) (set_entry (t 2) 0 (t 3 OR PTE_PWU)
      (set_entry (t 1) 0 (t 2 OR PTE_PWU) (set_entry (t 0) 0 (t 1 OR PTE_PWU) (memset m k0 0 (5 * PAGESIZE)))))"
  note tab = init_links(1) [OF k0 t_def m5_def] and links = init_links(2-) [OF k0 t_def m5_def]
  obtain m6 where m6: "virtual_memory_map k0 0 0 MEMSIZE_PHYSICAL 7 m5 = ret (0, m6)" "pt_shape m6 k0"
    and t4: "\<And>i. i < 2 \<Longrightarrow> table4 m6 k0 i = table4 m5 k0 i"
    and fr6: "\<And>x. \<not> in_page (table4 m5 k0 0) x \<Longrightarrow> \<not> in_page (table4 m5 k0 1) x \<Longrightarrow> m6 x = m5 x"
    and ident: "\<And>a. unat a < 0x200000 \<Longrightarrow> virtual_memory_lookup m6 k0 a = \<lparr>vam_pn = PAGENUMBER a, vam_pa = a, vam_perm = 7\<rparr>"
    and none: "\<And>a. 0x200000 \<le> unat a \<Longrightarrow> unat a < 0x400000 \<Longrightarrow>
      virtual_memory_lookup m6 k0 a = \<lparr>vam_pn = - 1, vam_pa = - 1, vam_perm = 0\<rparr>"
    by (rule init_maps_all [OF links(1)], erule links(6), rule that)
  note t4s = t4 [of 0, unfolded links(4)] t4 [of 1, unfolded links(5)] and fr6 = fr6 [unfolded links(4,5)]
  note ut = tab [of 1] tab [of 2] tab [of 3] tab [of 4]
  have "m6 x = m x" if "unat x < unat k0 \<or> unat k0 + 5 * 4096 \<le> unat x" for x
    using fr6 [of x] links(7) [OF that] that ut by (auto simp: in_page_def)
  moreover have keep: "entry_at m6 v 0 = entry_at m5 v 0" if "v = k0 \<or> v = t 1" for v
  proof (rule entry_at_cong)
    show "m6 x = m5 x" if "in_page v x" for x
      using fr6 [of x] that \<open>v = k0 \<or> v = t 1\<close> ut by (auto simp: in_page_def)
  qed (use that k0 ut in auto)
  then have "table2 m6 k0 = t 1"
    using links(2) by (simp add: table2_def)
  moreover from this keep have "table3 m6 k0 = t 2"
    using links(2,3) by (simp add: table3_def)
  moreover have "virtual_memory_init lm m = ret (m6, k0)"
  proof -
    have "set_pagetable lm k0 k0 m6 = ret k0"
      using ident lm k0 by (simp add: set_pagetable_def link_map_ok_def k0_def page_aligned_def)
    moreover have "virtual_memory_init lm m =
        bindo (virtual_memory_map k0 0 0 MEMSIZE_PHYSICAL 7 m5) (\<lambda>(_, m6).
          bindo (check_identity m6 k0 0) (\<lambda>_. bindo (set_pagetable lm k0 k0 m6) (\<lambda>cr3. ret (m6, cr3))))"
      by (simp add: virtual_memory_init_def Let_def m5_def t_def k0_def PTE_PWU_def pte_bits)
    moreover have "check_identity m6 k0 0 = ret ()"
      by (rule check_identity_ok) (rule ident)
    ultimately show ?thesis
      using m6(1) by simp
  qed
  ultimately show ?thesis
    using m6(2) t4s ident none ut by (intro exI [of _ m6]) auto
qed

lemma virtual_memory_init_maps:
  assumes lm: "link_map_ok lm"
  defines "k0 \<equiv> kernel_pagetables lm"
  shows "\<exists>m'. virtual_memory_init lm m = ret (m', k0) \<and> pt_shape m' k0 \<and>
    (\<forall>a. unat a < 0x200000 \<longrightarrow>
       virtual_memory_lookup m' k0 a = \<lparr>vam_pn = PAGENUMBER a, vam_pa = a, vam_perm = 7\<rparr>) \<and>
    (\<forall>a. 0x200000 \<le> unat a \<and> unat a < 0x400000 \<longrightarrow>
       virtual_memory_lookup m' k0 a = \<lparr>vam_pn = - 1, vam_pa = - 1, vam_perm = 0\<rparr>) \<and>
    (\<forall>x. unat x < unat k0 \<or> unat k0 + 5 * 4096 \<le> unat x \<longrightarrow> m' x = m x)"
  using virtual_memory_init_tables [OF lm, of m] unfolding k0_def by blast

section \<open>Properties of vm.c\<close>

lemma lookup_step:
  "pe AND PTE_P \<noteq> 0 \<Longrightarrow> q = entry_at m pt (pageindex va i) AND NOT (pe AND (PTE_W OR PTE_U)) \<Longrightarrow>
   lookup_levels m va (i # is) pt pe = lookup_levels m va is (PTE_ADDR q) q"
  by (simp add: Let_def)

definition some_link_map :: link_map where
  "some_link_map = \<lparr>kernel_pagetables = 0x50000, default_int_handler = 0x40000,
     virtual_memory_map_addr = 0x41000, start_data = 0x48000, kernel_end = 0x60000, console_addr = 0xB8000\<rparr>"

lemma some_link_map_ok: "link_map_ok some_link_map"
  by (simp add: some_link_map_def link_map_ok_def page_aligned_iff)

text \<open>C19. \<open>virtual_memory_init\<close> passes all of its assertions and returns; the kernel page table then
  maps every address below \<open>MEMSIZE_PHYSICAL\<close> to itself, present, writable and user accessible,
  maps nothing between there and 4 MB, becomes the value of \<open>cr3\<close>, and only the five page table
  pages were written.\<close>

theorem virtual_memory_init_identity:
  assumes "link_map_ok lm"
  shows "\<exists>m'. virtual_memory_init lm m = ret (m', kernel_pagetables lm) \<and>
    (\<forall>a. unat a < 0x200000 \<longrightarrow> virtual_memory_lookup m' (kernel_pagetables lm) a
       = \<lparr>vam_pn = PAGENUMBER a, vam_pa = a, vam_perm = 7\<rparr>) \<and>
    (\<forall>a. 0x200000 \<le> unat a \<and> unat a < 0x400000 \<longrightarrow> virtual_memory_lookup m' (kernel_pagetables lm) a
       = \<lparr>vam_pn = - 1, vam_pa = - 1, vam_perm = 0\<rparr>) \<and>
    (\<forall>x. unat x < unat (kernel_pagetables lm) \<or> unat (kernel_pagetables lm) + 5 * 4096 \<le> unat x \<longrightarrow> m' x = m x)"
  using virtual_memory_init_maps [OF assms, of m] by blast

theorem virtual_memory_init_identity_witness:
  "\<exists>m'. virtual_memory_init some_link_map (\<lambda>_. 0) = ret (m', 0x50000) \<and>
    virtual_memory_lookup m' 0x50000 0xB8123 = \<lparr>vam_pn = 0xB8, vam_pa = 0xB8123, vam_perm = 7\<rparr>"
proof -
  have k: "kernel_pagetables some_link_map = 0x50000"
    by (simp add: some_link_map_def)
  from virtual_memory_init_identity [OF some_link_map_ok, of "\<lambda>_. 0"] obtain m' where
    m': "virtual_memory_init some_link_map (\<lambda>_. 0) = ret (m', 0x50000)"
    "\<forall>a. unat a < 0x200000 \<longrightarrow> virtual_memory_lookup m' 0x50000 a
       = \<lparr>vam_pn = PAGENUMBER a, vam_pa = a, vam_perm = 7\<rparr>"
    unfolding k by blast
  have "virtual_memory_lookup m' 0x50000 0xB8123 = \<lparr>vam_pn = PAGENUMBER 0xB8123, vam_pa = 0xB8123, vam_perm = 7\<rparr>"
    using m'(2) by simp
  then show ?thesis
    using m'(1) by (simp add: PAGENUMBER_def)
qed

text \<open>C20. \<open>virtual_memory_map\<close> on a page table of this kernel: a range of pages below 4 MB is mapped
  successfully, afterwards \<open>virtual_memory_lookup\<close> translates \<open>va + X\<close> to \<open>pa + X\<close> with the permissions
  \<open>perm\<close> for every \<open>X\<close> in the range (to nothing when \<open>perm\<close> lacks \<open>PTE_P\<close>), every other address
  translates as before, and no byte outside the two level-4 tables is written.\<close>

theorem map_then_lookup:
  assumes "pt_shape m pt" and "unat va = 4096 * v" and "unat sz = 4096 * n"
    and "map_range_ok v pa n perm" and "page_aligned pa"
  shows "\<exists>m'. virtual_memory_map pt va pa sz perm m = ret (0, m') \<and> pt_shape m' pt \<and>
    (\<forall>a. unat a < 0x400000 \<longrightarrow> virtual_memory_lookup m' pt a =
       (if unat va \<le> unat a \<and> unat a < unat va + unat sz
        then if scast perm AND PTE_P \<noteq> 0
             then \<lparr>vam_pn = PAGENUMBER (pa + (a - va)), vam_pa = pa + (a - va), vam_perm = perm\<rparr>
             else \<lparr>vam_pn = - 1, vam_pa = - 1, vam_perm = 0\<rparr>
        else virtual_memory_lookup m pt a)) \<and>
    (\<forall>x. \<not> in_page (table4 m pt 0) x \<and> \<not> in_page (table4 m pt 1) x \<longrightarrow> m' x = m x)"
proof -
  from virtual_memory_map_refines [OF assms(1-4)] obtain m' where
    m': "virtual_memory_map pt va pa sz perm m = ret (0, m')" "pt_shape m' pt"
    "\<forall>x. \<not> in_page (table4 m pt 0) x \<and> \<not> in_page (table4 m pt 1) x \<longrightarrow> m' x = m x"
    by blast
  then show ?thesis
    using map_lookup [OF assms m'(1)] by (intro exI [of _ m']) blast
qed

theorem map_then_lookup_witness:
  "\<exists>m m'. pt_shape m 0x50000 \<and> virtual_memory_map 0x50000 0x210000 0x7000 0x2000 7 m = ret (0, m') \<and>
    virtual_memory_lookup m' 0x50000 0x211234 = \<lparr>vam_pn = 8, vam_pa = 0x8234, vam_perm = 7\<rparr>"
proof -
  have k: "kernel_pagetables some_link_map = 0x50000"
    by (simp add: some_link_map_def)
  obtain m where sh: "pt_shape m 0x50000"
    using virtual_memory_init_maps [OF some_link_map_ok] unfolding k by blast
  have r: "unat (0x210000 :: u64) = 4096 * 528" "unat (0x2000 :: u64) = 4096 * 2"
    "map_range_ok 528 0x7000 2 7" "page_aligned 0x7000"
    by (simp_all add: map_range_ok_def MEMSIZE_PHYSICAL_def page_aligned_iff)
  from map_then_lookup [OF sh r] obtain m' where
    m': "virtual_memory_map 0x50000 0x210000 0x7000 0x2000 7 m = ret (0, m')"
    "\<forall>a. unat a < 0x400000 \<longrightarrow> virtual_memory_lookup m' 0x50000 a =
       (if unat (0x210000 :: u64) \<le> unat a \<and> unat a < unat (0x210000 :: u64) + unat (0x2000 :: u64)
        then if scast (7 :: u32) AND PTE_P \<noteq> 0
             then \<lparr>vam_pn = PAGENUMBER (0x7000 + (a - 0x210000)), vam_pa = 0x7000 + (a - 0x210000), vam_perm = 7\<rparr>
             else \<lparr>vam_pn = - 1, vam_pa = - 1, vam_perm = 0\<rparr>
        else virtual_memory_lookup m 0x50000 a)"
    by blast
  have "virtual_memory_lookup m' 0x50000 0x211234
      = \<lparr>vam_pn = PAGENUMBER 0x8234, vam_pa = 0x8234, vam_perm = 7\<rparr>"
    using m'(2) [rule_format, of "0x211234"] by (simp add: pte_bits)
  then show ?thesis
    using sh m'(1) by (simp add: PAGENUMBER_def) blast
qed

text \<open>\<open>virtual_memory_map\<close> reports a missing table: when the level-1 entry of the first address is not
  present and a present mapping is requested, it returns -1 and writes nothing.\<close>

theorem map_without_tables:
  assumes "page_aligned pt" and "page_aligned va" and "page_aligned pa" and "page_aligned sz" and "sz \<noteq> 0"
    and "unat va + unat sz < 2 ^ 64" and "unat pa + unat sz \<le> unat MEMSIZE_PHYSICAL"
    and "0 \<le> sint perm" and "sint perm < 0x1000" and "scast perm AND PTE_P \<noteq> 0"
    and "entry_at m pt (pageindex va 0) AND PTE_P = 0" and "ucast (drop_bit 21 va) \<noteq> (- 1 :: u32)"
  shows "virtual_memory_map pt va pa sz perm m = ret (- 1, m)"
proof -
  have "va + sz \<ge> va" "pa + sz \<ge> pa" "pa + sz \<le> MEMSIZE_PHYSICAL"
    using assms(6,7) by (simp_all add: word_le_nat_alt unat_word_ariths MEMSIZE_PHYSICAL_def)
  then have "virtual_memory_map pt va pa sz perm m = map_pages pt perm (- 1) 0 va pa sz m"
    using assms by (simp add: virtual_memory_map_def mod_PAGESIZE)
  moreover have "lookup_l4pagetable m pt va perm = ret 0"
    using assms(11) by (simp add: lookup_l4pagetable_def)
  ultimately show ?thesis
    using assms(5,10,12) by (subst (asm) map_pages.simps) (simp add: Let_def)
qed

theorem map_without_tables_witness:
  "virtual_memory_map 0x50000 0x100000 0x7000 0x1000 7 (\<lambda>_. 0) = ret (- 1, \<lambda>_. 0)"
  by (rule map_without_tables)
    (simp_all add: page_aligned_iff MEMSIZE_PHYSICAL_def pte_bits entry_at_def load64_def)

text \<open>C22. The permissions that \<open>virtual_memory_lookup\<close> reports are the flags of the level-4 entry, less the
  write and user bits that the level-3 entry has and the level-2 entry lacks. They are not the
  intersection over the levels that the processor enforces: the level-1 entry has no influence,
  and a level-3 entry without a bit does not remove it.\<close>

theorem lookup_permissions:
  assumes "e1 = entry_at m pt (pageindex va 0)" and "e2 = entry_at m (PTE_ADDR e1) (pageindex va 1)"
    and "e3 = entry_at m (PTE_ADDR e2) (pageindex va 2)" and "e4 = entry_at m (PTE_ADDR e3) (pageindex va 3)"
    and "e1 AND PTE_P \<noteq> 0" and "e2 AND PTE_P \<noteq> 0" and "e3 AND PTE_P \<noteq> 0" and "e4 AND PTE_P \<noteq> 0"
  shows "vam_perm (virtual_memory_lookup m pt va)
    = ucast (PTE_FLAGS (e4 AND NOT (e3 AND NOT e2 AND (PTE_W OR PTE_U))))"
proof -
  let ?WU = "PTE_W OR PTE_U" and ?all = "PTE_W OR PTE_U OR PTE_P"
  have addr: "PTE_ADDR (e AND NOT (f AND ?WU)) = PTE_ADDR e" for e f
    by (rule bit_word_eqI) (auto simp: bit_PTE_ADDR bit_and_iff bit_or_iff bit_not_iff)
  have present: "(e AND NOT (f AND ?WU)) AND PTE_P \<noteq> 0" if "e AND PTE_P \<noteq> 0" for e f
    using that by (auto simp: pte_bit bit_and_iff bit_or_iff bit_not_iff)
  have p0: "?all AND PTE_P \<noteq> 0"
    by (simp add: pte_bits)
  define p1 where "p1 = e1 AND NOT (?all AND ?WU)"
  define p2 where "p2 = e2 AND NOT (p1 AND ?WU)"
  define p3 where "p3 = e3 AND NOT (p2 AND ?WU)"
  define p4 where "p4 = e4 AND NOT (p3 AND ?WU)"
  note p = p1_def p2_def p3_def p4_def
  have at: "PTE_ADDR p1 = PTE_ADDR e1" "PTE_ADDR p2 = PTE_ADDR e2" "PTE_ADDR p3 = PTE_ADDR e3"
    unfolding p by (simp_all only: addr)
  have pr: "p1 AND PTE_P \<noteq> 0" "p2 AND PTE_P \<noteq> 0" "p3 AND PTE_P \<noteq> 0" "p4 AND PTE_P \<noteq> 0"
    unfolding p by (intro present assms)+
  have "lookup_levels m va [0, 1, 2, 3] pt ?all = p4"
  proof -
    have "lookup_levels m va [0, 1, 2, 3] pt ?all = lookup_levels m va [1, 2, 3] (PTE_ADDR p1) p1"
      by (rule lookup_step [OF p0]) (simp only: p1_def assms(1))
    also have "\<dots> = lookup_levels m va [2, 3] (PTE_ADDR p2) p2"
      by (rule lookup_step [OF pr(1)]) (simp only: p2_def at assms(2))
    also have "\<dots> = lookup_levels m va [3] (PTE_ADDR p3) p3"
      by (rule lookup_step [OF pr(2)]) (simp only: p3_def at assms(3))
    also have "\<dots> = lookup_levels m va [] (PTE_ADDR p4) p4"
      by (rule lookup_step [OF pr(3)]) (simp only: p4_def at assms(4))
    finally show ?thesis
      by simp
  qed
  moreover have "p4 = e4 AND NOT (e3 AND NOT e2 AND ?WU)"
    unfolding p by (rule bit_word_eqI) (auto simp: bit_and_iff bit_or_iff bit_not_iff)
  ultimately show ?thesis
    using pr(4) by (simp add: virtual_memory_lookup_def Let_def)
qed

definition read_only_memory :: mem where
  "read_only_memory = set_entry 0x1000 0 (0x2000 OR PTE_P) (set_entry 0x2000 0 (0x3000 OR PTE_PWU)
     (set_entry 0x3000 0 (0x4000 OR PTE_P) (set_entry 0x4000 0 (0x5000 OR PTE_PWU) (\<lambda>_. 0))))"

theorem lookup_permissions_witness:
  "vam_perm (virtual_memory_lookup read_only_memory 0x1000 0) = 7"
proof -
  have al: "page_aligned 0x1000" "page_aligned 0x2000" "page_aligned 0x3000" "page_aligned 0x4000"
    by (simp_all add: page_aligned_iff)
  have e: "entry_at read_only_memory 0x1000 0 = 0x2001" "entry_at read_only_memory 0x2000 0 = 0x3007"
    "entry_at read_only_memory 0x3000 0 = 0x4001" "entry_at read_only_memory 0x4000 0 = 0x5007"
    by (simp_all add: read_only_memory_def entry_at_set_entry al PTE_PWU_def pte_bits)
  have i: "pageindex 0 n = 0" for n
    by (simp add: pageindex_def)
  show ?thesis
    using lookup_permissions [of "0x2001" read_only_memory "0x1000" 0 "0x3007" "0x4001" "0x5007"]
    by (simp add: i e PTE_ADDR_def PTE_FLAGS_def pte_bits)
qed

end
