(* ===== verification/Hardware.thy ===== *)
theory Hardware
  imports Page_Tables
begin

text \<open>
  Hardware set-up of \<^verbatim>\<open>kernel/k-hardware.c\<close>: segment and gate descriptors, the interrupt
  controller, the timer, the cursor and the search for the power management device. A write to an
  I/O port is appended to a log in the record \<open>hardware\<close>, which also holds the tables that the C
  file keeps in static variables. PCI configuration space is a function from the doubleword
  written to the address port to the doubleword then read from the data port.
\<close>

section \<open>State\<close>

datatype port_write = Outb u16 u8 | Outw u16 u16 | Outl u16 u32

record x86_64_gatedescriptor =
  gd_low :: u64
  gd_high :: u64

record x86_64_pseudodescriptor =
  pseudod_limit :: u16
  pseudod_base :: u64

text \<open>Of \<open>kernel_task_descriptor\<close> only \<open>ts_rsp[0]\<close> is ever set to something other than 0.\<close>

record hardware =
  port_log :: "port_write list"
  interrupts_enabled :: u16
  segments :: "u64 list"
  interrupt_descriptors :: "x86_64_gatedescriptor list"
  ts_rsp0 :: u64
  cr0 :: u32
  gdtr :: x86_64_pseudodescriptor
  idtr :: x86_64_pseudodescriptor
  task_register :: u16

text \<open>Addresses the linker gives to the static tables and to the entry points of \<^verbatim>\<open>k-exception.S\<close>.\<close>

record hw_symbols =
  segments_addr :: u64
  kernel_task_descriptor_addr :: u64
  interrupt_descriptors_addr :: u64
  gpf_int_handler :: u64
  pagefault_int_handler :: u64
  timer_int_handler :: u64
  sys_int_handlers :: "nat \<Rightarrow> u64"

definition outb :: "u16 \<Rightarrow> u8 \<Rightarrow> hardware \<Rightarrow> hardware" where
  "outb port data h = h\<lparr>port_log := port_log h @ [Outb port data]\<rparr>"

definition outw :: "u16 \<Rightarrow> u16 \<Rightarrow> hardware \<Rightarrow> hardware" where
  "outw port data h = h\<lparr>port_log := port_log h @ [Outw port data]\<rparr>"

definition outl :: "u16 \<Rightarrow> u32 \<Rightarrow> hardware \<Rightarrow> hardware" where
  "outl port data h = h\<lparr>port_log := port_log h @ [Outl port data]\<rparr>"

lemmas port_defs = outb_def outw_def outl_def

section \<open>Segments and interrupt gates\<close>

definition SEGSEL_KERN_CODE :: u64 where "SEGSEL_KERN_CODE = 0x8"
definition SEGSEL_APP_CODE :: u64 where "SEGSEL_APP_CODE = 0x10"
definition SEGSEL_KERN_DATA :: u64 where "SEGSEL_KERN_DATA = 0x18"
definition SEGSEL_APP_DATA :: u64 where "SEGSEL_APP_DATA = 0x20"
definition SEGSEL_TASKSTATE :: u64 where "SEGSEL_TASKSTATE = 0x28"

definition X86SEG_S :: u64 where "X86SEG_S = push_bit 44 1"
definition X86SEG_P :: u64 where "X86SEG_P = push_bit 47 1"
definition X86SEG_L :: u64 where "X86SEG_L = push_bit 53 1"
definition X86SEG_W :: u64 where "X86SEG_W = push_bit 40 2"
definition X86SEG_X :: u64 where "X86SEG_X = push_bit 40 8"
definition X86SEG_TSS :: u64 where "X86SEG_TSS = push_bit 40 9"
definition X86GATE_INTERRUPT :: u64 where "X86GATE_INTERRUPT = push_bit 40 0xE"

lemmas seg_defs = SEGSEL_KERN_CODE_def SEGSEL_APP_CODE_def SEGSEL_KERN_DATA_def SEGSEL_APP_DATA_def
  SEGSEL_TASKSTATE_def X86SEG_S_def X86SEG_P_def X86SEG_L_def X86SEG_W_def X86SEG_X_def X86SEG_TSS_def
  X86GATE_INTERRUPT_def

definition set_app_segment :: "u64 \<Rightarrow> u64 \<Rightarrow> u64" where
  "set_app_segment type dpl = type OR X86SEG_S OR push_bit 45 dpl OR X86SEG_P"

text \<open>The two words of a system segment descriptor; bits 16 to 19 of the limit are shifted by 48, as in
  the source.\<close>

definition set_sys_segment :: "u64 \<Rightarrow> u64 \<Rightarrow> u64 \<Rightarrow> u64 \<Rightarrow> u64 \<times> u64" where
  "set_sys_segment type dpl addr bytes =
     (push_bit 16 (addr AND 0xFFFFFF) OR push_bit 32 (addr AND 0xFF000000)
        OR ((bytes - 1) AND 0x0FFFF) OR push_bit 48 ((bytes - 1) AND 0xF0000)
        OR type OR push_bit 45 dpl OR X86SEG_P,
      drop_bit 32 addr)"

definition set_gate :: "u64 \<Rightarrow> u64 \<Rightarrow> u64 \<Rightarrow> x86_64_gatedescriptor" where
  "set_gate type dpl function =
     \<lparr>gd_low = (function AND 0xFFFF) OR push_bit 16 SEGSEL_KERN_CODE OR type OR push_bit 45 dpl OR X86SEG_P
        OR push_bit 32 (function AND 0xFFFF0000),
      gd_high = drop_bit 32 function\<rparr>"

definition SIZEOF_TASKSTATE :: u64 where
  "SIZEOF_TASKSTATE = 96"

text \<open>The array \<open>segments\<close>: the task state descriptor takes the last two of its seven words.\<close>

definition init_segments :: "hw_symbols \<Rightarrow> u64 list" where
  "init_segments hs =
     (let tss = set_sys_segment X86SEG_TSS 0 (kernel_task_descriptor_addr hs) SIZEOF_TASKSTATE
      in [0, set_app_segment (X86SEG_X OR X86SEG_L) 0, set_app_segment (X86SEG_X OR X86SEG_L) 3,
          set_app_segment X86SEG_W 0, set_app_segment X86SEG_W 3, fst tss, snd tss])"

text \<open>The array \<open>interrupt_descriptors\<close>, filled in the order of the source.\<close>

definition set_gates :: "(nat \<Rightarrow> x86_64_gatedescriptor) \<Rightarrow> nat list \<Rightarrow> x86_64_gatedescriptor list
    \<Rightarrow> x86_64_gatedescriptor list" where
  "set_gates f is ds = fold (\<lambda>i ds. ds[i := f i]) is ds"

definition init_gates :: "link_map \<Rightarrow> hw_symbols \<Rightarrow> x86_64_gatedescriptor list" where
  "init_gates lm hs =
     (let zeroed = replicate 256 \<lparr>gd_low = 0, gd_high = 0\<rparr>;
          ignored = set_gates (\<lambda>_. set_gate X86GATE_INTERRUPT 0 (default_int_handler lm)) [16..<256] zeroed;
          timer = ignored[32 := set_gate X86GATE_INTERRUPT 0 (timer_int_handler hs)];
          gpf = timer[13 := set_gate X86GATE_INTERRUPT 0 (gpf_int_handler hs)];
          pagefault = gpf[14 := set_gate X86GATE_INTERRUPT 0 (pagefault_int_handler hs)]
      in set_gates (\<lambda>i. set_gate X86GATE_INTERRUPT 3 (sys_int_handlers hs (i - 48))) [48..<64] pagefault)"

text \<open>\<open>CR0_PE | CR0_PG | CR0_WP | CR0_AM | CR0_MP | CR0_NE\<close>\<close>

definition CR0_FLAGS :: u32 where
  "CR0_FLAGS = 0x00000001 OR 0x80000000 OR 0x00010000 OR 0x00040000 OR 0x00000002 OR 0x00000020"

definition segments_init :: "link_map \<Rightarrow> hw_symbols \<Rightarrow> hardware \<Rightarrow> hardware" where
  "segments_init lm hs h =
     h\<lparr>segments := init_segments hs,
       ts_rsp0 := 0x80000,
       interrupt_descriptors := init_gates lm hs,
       gdtr := \<lparr>pseudod_limit = 7 * 8 - 1, pseudod_base = segments_addr hs\<rparr>,
       task_register := ucast SEGSEL_TASKSTATE,
       idtr := \<lparr>pseudod_limit = 256 * 16 - 1, pseudod_base = interrupt_descriptors_addr hs\<rparr>,
       cr0 := cr0 h OR CR0_FLAGS\<rparr>"

section \<open>Interrupt controller, timer and cursor\<close>

definition IO_PIC1 :: u16 where "IO_PIC1 = 0x20"
definition IO_PIC2 :: u16 where "IO_PIC2 = 0xA0"
definition IRQ_SLAVE :: u8 where "IRQ_SLAVE = 2"
definition INT_HARDWARE :: u8 where "INT_HARDWARE = 32"
definition IO_TIMER1 :: u16 where "IO_TIMER1 = 0x40"

definition interrupt_mask :: "hardware \<Rightarrow> hardware" where
  "interrupt_mask h =
     (let masked = NOT (interrupts_enabled h)
      in outb (IO_PIC2 + 1) (ucast (drop_bit 8 masked AND 0xFF)) (outb (IO_PIC1 + 1) (ucast (masked AND 0xFF)) h))"

definition out_bytes :: "(u16 \<times> u8) list \<Rightarrow> hardware \<Rightarrow> hardware" where
  "out_bytes ws h = fold (\<lambda>(port, data). outb port data) ws h"

definition interrupt_init :: "hardware \<Rightarrow> hardware" where
  "interrupt_init h =
     interrupt_mask
       (out_bytes
          [(IO_PIC1, 0x11), (IO_PIC1 + 1, INT_HARDWARE), (IO_PIC1 + 1, push_bit (unat IRQ_SLAVE) 1), (IO_PIC1 + 1, 0x3),
           (IO_PIC2, 0x11), (IO_PIC2 + 1, INT_HARDWARE + 8), (IO_PIC2 + 1, IRQ_SLAVE), (IO_PIC2 + 1, 0x01),
           (IO_PIC1, 0x68), (IO_PIC1, 0x0a), (IO_PIC2, 0x68), (IO_PIC2, 0x0a)]
          (interrupt_mask (h\<lparr>interrupts_enabled := 0\<rparr>)))"

text \<open>\<open>TIMER_DIV\<close> for a positive rate; the quotient fits a C \<open>int\<close>.\<close>

definition TIMER_DIV :: "int \<Rightarrow> int" where
  "TIMER_DIV x = (1193182 + x div 2) div x"

definition timer_init :: "u32 \<Rightarrow> hardware \<Rightarrow> hardware" where
  "timer_init rate h =
     interrupt_mask
       (if sint rate > 0 then
          let h1 = out_bytes [(IO_TIMER1 + 3, 0x00 OR 0x04 OR 0x30),
                     (IO_TIMER1, of_int (TIMER_DIV (sint rate) mod 256)),
                     (IO_TIMER1, of_int (TIMER_DIV (sint rate) div 256))] h
          in h1\<lparr>interrupts_enabled := interrupts_enabled h1 OR 1\<rparr>
        else h\<lparr>interrupts_enabled := interrupts_enabled h AND NOT 1\<rparr>)"

definition console_show_cursor :: "u32 \<Rightarrow> hardware \<Rightarrow> hardware" where
  "console_show_cursor cpos h =
     (let c = (if sint cpos < 0 \<or> sint cpos > 25 * 80 then 0 else sint cpos)
      in out_bytes [(0x3D4, 14), (0x3D5, of_int (c div 256)), (0x3D4, 15), (0x3D5, of_int (c mod 256))] h)"

section \<open>Power management\<close>

definition pci_make_configaddr :: "u32 \<Rightarrow> u32 \<Rightarrow> u32 \<Rightarrow> u32" where
  "pci_make_configaddr bus slot func = push_bit 16 bus OR push_bit 11 slot OR push_bit 8 func"

definition pci_config_readl :: "(u32 \<Rightarrow> u32) \<Rightarrow> u32 \<Rightarrow> u32 \<Rightarrow> hardware \<Rightarrow> u32 \<times> hardware" where
  "pci_config_readl cfg configaddr offset h =
     (let a = 0x80000000 OR configaddr OR offset in (cfg a, outl 0xCF8 a h))"

text \<open>The three nested loops: functions of a slot, slots of a bus, buses. A missing function 0 ends the
  search of its slot.\<close>

fun pci_find_func :: "(u32 \<Rightarrow> u32) \<Rightarrow> u32 \<Rightarrow> nat \<Rightarrow> nat \<Rightarrow> nat list \<Rightarrow> hardware \<Rightarrow> u32 option \<times> hardware" where
  "pci_find_func cfg wanted bus slot [] h = (None, h)"
| "pci_find_func cfg wanted bus slot (func # funcs) h =
     (let configaddr = pci_make_configaddr (of_nat bus) (of_nat slot) (of_nat func);
          (vendor_device, h1) = pci_config_readl cfg configaddr 0 h
      in if vendor_device = wanted then (Some configaddr, h1)
         else if vendor_device = - 1 \<and> func = 0 then (None, h1)
         else pci_find_func cfg wanted bus slot funcs h1)"

fun pci_find_slot :: "(u32 \<Rightarrow> u32) \<Rightarrow> u32 \<Rightarrow> (nat \<times> nat) list \<Rightarrow> hardware \<Rightarrow> u32 \<times> hardware" where
  "pci_find_slot cfg wanted [] h = (- 1, h)"
| "pci_find_slot cfg wanted ((bus, slot) # slots) h =
     (case pci_find_func cfg wanted bus slot [0..<8] h of
        (Some configaddr, h1) \<Rightarrow> (configaddr, h1)
      | (None, h1) \<Rightarrow> pci_find_slot cfg wanted slots h1)"

definition pci_find_device :: "(u32 \<Rightarrow> u32) \<Rightarrow> u32 \<Rightarrow> u32 \<Rightarrow> hardware \<Rightarrow> u32 \<times> hardware" where
  "pci_find_device cfg vendor device h =
     pci_find_slot cfg (vendor OR push_bit 16 device) (List.product [0..<256] [0..<32]) h"

text \<open>\<open>poweroff\<close> up to its message and endless loop: the port writes that switch the machine off.\<close>

definition poweroff :: "(u32 \<Rightarrow> u32) \<Rightarrow> hardware \<Rightarrow> hardware" where
  "poweroff cfg h =
     (let (configaddr, h1) = pci_find_device cfg 0x8086 0x7113 h
      in if sint configaddr \<ge> 0 then
           let (v, h2) = pci_config_readl cfg configaddr 0x40 h1
           in outw (ucast ((v AND 0xFFC0) + 4)) 0x2000 h2
         else h1)"

section \<open>Properties of the descriptors\<close>

text \<open>How the processor reads an interrupt gate.\<close>

definition gate_function :: "x86_64_gatedescriptor \<Rightarrow> u64" where
  "gate_function g = (gd_low g AND mask 16) OR push_bit 16 (drop_bit 48 (gd_low g)) OR push_bit 32 (gd_high g)"

definition gate_selector :: "x86_64_gatedescriptor \<Rightarrow> u64" where
  "gate_selector g = drop_bit 16 (gd_low g) AND mask 16"

definition gate_type :: "x86_64_gatedescriptor \<Rightarrow> u64" where
  "gate_type g = drop_bit 40 (gd_low g) AND mask 5"

definition gate_dpl :: "x86_64_gatedescriptor \<Rightarrow> u64" where
  "gate_dpl g = drop_bit 45 (gd_low g) AND mask 2"

definition gate_present :: "x86_64_gatedescriptor \<Rightarrow> bool" where
  "gate_present g \<longleftrightarrow> bit (gd_low g) 47"

lemmas gate_defs = gate_function_def gate_selector_def gate_type_def gate_dpl_def gate_present_def

lemma numeral_bits:
  "bit (0xFFFF :: u64) n \<longleftrightarrow> n < 16"
  "bit (0xFFFF0000 :: u64) n \<longleftrightarrow> 16 \<le> n \<and> n < 32"
  "bit (0xE :: u64) n \<longleftrightarrow> 1 \<le> n \<and> n < 4"
  "bit (8 :: u64) n \<longleftrightarrow> n = 3"
proof -
  have eqs: "(0xFFFF :: u64) = mask 16" "(0xFFFF0000 :: u64) = push_bit 16 (mask 16)"
    "(0xE :: u64) = push_bit 1 (mask 3)" "(8 :: u64) = push_bit 3 (mask 1)"
    by (simp_all add: mask_eq_exp_minus_1 push_bit_eq_mult)
  show "bit (0xFFFF :: u64) n \<longleftrightarrow> n < 16"
    by (subst eqs) (auto simp: bit_mask_iff)
  show "bit (0xFFFF0000 :: u64) n \<longleftrightarrow> 16 \<le> n \<and> n < 32"
    by (subst eqs) (auto simp only: bit_mask_iff bit_push_bit_iff possible_bit_word len_bit0 len_num1)
  show "bit (0xE :: u64) n \<longleftrightarrow> 1 \<le> n \<and> n < 4"
    by (subst eqs) (auto simp only: bit_mask_iff bit_push_bit_iff possible_bit_word len_bit0 len_num1)
  show "bit (8 :: u64) n \<longleftrightarrow> n = 3"
    by (subst eqs) (auto simp only: bit_mask_iff bit_push_bit_iff possible_bit_word len_bit0 len_num1)
qed

lemmas descriptor_bits = bit_and_iff bit_or_iff bit_push_bit_iff bit_drop_bit_eq bit_mask_iff bit_1_iff numeral_bits

lemma set_gate_bits:
  assumes "dpl AND mask 2 = dpl"
  shows "n < 64 \<Longrightarrow> bit (gd_low (set_gate X86GATE_INTERRUPT dpl f)) n \<longleftrightarrow>
    (if n < 16 then bit f n else if n < 32 then n = 19 else if n < 40 then False else if n < 44 then 40 < n
     else if n = 44 then False else if n < 47 then bit dpl (n - 45) else if n = 47 then True else bit f (n - 32))"
    (is "_ \<Longrightarrow> ?b = ?c")
proof -
  assume n: "n < 64"
  have d: "bit dpl i \<Longrightarrow> i < 2" for i
    using assms by (metis bit_and_iff bit_mask_iff)
  have shift: "16 \<le> n \<and> n - 16 = 3 \<longleftrightarrow> n = 19" "40 \<le> n \<and> 1 \<le> n - 40 \<and> n - 40 < 4 \<longleftrightarrow> 41 \<le> n \<and> n < 44"
    "47 \<le> n \<and> n - 47 = 0 \<longleftrightarrow> n = 47"
    "32 \<le> n \<and> bit f (n - 32) \<and> 16 \<le> n - 32 \<and> n - 32 < 32 \<longleftrightarrow> 48 \<le> n \<and> bit f (n - 32)"
    using n by auto
  have "?b \<longleftrightarrow> bit f n \<and> n < 16 \<or> n = 19 \<or> 41 \<le> n \<and> n < 44 \<or> 45 \<le> n \<and> bit dpl (n - 45) \<or> n = 47
      \<or> 48 \<le> n \<and> bit f (n - 32)"
    using n shift
    by (simp only: set_gate_def X86GATE_INTERRUPT_def SEGSEL_KERN_CODE_def X86SEG_P_def descriptor_bits
        x86_64_gatedescriptor.select_convs possible_bit_word len_bit0 len_num1 conj_assoc) simp
  then show "?b = ?c"
    using d [of "n - 45"] by auto
qed

lemma set_gate_decodes:
  assumes "dpl AND mask 2 = dpl"
  shows "gate_function (set_gate X86GATE_INTERRUPT dpl f) = f"
    and "gate_selector (set_gate X86GATE_INTERRUPT dpl f) = SEGSEL_KERN_CODE"
    and "gate_type (set_gate X86GATE_INTERRUPT dpl f) = 0xE"
    and "gate_dpl (set_gate X86GATE_INTERRUPT dpl f) = dpl"
    and "gate_present (set_gate X86GATE_INTERRUPT dpl f)"
proof -
  have d: "bit dpl n \<Longrightarrow> n < 2" for n
    using assms by (metis bit_and_iff bit_mask_iff)
  note b = set_gate_bits [OF assms]
  have h: "gd_high (set_gate X86GATE_INTERRUPT dpl f) = drop_bit 32 f"
    by (simp add: set_gate_def)
  show "gate_function (set_gate X86GATE_INTERRUPT dpl f) = f"
  proof (rule bit_word_eqI)
    fix n assume "n < LENGTH(64)"
    then consider "n < 16" | "16 \<le> n" "n < 32" | "32 \<le> n" "n < 64"
      by fastforce
    then show "bit (gate_function (set_gate X86GATE_INTERRUPT dpl f)) n = bit f n"
    proof cases
      case 3
      moreover have "\<not> bit (gd_low (set_gate X86GATE_INTERRUPT dpl f)) (32 + n)"
        using 3 bit_imp_le_length [of "gd_low (set_gate X86GATE_INTERRUPT dpl f)" "32 + n"] by auto
      ultimately show ?thesis
        by (simp add: gate_function_def h descriptor_bits)
    qed (simp_all add: gate_function_def b h descriptor_bits)
  qed
  show "gate_selector (set_gate X86GATE_INTERRUPT dpl f) = SEGSEL_KERN_CODE"
  proof (rule bit_word_eqI)
    fix n assume "n < LENGTH(64)"
    then show "bit (gate_selector (set_gate X86GATE_INTERRUPT dpl f)) n = bit SEGSEL_KERN_CODE n"
      unfolding gate_selector_def SEGSEL_KERN_CODE_def descriptor_bits
      by (cases "n < 16") (auto simp: b)
  qed
  show "gate_type (set_gate X86GATE_INTERRUPT dpl f) = 0xE"
  proof (rule bit_word_eqI)
    fix n assume "n < LENGTH(64)"
    then show "bit (gate_type (set_gate X86GATE_INTERRUPT dpl f)) n = bit (0xE :: u64) n"
      unfolding gate_type_def descriptor_bits
      by (cases "n < 5") (auto simp: b)
  qed
  show "gate_dpl (set_gate X86GATE_INTERRUPT dpl f) = dpl"
  proof (rule bit_word_eqI)
    fix n assume "n < LENGTH(64)"
    then show "bit (gate_dpl (set_gate X86GATE_INTERRUPT dpl f)) n = bit dpl n"
      unfolding gate_dpl_def descriptor_bits
      using d [of n] by (cases "n < 2") (auto simp: b)
  qed
  show "gate_present (set_gate X86GATE_INTERRUPT dpl f)"
    by (simp add: gate_present_def b)
qed

lemma set_gates_nth:
  "j < length ds \<Longrightarrow> set_gates f is ds ! j = (if j \<in> set is then f j else ds ! j)"
  "length (set_gates f is ds) = length ds"
  by (induction "is" arbitrary: ds) (auto simp: set_gates_def nth_list_update)

text \<open>The routine that the source names for an interrupt vector.\<close>

definition handler_of :: "link_map \<Rightarrow> hw_symbols \<Rightarrow> nat \<Rightarrow> u64" where
  "handler_of lm hs i =
     (if i = 13 then gpf_int_handler hs
      else if i = 14 then pagefault_int_handler hs
      else if i = 32 then timer_int_handler hs
      else if 48 \<le> i \<and> i < 64 then sys_int_handlers hs (i - 48)
      else default_int_handler lm)"

lemma init_gates_nth:
  assumes "i < 256"
  shows "init_gates lm hs ! i =
    (if 16 \<le> i \<or> i = 13 \<or> i = 14
     then set_gate X86GATE_INTERRUPT (if 48 \<le> i \<and> i < 64 then 3 else 0) (handler_of lm hs i)
     else \<lparr>gd_low = 0, gd_high = 0\<rparr>)"
proof -
  define D where "D = set_gates (\<lambda>_. set_gate X86GATE_INTERRUPT 0 (default_int_handler lm)) [16..<256]
    (replicate 256 \<lparr>gd_low = 0, gd_high = 0\<rparr>)"
  have "length D = 256" "D ! i = (if 16 \<le> i then set_gate X86GATE_INTERRUPT 0 (default_int_handler lm)
      else \<lparr>gd_low = 0, gd_high = 0\<rparr>)"
    using assms by (simp_all add: D_def set_gates_nth del: upt_rec_numeral)
  then show ?thesis
    using assms
    by (simp add: init_gates_def Let_def set_gates_nth nth_list_update handler_of_def D_def [symmetric] del: upt_rec_numeral)
qed

text \<open>After \<open>segments_init\<close> every one of the 256 interrupt gates leads to its handler in the kernel code
  segment: gates 13, 14 and 16 to 255 are present interrupt gates, the others are absent, and an
  application (privilege level 3) may raise exactly the system call vectors 48 to 63 itself.\<close>

theorem interrupt_gates:
  "length (interrupt_descriptors (segments_init lm hs h)) = 256 \<and>
   (\<forall>i<256. let g = interrupt_descriptors (segments_init lm hs h) ! i
     in gate_present g = (16 \<le> i \<or> i = 13 \<or> i = 14) \<and>
        (gate_present g \<longrightarrow> gate_function g = handler_of lm hs i \<and> gate_selector g = SEGSEL_KERN_CODE \<and>
           gate_type g = 0xE \<and> gate_dpl g = (if 48 \<le> i \<and> i < 64 then 3 else 0)))"
proof -
  have len: "length (init_gates lm hs) = 256"
    by (simp add: init_gates_def Let_def set_gates_nth)
  have "let g = init_gates lm hs ! i
     in gate_present g = (16 \<le> i \<or> i = 13 \<or> i = 14) \<and>
        (gate_present g \<longrightarrow> gate_function g = handler_of lm hs i \<and> gate_selector g = SEGSEL_KERN_CODE \<and>
           gate_type g = 0xE \<and> gate_dpl g = (if 48 \<le> i \<and> i < 64 then 3 else 0))" if i: "i < 256" for i
  proof (cases "16 \<le> i \<or> i = 13 \<or> i = 14")
    case True
    moreover have "(if 48 \<le> i \<and> i < 64 then 3 else 0) AND mask 2 = (if 48 \<le> i \<and> i < 64 then 3 else 0 :: u64)"
      by (simp add: mask_eq_exp_minus_1)
    ultimately show ?thesis
      using init_gates_nth [OF i, of lm hs] by (simp only: Let_def if_True set_gate_decodes simp_thms)
  next
    case False
    then show ?thesis
      using init_gates_nth [OF i, of lm hs] by (simp add: Let_def gate_present_def)
  qed
  then show ?thesis
    using len by (simp add: segments_init_def)
qed

text \<open>A machine in which no port was written yet.\<close>

definition some_hardware :: hardware where
  "some_hardware = \<lparr>port_log = [], interrupts_enabled = 0, segments = [], interrupt_descriptors = [], ts_rsp0 = 0,
     cr0 = 0, gdtr = \<lparr>pseudod_limit = 0, pseudod_base = 0\<rparr>, idtr = \<lparr>pseudod_limit = 0, pseudod_base = 0\<rparr>,
     task_register = 0\<rparr>"

definition some_symbols :: hw_symbols where
  "some_symbols = \<lparr>segments_addr = 0x4A000, kernel_task_descriptor_addr = 0x4A100, interrupt_descriptors_addr = 0x4B000,
     gpf_int_handler = 0x40100, pagefault_int_handler = 0x40120, timer_int_handler = 0x40140,
     sys_int_handlers = (\<lambda>i. 0x40200 + 16 * of_nat i)\<rparr>"

theorem interrupt_gates_witness:
  "let g = interrupt_descriptors (segments_init some_link_map some_symbols some_hardware) ! 58
   in gate_present g \<and> gate_function g = 0x402A0 \<and> gate_dpl g = 3"
proof -
  let ?g = "interrupt_descriptors (segments_init some_link_map some_symbols some_hardware) ! 58"
  have "gate_present ?g"
    "gate_present ?g \<longrightarrow> gate_function ?g = handler_of some_link_map some_symbols 58 \<and>
       gate_dpl ?g = (if 48 \<le> (58 :: nat) \<and> (58 :: nat) < 64 then 3 else 0)"
    using interrupt_gates [of some_link_map some_symbols some_hardware] unfolding Let_def by auto
  then show ?thesis
    by (simp add: Let_def handler_of_def some_symbols_def)
qed

text \<open>How the processor reads the base and the limit of a system segment descriptor.\<close>

definition segment_base :: "u64 \<times> u64 \<Rightarrow> u64" where
  "segment_base d = (drop_bit 16 (fst d) AND mask 24) OR push_bit 24 (drop_bit 56 (fst d)) OR push_bit 32 (snd d)"

definition segment_limit :: "u64 \<times> u64 \<Rightarrow> u64" where
  "segment_limit d = (fst d AND mask 16) OR push_bit 16 (drop_bit 48 (fst d) AND mask 4)"

lemma segment_numeral_bits:
  "bit (0xFFFFFF :: u64) n \<longleftrightarrow> n < 24"
  "bit (0xFF000000 :: u64) n \<longleftrightarrow> 24 \<le> n \<and> n < 32"
  "bit (0xF0000 :: u64) n \<longleftrightarrow> 16 \<le> n \<and> n < 20"
  "bit (9 :: u64) n \<longleftrightarrow> n = 0 \<or> n = 3"
proof -
  have eqs: "(0xFFFFFF :: u64) = mask 24" "(0xFF000000 :: u64) = push_bit 24 (mask 8)"
    "(0xF0000 :: u64) = push_bit 16 (mask 4)" "(9 :: u64) = push_bit 3 (mask 1) OR mask 1"
    by (simp_all add: mask_eq_exp_minus_1 push_bit_eq_mult)
  show "bit (0xFFFFFF :: u64) n \<longleftrightarrow> n < 24"
    by (subst eqs) (auto simp: bit_mask_iff)
  show "bit (0xFF000000 :: u64) n \<longleftrightarrow> 24 \<le> n \<and> n < 32"
    by (subst eqs) (auto simp only: bit_mask_iff bit_push_bit_iff possible_bit_word len_bit0 len_num1)
  show "bit (0xF0000 :: u64) n \<longleftrightarrow> 16 \<le> n \<and> n < 20"
    by (subst eqs) (auto simp only: bit_mask_iff bit_push_bit_iff possible_bit_word len_bit0 len_num1)
  show "bit (9 :: u64) n \<longleftrightarrow> n = 0 \<or> n = 3"
    by (subst eqs) (auto simp only: bit_mask_iff bit_push_bit_iff bit_or_iff possible_bit_word len_bit0 len_num1)
qed

lemma sys_segment_bits:
  assumes n: "n < 64"
  shows "bit (fst (set_sys_segment X86SEG_TSS 0 a s)) n \<longleftrightarrow>
    (if n < 16 then bit (s - 1) n else if n < 40 then bit a (n - 16)
     else if n < 56 then n \<in> {40, 43, 47} else bit a (n - 32))"
proof -
  have shift: "16 \<le> n \<and> bit a (n - 16) \<and> n - 16 < 24 \<longleftrightarrow> 16 \<le> n \<and> n < 40 \<and> bit a (n - 16)"
    "32 \<le> n \<and> bit a (n - 32) \<and> 24 \<le> n - 32 \<and> n - 32 < 32 \<longleftrightarrow> 56 \<le> n \<and> bit a (n - 32)"
    "48 \<le> n \<and> bit (s - 1) (n - 48) \<and> 16 \<le> n - 48 \<and> n - 48 < 20 \<longleftrightarrow> False"
    "40 \<le> n \<and> (n - 40 = 0 \<or> n - 40 = 3) \<longleftrightarrow> n = 40 \<or> n = 43" "47 \<le> n \<and> n - 47 = 0 \<longleftrightarrow> n = 47"
    using n by auto
  have "bit (fst (set_sys_segment X86SEG_TSS 0 a s)) n \<longleftrightarrow>
    16 \<le> n \<and> n < 40 \<and> bit a (n - 16) \<or> 56 \<le> n \<and> bit a (n - 32) \<or> bit (s - 1) n \<and> n < 16
      \<or> (n = 40 \<or> n = 43) \<or> n = 47"
    using n shift
    by (simp only: set_sys_segment_def fst_conv X86SEG_TSS_def X86SEG_P_def descriptor_bits segment_numeral_bits
        possible_bit_word len_bit0 len_num1 conj_assoc push_bit_of_0 bit_0_eq bot_apply) auto
  then show ?thesis
    by auto
qed

lemma sys_segment_decodes:
  "segment_base (set_sys_segment X86SEG_TSS 0 a s) = a"
  "segment_limit (set_sys_segment X86SEG_TSS 0 a s) = (s - 1) AND mask 16"
proof -
  let ?d = "set_sys_segment X86SEG_TSS 0 a s"
  have h: "snd ?d = drop_bit 32 a"
    by (simp add: set_sys_segment_def)
  show "segment_base ?d = a"
  proof (rule bit_word_eqI)
    fix n assume "n < LENGTH(64)"
    then consider "n < 24" | "24 \<le> n" "n < 32" | "32 \<le> n" "n < 64"
      by fastforce
    then show "bit (segment_base ?d) n = bit a n"
    proof cases
      case 3
      moreover have "\<not> bit (fst ?d) (32 + n)"
        using 3 bit_imp_le_length [of "fst ?d" "32 + n"] by auto
      ultimately show ?thesis
        by (simp add: segment_base_def h descriptor_bits)
    qed (simp_all add: segment_base_def sys_segment_bits h descriptor_bits)
  qed
  show "segment_limit ?d = (s - 1) AND mask 16"
  proof (rule bit_word_eqI)
    fix n assume "n < LENGTH(64)"
    then show "bit (segment_limit ?d) n = bit ((s - 1) AND mask 16) n"
      unfolding segment_limit_def descriptor_bits
      by (cases "n < 16"; cases "n < 20") (auto simp: sys_segment_bits)
  qed
qed

text \<open>The task state descriptor that \<open>segments_init\<close> builds has the address of the task state as its base,
  wherever the linker puts it, and limit 95; but \<open>set_sys_segment\<close> drops bits 16 to 19 of a limit, so
  that a segment of 128 KiB, for example, gets the limit of one of 64 KiB.\<close>

theorem task_state_segment:
  "(let d = (init_segments hs ! 5, init_segments hs ! 6)
    in segment_base d = kernel_task_descriptor_addr hs \<and> segment_limit d = SIZEOF_TASKSTATE - 1) \<and>
   segment_limit (set_sys_segment X86SEG_TSS 0 a 0x20000) = 0xFFFF"
  unfolding sys_segment_decodes
  by (simp add: init_segments_def Let_def sys_segment_decodes SIZEOF_TASKSTATE_def mask_eq_exp_minus_1)

section \<open>Properties of the timer\<close>

lemma port_log_out_bytes [simp]: "port_log (out_bytes ws h) = port_log h @ map (\<lambda>(p, d). Outb p d) ws"
  by (induction ws arbitrary: h) (auto simp: out_bytes_def outb_def)

lemma out_bytes_sel [simp]: "interrupts_enabled (out_bytes ws h) = interrupts_enabled h"
  by (induction ws arbitrary: h) (auto simp: out_bytes_def outb_def)

lemma interrupt_mask_log:
  "port_log (interrupt_mask h) = port_log h @
     [Outb 0x21 (ucast (NOT (interrupts_enabled h))), Outb 0xA1 (ucast (drop_bit 8 (NOT (interrupts_enabled h))))]"
  "interrupts_enabled (interrupt_mask h) = interrupts_enabled h"
proof -
  have "(ucast (w AND 0xFF) :: u8) = ucast w" for w :: u16
  proof -
    have "(0xFF :: u16) = mask 8"
      by (simp add: mask_eq_exp_minus_1)
    then show ?thesis
      by (auto intro!: bit_word_eqI simp only: bit_unsigned_iff bit_and_iff bit_mask_iff possible_bit_word len_bit0 len_num1)
  qed
  then show "port_log (interrupt_mask h) = port_log h @
     [Outb 0x21 (ucast (NOT (interrupts_enabled h))), Outb 0xA1 (ucast (drop_bit 8 (NOT (interrupts_enabled h))))]"
    by (simp add: interrupt_mask_def Let_def outb_def IO_PIC1_def IO_PIC2_def)
  show "interrupts_enabled (interrupt_mask h) = interrupts_enabled h"
    by (simp add: interrupt_mask_def Let_def outb_def)
qed

lemma div_less_bound:
  assumes "0 < b" "a < b * c"
  shows "a div b < (c :: int)"
proof -
  have "b * (a div b) \<le> a"
    using assms(1) by (metis le_add_same_cancel1 mult_div_mod_eq pos_mod_sign)
  then have "b * (a div b) < b * c"
    using assms by linarith
  then show ?thesis
    using assms(1) by simp
qed

text \<open>Starting from the interrupt controllers as \<open>interrupt_init\<close> leaves them, \<open>timer_init\<close> with a rate of at
  least 19 per second programs the divisor \<open>(1193182 + rate / 2) / rate\<close>, low byte first, as the frequency
  of counter 0, and leaves the timer as the only interrupt line that is not masked.\<close>

theorem timer_init_programs:
  assumes "sint rate \<ge> 19"
  shows "\<exists>lo hi.
    port_log (timer_init rate (interrupt_init h)) = port_log (interrupt_init h) @
      [Outb 0x43 0x34, Outb 0x40 lo, Outb 0x40 hi, Outb 0x21 0xFE, Outb 0xA1 0xFF] \<and>
    uint lo + 256 * uint hi = (1193182 + sint rate div 2) div sint rate"
proof -
  let ?q = "TIMER_DIV (sint rate)"
  have nn: "0 \<le> ?q"
    using assms by (simp add: TIMER_DIV_def pos_imp_zdiv_nonneg_iff)
  have "1193182 + sint rate div 2 < sint rate * 65536"
    using assms by linarith
  then have lt: "?q < 65536"
    using assms unfolding TIMER_DIV_def by (intro div_less_bound) auto
  have en: "interrupts_enabled (interrupt_init h) = 0"
    by (simp add: interrupt_init_def interrupt_mask_log)
  show ?thesis
  proof (intro exI conjI)
    show "port_log (timer_init rate (interrupt_init h)) = port_log (interrupt_init h) @
        [Outb 0x43 0x34, Outb 0x40 (of_int (?q mod 256)), Outb 0x40 (of_int (?q div 256)), Outb 0x21 0xFE, Outb 0xA1 0xFF]"
      using assms en by (simp add: timer_init_def Let_def interrupt_mask_log IO_TIMER1_def)
    show "uint (of_int (?q mod 256) :: u8) + 256 * uint (of_int (?q div 256) :: u8)
        = (1193182 + sint rate div 2) div sint rate"
      using nn lt by (simp add: uint_word_of_int TIMER_DIV_def [symmetric])
  qed
qed

theorem timer_init_programs_witness:
  "\<exists>lo hi. port_log (timer_init 100 (interrupt_init some_hardware)) = port_log (interrupt_init some_hardware) @
      [Outb 0x43 0x34, Outb 0x40 lo, Outb 0x40 hi, Outb 0x21 0xFE, Outb 0xA1 0xFF] \<and>
    uint lo + 256 * uint hi = 11932"
  using timer_init_programs [of 100 some_hardware] by simp

end
