(* ===== verification/Formatted_Output.thy ===== *)
theory Formatted_Output
  imports Byte_Memory
begin

text \<open>
  Formatted output (\<^verbatim>\<open>shared/lib.c\<close>): \<open>fill_numbuf\<close>, \<open>printer_vprintf\<close>, and the two printers on
  top of it, the console and the string buffer. A format is the list of its characters up to the
  terminating NUL. An argument list is a list of machine words and strings; taking an argument
  that is not there, or a word where a string is given, is undefined behaviour. The printer's
  method \<open>putc\<close> is an argument.
\<close>

section \<open>Numbers\<close>

definition upper_digits :: "u8 list" where
  "upper_digits = [48, 49, 50, 51, 52, 53, 54, 55, 56, 57, 65, 66, 67, 68, 69, 70]"

definition lower_digits :: "u8 list" where
  "lower_digits = [48, 49, 50, 51, 52, 53, 54, 55, 56, 57, 97, 98, 99, 100, 101, 102]"

text \<open>The loop of \<open>fill_numbuf\<close> writes the digits from the end of the buffer towards its start;
  \<open>buf\<close> is what has been written. The base is 10, 16 or -16 at every call.\<close>

function fill_digits :: "u8 list \<Rightarrow> nat \<Rightarrow> u64 \<Rightarrow> u8 list \<Rightarrow> u8 list" where
  "fill_digits digits b val buf =
     (let buf' = digits ! (unat val mod b) # buf; val' = of_nat (unat val div b)
      in if val' = 0 \<or> b \<le> 1 then buf' else fill_digits digits b val' buf')"
  by auto
termination
proof (relation "measure (\<lambda>(digits, b, val, buf). unat val)")
  fix digits :: "u8 list" and b and val val' :: u64 and buf buf'
  assume v: "val' = of_nat (unat val div b)" and nz: "\<not> (val' = 0 \<or> b \<le> 1)"
  have "unat val div b < 18446744073709551616"
    by (rule le_less_trans [OF div_le_dividend unat_less_2p64])
  then have u: "unat val' = unat val div b"
    using v by (simp add: unat_of_nat)
  then have "0 < unat val"
    using nz by (auto simp: unat_eq_0 [symmetric] intro: gr0I)
  then have "unat val div b < unat val"
    using nz by (intro div_less_dividend) auto
  then show "((digits, b, val', buf'), digits, b, val, buf) \<in> measure (\<lambda>(digits, b, val, buf). unat val)"
    using u by simp
qed simp

declare fill_digits.simps [simp del]

definition fill_numbuf :: "u64 \<Rightarrow> int \<Rightarrow> u8 list" where
  "fill_numbuf val base =
     fill_digits (if base < 0 then lower_digits else upper_digits) (nat \<bar>base\<bar>) val []"

section \<open>printer\_vprintf\<close>

definition FLAG_ALT :: u32 where "FLAG_ALT = 1"
definition FLAG_ZERO :: u32 where "FLAG_ZERO = 2"
definition FLAG_LEFTJUSTIFY :: u32 where "FLAG_LEFTJUSTIFY = 4"
definition FLAG_SPACEPOSITIVE :: u32 where "FLAG_SPACEPOSITIVE = 8"
definition FLAG_PLUSPOSITIVE :: u32 where "FLAG_PLUSPOSITIVE = 16"
definition FLAG_NUMERIC :: u32 where "FLAG_NUMERIC = 32"
definition FLAG_SIGNED :: u32 where "FLAG_SIGNED = 64"
definition FLAG_NEGATIVE :: u32 where "FLAG_NEGATIVE = 128"
definition FLAG_ALT2 :: u32 where "FLAG_ALT2 = 256"

lemmas flag_defs = FLAG_ALT_def FLAG_ZERO_def FLAG_LEFTJUSTIFY_def FLAG_SPACEPOSITIVE_def
  FLAG_PLUSPOSITIVE_def FLAG_NUMERIC_def FLAG_SIGNED_def FLAG_NEGATIVE_def FLAG_ALT2_def

text \<open>\<open>1 << (flagc - flag_chars)\<close> for the characters of \<open>"#0- +"\<close>, 0 for any other character.\<close>

definition flag_of :: "u8 \<Rightarrow> u32" where
  "flag_of c = (if c = 35 then FLAG_ALT else if c = 48 then FLAG_ZERO else if c = 45 then FLAG_LEFTJUSTIFY
     else if c = 32 then FLAG_SPACEPOSITIVE else if c = 43 then FLAG_PLUSPOSITIVE else 0)"

fun parse_flags :: "u32 \<Rightarrow> u8 list \<Rightarrow> u32 \<times> u8 list" where
  "parse_flags flags (c # cs) = (if flag_of c \<noteq> 0 then parse_flags (flags OR flag_of c) cs else (flags, c # cs))"
| "parse_flags flags [] = (flags, [])"

definition is_digit :: "u8 \<Rightarrow> bool" where
  "is_digit c \<longleftrightarrow> 48 \<le> c \<and> c \<le> 57"

fun parse_number :: "u32 \<Rightarrow> u8 list \<Rightarrow> u32 \<times> u8 list" where
  "parse_number n (c # cs) = (if is_digit c then parse_number (10 * n + ucast c - 48) cs else (n, c # cs))"
| "parse_number n [] = (n, [])"

datatype vararg = Va_word u64 | Va_string "u8 list"

definition va_word :: "vararg list \<Rightarrow> (u64 \<times> vararg list) outcome" where
  "va_word args = (case args of Va_word w # rest \<Rightarrow> ret (w, rest) | _ \<Rightarrow> fail Undefined)"

definition va_string :: "vararg list \<Rightarrow> (u8 list \<times> vararg list) outcome" where
  "va_string args = (case args of Va_string s # rest \<Rightarrow> ret (s, rest) | _ \<Rightarrow> fail Undefined)"

definition parse_width :: "u8 list \<Rightarrow> vararg list \<Rightarrow> (u32 \<times> u8 list \<times> vararg list) outcome" where
  "parse_width format args =
     (case format of
        c # cs \<Rightarrow>
          if 49 \<le> c \<and> c \<le> 57 then (case parse_number 0 format of (w, rest) \<Rightarrow> ret (w, rest, args))
          else if c = 42 then bindo (va_word args) (\<lambda>(w, args'). ret (ucast w, cs, args'))
          else ret (- 1, format, args)
      | [] \<Rightarrow> ret (- 1, [], args))"

definition parse_precision :: "u8 list \<Rightarrow> vararg list \<Rightarrow> (u32 \<times> u8 list \<times> vararg list) outcome" where
  "parse_precision format args =
     (case format of
        c # cs \<Rightarrow>
          if c = 46 then
            bindo (case cs of
                     d # ds \<Rightarrow>
                       if is_digit d then (case parse_number 0 cs of (n, rest) \<Rightarrow> ret (n, rest, args))
                       else if d = 42 then bindo (va_word args) (\<lambda>(w, args'). ret (ucast w, ds, args'))
                       else ret (- 1, cs, args)
                   | [] \<Rightarrow> ret (- 1, cs, args))
              (\<lambda>(n, rest, args'). ret (if sint n < 0 then 0 else n, rest, args'))
          else ret (- 1, format, args)
      | [] \<Rightarrow> ret (- 1, [], args))"

text \<open>The length modifiers \<open>l\<close> and \<open>z\<close> (\<open>goto again\<close>).\<close>

fun skip_length :: "bool \<Rightarrow> u8 list \<Rightarrow> bool \<times> u8 list" where
  "skip_length len (c # cs) = (if c = 108 \<or> c = 122 then skip_length True cs else (len, c # cs))"
| "skip_length len [] = (len, [])"

text \<open>What the conversion character yields: a new color, or something to print.\<close>

record conversion =
  cv_flags :: u32
  cv_base :: int
  cv_num :: u64
  cv_data :: "u8 list"

datatype converted = Set_color u32 | Print conversion

text \<open>\<open>char_data c\<close> is the string \<open>numbuf\<close> after \<open>numbuf[0] = c; numbuf[1] = 0\<close>.\<close>

definition char_data :: "u8 \<Rightarrow> u8 list" where
  "char_data c = (if c = 0 then [] else [c])"

definition unsigned_arg :: "bool \<Rightarrow> vararg list \<Rightarrow> (u64 \<times> vararg list) outcome" where
  "unsigned_arg len args =
     bindo (va_word args) (\<lambda>(w, args'). ret (if len then w else ucast (ucast w :: u32), args'))"

definition signed_arg :: "bool \<Rightarrow> vararg list \<Rightarrow> (u64 \<times> vararg list) outcome" where
  "signed_arg len args =
     bindo (va_word args) (\<lambda>(w, args'). ret (if len then w else scast (ucast w :: u32), args'))"

definition convert :: "bool \<Rightarrow> u32 \<Rightarrow> u8 \<Rightarrow> vararg list \<Rightarrow> (converted \<times> vararg list) outcome" where
  "convert len flags c args =
     (if c = 100 \<or> c = 105 then
        bindo (signed_arg len args) (\<lambda>(x, args').
          let negative = (if sint x < 0 then FLAG_NEGATIVE else 0)
          in ret (Print \<lparr>cv_flags = flags OR FLAG_NUMERIC OR FLAG_SIGNED OR negative, cv_base = 10,
                         cv_num = (if sint x < 0 then - x else x), cv_data = []\<rparr>, args'))
      else if c = 117 \<or> c = 120 \<or> c = 88 then
        bindo (unsigned_arg len args) (\<lambda>(x, args').
          ret (Print \<lparr>cv_flags = flags OR FLAG_NUMERIC,
                      cv_base = (if c = 117 then 10 else if c = 120 then - 16 else 16),
                      cv_num = x, cv_data = []\<rparr>, args'))
      else if c = 112 then
        bindo (va_word args) (\<lambda>(x, args').
          ret (Print \<lparr>cv_flags = flags OR FLAG_ALT OR FLAG_ALT2 OR FLAG_NUMERIC, cv_base = - 16,
                      cv_num = x, cv_data = []\<rparr>, args'))
      else if c = 115 then
        bindo (va_string args) (\<lambda>(s, args').
          ret (Print \<lparr>cv_flags = flags, cv_base = 10, cv_num = 0, cv_data = s\<rparr>, args'))
      else if c = 67 then
        bindo (va_word args) (\<lambda>(x, args'). ret (Set_color (ucast x), args'))
      else if c = 99 then
        bindo (va_word args) (\<lambda>(x, args').
          ret (Print \<lparr>cv_flags = flags, cv_base = 10, cv_num = 0, cv_data = char_data (ucast x)\<rparr>, args'))
      else
        ret (Print \<lparr>cv_flags = flags, cv_base = 10, cv_num = 0,
                    cv_data = char_data (if c \<noteq> 0 then c else 37)\<rparr>, args))"

definition prefix_of :: "conversion \<Rightarrow> u8 list" where
  "prefix_of cv =
     (let flags = cv_flags cv
      in if flags AND FLAG_NUMERIC \<noteq> 0 \<and> flags AND FLAG_SIGNED \<noteq> 0 then
           (if flags AND FLAG_NEGATIVE \<noteq> 0 then [45]
            else if flags AND FLAG_PLUSPOSITIVE \<noteq> 0 then [43]
            else if flags AND FLAG_SPACEPOSITIVE \<noteq> 0 then [32]
            else [])
         else if flags AND FLAG_NUMERIC \<noteq> 0 \<and> flags AND FLAG_ALT \<noteq> 0 \<and>
                 (cv_base cv = 16 \<or> cv_base cv = - 16) \<and> (cv_num cv \<noteq> 0 \<or> flags AND FLAG_ALT2 \<noteq> 0) then
           (if cv_base cv = - 16 then [48, 120] else [48, 88])
         else [])"

text \<open>The characters put for one conversion, in order.\<close>

definition conversion_text :: "u32 \<Rightarrow> u32 \<Rightarrow> conversion \<Rightarrow> u8 list" where
  "conversion_text width precision cv =
     (let flags = cv_flags cv;
          numeric = (flags AND FLAG_NUMERIC \<noteq> 0);
          left = (flags AND FLAG_LEFTJUSTIFY \<noteq> 0);
          data = (if numeric then fill_numbuf (cv_num cv) (cv_base cv) else cv_data cv);
          prefix = prefix_of cv;
          plen = of_nat (length prefix) :: u32;
          len = (if 0 \<le> sint precision \<and> \<not> numeric
                 then of_nat (min (length data) (unat precision)) else of_nat (length data)) :: u32;
          zeros = (if numeric \<and> 0 \<le> sint precision
                   then (if sint len < sint precision then precision - len else 0)
                   else if numeric \<and> flags AND FLAG_ZERO \<noteq> 0 \<and> \<not> left \<and> sint (len + plen) < sint width
                   then width - len - plen
                   else 0);
          width' = width - (len + zeros + plen);
          spaces = replicate (nat (sint width')) 32
      in (if left then [] else spaces) @ prefix @ replicate (nat (sint zeros)) 48 @
         take (nat (sint len)) data @ (if left then spaces else []))"

lemma parse_flags_length: "parse_flags fl f = (fl', g) \<Longrightarrow> length g \<le> length f"
  by (induction fl f arbitrary: fl' g rule: parse_flags.induct) (fastforce split: if_splits)+

lemma parse_number_length: "parse_number n f = (n', g) \<Longrightarrow> length g \<le> length f"
  by (induction n f arbitrary: n' g rule: parse_number.induct) (fastforce split: if_splits)+

lemma skip_length_length: "skip_length l f = (l', g) \<Longrightarrow> length g \<le> length f"
  by (induction l f arbitrary: l' g rule: skip_length.induct) (fastforce split: if_splits)+

lemma parse_width_length: "parse_width f args = ret (w, g, args') \<Longrightarrow> length g \<le> length f"
  by (auto simp: parse_width_def bindo_eq_ret dest!: parse_number_length split: list.splits if_splits prod.splits)

lemma parse_precision_length:
  assumes "parse_precision f args = ret (w, g, args')"
  shows "length g \<le> length f"
  using assms
  by (auto simp: parse_precision_def bindo_eq_ret dest!: parse_number_length split: list.splits if_splits prod.splits)

function printer_vprintf ::
  "(u8 \<Rightarrow> u32 \<Rightarrow> 's \<Rightarrow> 's) \<Rightarrow> u32 \<Rightarrow> u8 list \<Rightarrow> vararg list \<Rightarrow> 's \<Rightarrow> 's outcome" where
  "printer_vprintf putc color format args s =
     (case format of
        [] \<Rightarrow> ret s
      | c # cs \<Rightarrow>
          if c \<noteq> 37 then printer_vprintf putc color cs args (putc c color s)
          else
            case parse_flags 0 cs of (flags, f1) \<Rightarrow>
            bindo (parse_width f1 args) (\<lambda>(width, f2, a2).
            bindo (parse_precision f2 a2) (\<lambda>(precision, f3, a3).
            case skip_length False f3 of (len, f4) \<Rightarrow>
            bindo (convert len flags (case f4 of [] \<Rightarrow> 0 | d # _ \<Rightarrow> d) a3) (\<lambda>(cv, a4).
              case cv of
                Set_color color' \<Rightarrow> printer_vprintf putc color' (tl f4) a4 s
              | Print v \<Rightarrow>
                  printer_vprintf putc color (tl f4) a4
                    (fold (\<lambda>d. putc d color) (conversion_text width precision v) s)))))"
  by pat_completeness auto
termination
  by (relation "measure (\<lambda>(putc, color, format, args, s). length format)")
    (auto dest!: parse_flags_length [OF sym] parse_width_length parse_precision_length
       skip_length_length [OF sym])

declare printer_vprintf.simps [simp del]

section \<open>The console\<close>

text \<open>The console is an array of 80 * 25 cells; a cursor is the distance of the pointer from its start.\<close>

type_synonym console = "u16 list"

definition CONSOLE_CELLS :: nat where
  "CONSOLE_CELLS = 25 * 80"

fun console_fill :: "nat \<Rightarrow> u16 \<Rightarrow> console \<times> nat \<Rightarrow> console \<times> nat" where
  "console_fill 0 v s = s"
| "console_fill (Suc n) v (cells, cur) = console_fill n v (cells[cur := v], cur + 1)"

definition console_putc :: "u8 \<Rightarrow> u32 \<Rightarrow> console \<times> nat \<Rightarrow> console \<times> nat" where
  "console_putc c color = (\<lambda>(cells, cursor).
     let cur = (if cursor \<ge> CONSOLE_CELLS then 0 else cursor)
     in if c = 10 then console_fill (80 - cur mod 80) (ucast (32 OR color)) (cells, cur)
        else (cells[cur := ucast (ucast c OR color)], cur + 1))"

definition console_vprintf ::
  "u32 \<Rightarrow> u32 \<Rightarrow> u8 list \<Rightarrow> vararg list \<Rightarrow> console \<Rightarrow> (u32 \<times> console) outcome" where
  "console_vprintf cpos color format args cells =
     (let start = (if sint cpos < 0 \<or> sint cpos \<ge> int CONSOLE_CELLS then 0 else unat cpos)
      in bindo (printer_vprintf console_putc color format args (cells, start)) (\<lambda>(cells', cursor).
           ret (of_nat cursor, cells')))"

definition console_printf ::
  "u32 \<Rightarrow> u32 \<Rightarrow> u8 list \<Rightarrow> vararg list \<Rightarrow> console \<Rightarrow> (u32 \<times> console) outcome" where
  "console_printf cpos color format args cells = console_vprintf cpos color format args cells"

function console_clear_from :: "nat \<Rightarrow> console \<Rightarrow> console" where
  "console_clear_from i cells =
     (if i < CONSOLE_CELLS then console_clear_from (i + 1) (cells[i := 0x0720]) else cells)"
  by auto
termination
  by (relation "measure (\<lambda>(i, cells). CONSOLE_CELLS - i)") auto

declare console_clear_from.simps [simp del]

text \<open>\<open>console_clear\<close> returns the cleared console and the new \<open>cursorpos\<close>.\<close>

definition console_clear :: "console \<Rightarrow> console \<times> u32" where
  "console_clear cells = (console_clear_from 0 cells, 0)"

section \<open>String buffers\<close>

text \<open>The state of a string printer: the memory and the pointers \<open>s\<close> and \<open>end\<close>.\<close>

definition string_putc :: "u8 \<Rightarrow> u32 \<Rightarrow> mem \<times> u64 \<times> u64 \<Rightarrow> mem \<times> u64 \<times> u64" where
  "string_putc c color = (\<lambda>(m, s, e). if s < e then (m(s := c), s + 1, e) else (m, s, e))"

definition vsnprintf ::
  "u64 \<Rightarrow> u64 \<Rightarrow> u8 list \<Rightarrow> vararg list \<Rightarrow> mem \<Rightarrow> (u32 \<times> mem) outcome" where
  "vsnprintf s sz format args m =
     (if sz \<noteq> 0 then
        bindo (printer_vprintf string_putc 0 format args (m, s, s + sz - 1)) (\<lambda>(m', s', _).
          ret (ucast (s' - s), m'(s' := 0)))
      else ret (0, m))"

definition snprintf ::
  "u64 \<Rightarrow> u64 \<Rightarrow> u8 list \<Rightarrow> vararg list \<Rightarrow> mem \<Rightarrow> (u32 \<times> mem) outcome" where
  "snprintf s sz format args m = vsnprintf s sz format args m"

section \<open>Digits\<close>

definition digit_value :: "u8 \<Rightarrow> nat" where
  "digit_value c = (if c \<le> 57 then unat c - 48 else if c \<le> 70 then unat c - 55 else unat c - 87)"

definition numeral_value :: "nat \<Rightarrow> u8 list \<Rightarrow> nat" where
  "numeral_value b cs = foldl (\<lambda>v c. v * b + digit_value c) 0 cs"

definition base_ok :: "int \<Rightarrow> bool" where
  "base_ok base \<longleftrightarrow> base = 10 \<or> base = 16 \<or> base = - 16"

lemma less_16_cases: "n < 16 \<Longrightarrow> n \<in> {0, 1, 2, 3, 4, 5, 6, 7, 8, 9, 10, 11, 12, 13, 14, 15 :: nat}"
  by (simp, presburger)

lemma digit_value_digits:
  assumes "i < 16"
  shows "digit_value (upper_digits ! i) = i" and "digit_value (lower_digits ! i) = i"
  using less_16_cases [OF assms]
  by (auto simp: digit_value_def upper_digits_def lower_digits_def)

lemma fill_digits_value:
  assumes "2 \<le> b" and "b \<le> 16" and "\<And>i. i < b \<Longrightarrow> digit_value (digits ! i) = i"
  shows "\<exists>ds. fill_digits digits b v buf = ds @ buf \<and> ds \<noteq> [] \<and> numeral_value b ds = unat v \<and>
    (v \<noteq> 0 \<longrightarrow> digit_value (hd ds) \<noteq> 0 \<and> b ^ (length ds - 1) \<le> unat v) \<and> (v = 0 \<longrightarrow> length ds = 1) \<and>
    set ds \<subseteq> (\<lambda>i. digits ! i) ` {..<b}"
  using assms
proof (induction digits b v buf rule: fill_digits.induct)
  case (1 digits b v buf)
  let ?d = "digits ! (unat v mod b)" and ?v = "of_nat (unat v div b) :: u64"
  have u: "unat ?v = unat v div b"
    using le_less_trans [OF div_le_dividend unat_less_2p64, of v b] by (simp add: unat_of_nat)
  have d: "digit_value ?d = unat v mod b" "?d \<in> (\<lambda>i. digits ! i) ` {..<b}"
    using "1.prems" by auto
  show ?case
  proof (cases "?v = 0")
    case True
    then have "unat v < b"
      using u "1.prems"(1) by (simp add: div_eq_0_iff)
    then show ?thesis
      using True d "1.prems" by (subst fill_digits.simps) (auto simp: Let_def numeral_value_def unat_gt_0 Suc_le_eq)
  next
    case False
    from "1.IH" [OF refl refl] False "1.prems" obtain ds where
      ds: "fill_digits digits b ?v (?d # buf) = ds @ ?d # buf" "ds \<noteq> []" "numeral_value b ds = unat ?v"
      "digit_value (hd ds) \<noteq> 0" "b ^ (length ds - 1) \<le> unat ?v" "set ds \<subseteq> (\<lambda>i. digits ! i) ` {..<b}"
      by auto
    have "numeral_value b (ds @ [?d]) = unat v"
      using ds(3) d(1) u by (simp add: numeral_value_def)
    moreover have "b ^ length ds \<le> unat v"
    proof -
      have "b ^ length ds = b * b ^ (length ds - 1)"
        using ds(2) by (cases ds) auto
      also have "\<dots> \<le> b * (unat v div b)"
        using ds(5) u by simp
      also have "\<dots> \<le> unat v"
        by (simp add: mult.commute div_times_less_eq_dividend)
      finally show ?thesis .
    qed
    moreover have "fill_digits digits b v buf = (ds @ [?d]) @ buf"
      using ds(1) False "1.prems"(1) by (subst fill_digits.simps) (simp add: Let_def)
    moreover have "v \<noteq> 0"
      using False u by auto
    ultimately show ?thesis
      using ds(2,4,6) d(2) by (intro exI [of _ "ds @ [?d]"]) auto
  qed
qed

lemma fill_numbuf_value:
  assumes "base_ok base"
  shows "\<exists>ds. fill_numbuf v base = ds \<and> ds \<noteq> [] \<and> numeral_value (nat \<bar>base\<bar>) ds = unat v \<and>
    (v \<noteq> 0 \<longrightarrow> digit_value (hd ds) \<noteq> 0 \<and> nat \<bar>base\<bar> ^ (length ds - 1) \<le> unat v) \<and> (v = 0 \<longrightarrow> length ds = 1)"
proof -
  let ?digits = "if base < 0 then lower_digits else upper_digits"
  have b: "2 \<le> nat \<bar>base\<bar>" "nat \<bar>base\<bar> \<le> 16"
    using assms by (auto simp: base_ok_def)
  have "digit_value (?digits ! i) = i" if "i < nat \<bar>base\<bar>" for i
    using digit_value_digits [of i] that b(2) by simp
  from fill_digits_value [OF b this, of v "[]"] show ?thesis
    by (auto simp: fill_numbuf_def)
qed

lemma fill_numbuf_length:
  assumes "base_ok base"
  shows "length (fill_numbuf v base) \<le> 20"
proof (cases "v = 0")
  case False
  show ?thesis
  proof (rule ccontr)
    assume "\<not> length (fill_numbuf v base) \<le> 20"
    then have "(10 :: nat) ^ 20 \<le> 10 ^ (length (fill_numbuf v base) - 1)"
      by (intro power_increasing) auto
    also have "\<dots> \<le> nat \<bar>base\<bar> ^ (length (fill_numbuf v base) - 1)"
      using assms by (intro power_mono) (auto simp: base_ok_def)
    also have "\<dots> \<le> unat v"
      using fill_numbuf_value [OF assms, of v] False by blast
    finally show False
      using unat_less_2p64 [of v] by simp
  qed
qed (use fill_numbuf_value [OF assms, of v] in auto)

section \<open>A printer only sees the characters\<close>

text \<open>The calls of \<open>putc\<close> that a format makes, as a list: \<open>printer_vprintf\<close> with a \<open>putc\<close> that logs.\<close>

definition log_putc :: "u8 \<Rightarrow> u32 \<Rightarrow> (u8 \<times> u32) list \<Rightarrow> (u8 \<times> u32) list" where
  "log_putc c color out = out @ [(c, color)]"

definition put_all :: "(u8 \<Rightarrow> u32 \<Rightarrow> 's \<Rightarrow> 's) \<Rightarrow> (u8 \<times> u32) list \<Rightarrow> 's \<Rightarrow> 's" where
  "put_all putc out s = fold (\<lambda>(c, color). putc c color) out s"

definition map_outcome :: "('a \<Rightarrow> 'b) \<Rightarrow> 'a outcome \<Rightarrow> 'b outcome" where
  "map_outcome f r = bindo r (\<lambda>x. ret (f x))"

lemma map_outcome_simps [simp]:
  "map_outcome f (ret x) = ret (f x)" "map_outcome f (fail e) = fail e"
  "map_outcome f (bindo r k) = bindo r (\<lambda>x. map_outcome f (k x))"
  by (simp_all add: map_outcome_def bindo_assoc)

lemma fold_put_all: "fold (\<lambda>d. putc d color) cs s = put_all putc (map (\<lambda>d. (d, color)) cs) s"
  by (induction cs arbitrary: s) (simp_all add: put_all_def)

lemma put_all_log: "put_all log_putc xs out = out @ xs"
  by (induction xs arbitrary: out) (auto simp: put_all_def log_putc_def)

lemma put_all_append: "put_all putc (xs @ ys) s = put_all putc ys (put_all putc xs s)"
  by (simp add: put_all_def)

lemma vprintf_logged:
  "printer_vprintf putc color f args (put_all putc out s)
     = map_outcome (\<lambda>out'. put_all putc out' s) (printer_vprintf log_putc color f args out)"
proof (induction "length f" arbitrary: color f args out rule: less_induct)
  case less
  show ?case
  proof (cases f)
    case Nil
    then show ?thesis
      by (simp add: printer_vprintf.simps)
  next
    case (Cons c cs)
    show ?thesis
    proof (cases "c = 37")
      case False
      have "putc c color (put_all putc out s) = put_all putc (log_putc c color out) s"
        by (simp add: log_putc_def put_all_append) (simp add: put_all_def)
      then show ?thesis
        using less [of cs color args "log_putc c color out"] False Cons
        by (simp add: printer_vprintf.simps [of _ _ "c # cs"])
    next
      case True
      obtain flags f1 where f1: "parse_flags 0 cs = (flags, f1)"
        by (cases "parse_flags 0 cs")
      have step: "printer_vprintf putc color' (tl f4) a4 (put_all putc (out @ map (\<lambda>d. (d, color)) tx) s)
          = map_outcome (\<lambda>out'. put_all putc out' s)
              (printer_vprintf log_putc color' (tl f4) a4 (out @ map (\<lambda>d. (d, color)) tx))"
        if "parse_width f1 args = ret (w, f2, a2)" "parse_precision f2 a2 = ret (p, f3, a3)"
          "skip_length False f3 = (len, f4)" for w f2 a2 p f3 a3 len f4 a4 color' tx
      proof (rule less)
        show "length (tl f4) < length f"
          using parse_flags_length [OF f1] parse_width_length [OF that(1)] parse_precision_length [OF that(2)]
            skip_length_length [OF that(3)] Cons by simp
      qed
      note nochar = step [where tx = "[]", simplified]
      show ?thesis
        unfolding Cons printer_vprintf.simps [of _ _ "c # cs"]
        apply (simp add: True f1)
        apply (intro bindo_cong refl, clarsimp)
        apply (intro bindo_cong refl, clarsimp split: prod.split)
        apply (intro bindo_cong refl, clarsimp split: converted.split)
        apply (simp add: fold_put_all put_all_log put_all_append [symmetric] step nochar)
        done
    qed
  qed
qed

lemma vprintf_put_all:
  "printer_vprintf putc color f args s
     = map_outcome (\<lambda>out. put_all putc out s) (printer_vprintf log_putc color f args [])"
  using vprintf_logged [of putc color f args "[]" s] by (simp add: put_all_def)

text \<open>The text of a format: the characters without their colors. It does not depend on the initial color.\<close>

definition plain_putc :: "u8 \<Rightarrow> u32 \<Rightarrow> u8 list \<Rightarrow> u8 list" where
  "plain_putc c color cs = cs @ [c]"

definition format_text :: "u8 list \<Rightarrow> vararg list \<Rightarrow> u8 list outcome" where
  "format_text f args = printer_vprintf plain_putc 0 f args []"

lemma plain_color:
  "printer_vprintf plain_putc color f args s = printer_vprintf plain_putc color' f args s"
proof (induction "length f" arbitrary: f args s rule: less_induct)
  case less
  show ?case
  proof (cases f)
    case (Cons c cs)
    have txt_eq: "fold (\<lambda>d. plain_putc d color) tx t = fold (\<lambda>d. plain_putc d color') tx t" for tx t
      by (simp add: plain_putc_def [abs_def])
    have step: "printer_vprintf plain_putc color (tl f4) a t = printer_vprintf plain_putc color' (tl f4) a t"
      if "parse_flags 0 cs = (flags, f1)" "parse_width f1 args = ret (w, f2, a2)" "parse_precision f2 a2 = ret (p, f3, a3)"
        "skip_length False f3 = (len, f4)" for flags f1 w f2 a2 p f3 a3 len f4 a t
      using less [of "tl f4"] Cons parse_flags_length [OF that(1)] parse_width_length [OF that(2)]
        parse_precision_length [OF that(3)] skip_length_length [OF that(4)] by simp
    show ?thesis
      using less [of cs] step unfolding Cons printer_vprintf.simps [of _ _ "c # cs"]
      by (auto simp: plain_putc_def txt_eq split: prod.split converted.split intro!: bindo_cong)
  qed (simp add: printer_vprintf.simps)
qed

lemma format_text_logged: "format_text f args = map_outcome (map fst) (printer_vprintf log_putc color f args [])"
proof -
  have "put_all plain_putc out s = s @ map fst out" for out s
    by (induction out arbitrary: s) (auto simp: put_all_def plain_putc_def)
  then show ?thesis
    unfolding format_text_def plain_color [of 0 f args "[]" color] by (simp add: vprintf_put_all [of plain_putc])
qed

text \<open>A printer as its callers use it: whatever every \<open>putc\<close> keeps, a whole format keeps. A recording printer
  passes every character on; \<open>sent\<close> is what it has passed on.\<close>

locale printer_sink =
  fixes putc :: "u8 \<Rightarrow> u32 \<Rightarrow> 's \<Rightarrow> 's" and inv :: "'s \<Rightarrow> bool"
  assumes putc_keeps: "inv s \<Longrightarrow> inv (putc c color s)"
begin

lemma put_all_keeps: "inv s \<Longrightarrow> inv (put_all putc out s)"
  by (induction out arbitrary: s) (auto simp: put_all_def putc_keeps)

lemma vprintf_keeps: "inv s \<Longrightarrow> printer_vprintf putc color f args s = ret s' \<Longrightarrow> inv s'"
  using put_all_keeps by (auto simp: vprintf_put_all [of putc] map_outcome_def bindo_eq_ret)

end

locale recording_printer = printer_sink +
  fixes sent :: "'a \<Rightarrow> 'e list" and code :: "u8 \<Rightarrow> 'e list"
  assumes putc_sends: "inv s \<Longrightarrow> sent (putc c color s) = sent s @ code c"
begin

lemma put_all_sends: "inv s \<Longrightarrow> sent (put_all putc out s) = sent s @ concat (map (\<lambda>x. code (fst x)) out)"
  by (induction out arbitrary: s) (auto simp: put_all_def putc_sends putc_keeps)

lemma vprintf_sends:
  assumes "inv s" and "format_text f args = ret cs"
  shows "\<exists>s'. printer_vprintf putc color f args s = ret s' \<and> inv s' \<and> sent s' = sent s @ concat (map code cs)"
proof -
  obtain out where out: "printer_vprintf log_putc color f args [] = ret out" "map fst out = cs"
    using assms(2) unfolding format_text_logged [of f args color] map_outcome_def bindo_eq_ret by auto
  then have "printer_vprintf putc color f args s = ret (put_all putc out s)"
    by (simp add: vprintf_put_all [of putc])
  then show ?thesis
    using put_all_keeps [OF assms(1), of out] put_all_sends [OF assms(1), of out] out(2) by (auto simp: comp_def)
qed

end

section \<open>The console stays inside its array\<close>

definition console_ok :: "console \<times> nat \<Rightarrow> bool" where
  "console_ok = (\<lambda>(cells, cursor). length cells = CONSOLE_CELLS \<and> cursor \<le> CONSOLE_CELLS)"

lemma console_fill_ok:
  "console_fill n v (cells, cur) = (cells', cur') \<Longrightarrow> cur + n \<le> length cells \<Longrightarrow>
   length cells' = length cells \<and> cur' = cur + n \<and>
   (\<forall>i<length cells. cells' ! i = (if cur \<le> i \<and> i < cur + n then v else cells ! i))"
proof (induction n arbitrary: cells cur)
  case (Suc n)
  from Suc.IH [of "cells[cur := v]" "cur + 1"] Suc.prems show ?case
    by (auto simp: nth_list_update split: if_splits)
qed auto

lemma row_end: "c < CONSOLE_CELLS \<Longrightarrow> c + (80 - c mod 80) \<le> CONSOLE_CELLS"
proof -
  assume "c < CONSOLE_CELLS"
  then have "c div 80 \<le> 24"
    by (simp add: CONSOLE_CELLS_def)
  moreover have "c = 80 * (c div 80) + c mod 80" "c mod 80 < 80"
    by simp_all
  ultimately show ?thesis
    unfolding CONSOLE_CELLS_def by linarith
qed

lemma console_putc_ok:
  assumes "console_ok (cells, cursor)" and "console_putc c color (cells, cursor) = (cells', cursor')"
  shows "console_ok (cells', cursor')"
    and "\<forall>i<CONSOLE_CELLS. cells' ! i =
      (let start = (if cursor = CONSOLE_CELLS then 0 else cursor)
       in if start \<le> i \<and> i < cursor' then ucast ((if c = 10 then 32 else ucast c) OR color) else cells ! i)"
proof -
  let ?cur = "if cursor \<ge> CONSOLE_CELLS then 0 else cursor"
  have len: "length cells = CONSOLE_CELLS" and cur: "?cur < CONSOLE_CELLS"
    using assms(1) by (auto simp: console_ok_def CONSOLE_CELLS_def)
  have "?cur + (80 - ?cur mod 80) \<le> CONSOLE_CELLS"
    by (rule row_end [OF cur])
  then have "console_ok (cells', cursor') \<and> (\<forall>i<CONSOLE_CELLS. cells' ! i =
      (if ?cur \<le> i \<and> i < cursor' then ucast ((if c = 10 then 32 else ucast c) OR color) else cells ! i))"
    using assms(2) len cur console_fill_ok [of "80 - ?cur mod 80" "ucast (32 OR color)" cells ?cur cells' cursor']
    by (auto simp: console_putc_def console_ok_def Let_def nth_list_update split: if_splits)
  moreover have "(cursor \<ge> CONSOLE_CELLS) = (cursor = CONSOLE_CELLS)"
    using assms(1) by (auto simp: console_ok_def)
  ultimately show "console_ok (cells', cursor')"
    and "\<forall>i<CONSOLE_CELLS. cells' ! i =
      (let start = (if cursor = CONSOLE_CELLS then 0 else cursor)
       in if start \<le> i \<and> i < cursor' then ucast ((if c = 10 then 32 else ucast c) OR color) else cells ! i)"
    by (simp_all add: Let_def)
qed

interpretation con: printer_sink console_putc console_ok
proof
  fix s :: "console \<times> nat" and c color
  assume "console_ok s"
  then show "console_ok (console_putc c color s)"
    using console_putc_ok(1) by (metis prod.collapse)
qed

lemma console_vprintf_ok:
  assumes "length cells = CONSOLE_CELLS" and "console_vprintf cpos color f args cells = ret (r, cells')"
  shows "length cells' = CONSOLE_CELLS" and "unat r \<le> CONSOLE_CELLS"
proof -
  let ?start = "if sint cpos < 0 \<or> sint cpos \<ge> int CONSOLE_CELLS then 0 else unat cpos"
  obtain cursor where pr: "printer_vprintf console_putc color f args (cells, ?start) = ret (cells', cursor)" and r: "r = of_nat cursor"
    using assms(2) by (auto simp: console_vprintf_def Let_def bindo_eq_ret)
  have "console_ok (cells, ?start)"
    using assms(1) unat_sint [of cpos] by (auto simp: console_ok_def)
  then have "console_ok (cells', cursor)"
    using con.vprintf_keeps [OF _ pr] by blast
  then show "length cells' = CONSOLE_CELLS" and "unat r \<le> CONSOLE_CELLS"
    by (simp_all add: console_ok_def r unat_of_nat CONSOLE_CELLS_def)
qed

section \<open>String buffers are filled within bounds\<close>

definition stored :: "mem \<Rightarrow> u64 \<Rightarrow> u8 list \<Rightarrow> mem" where
  "stored m s cs x = (if unat (x - s) < length cs then cs ! unat (x - s) else m x)"

lemma put_all_string:
  "unat s \<le> unat e \<Longrightarrow>
   put_all string_putc out (m, s, e)
     = (let cs = take (unat e - unat s) (map fst out) in (stored m s cs, s + of_nat (length cs), e))"
proof (induction out arbitrary: m s)
  case Nil
  then show ?case
    by (simp add: put_all_def stored_def fun_eq_iff)
next
  case (Cons x out)
  obtain c color where x: "x = (c, color)"
    by (cases x)
  show ?case
  proof (cases "s < e")
    case True
    then have lt: "unat s < unat e"
      by (simp add: word_less_nat_alt)
    then have s1: "unat (s + 1) = unat s + 1"
      using unat_less_2p64 [of e] by (simp add: unat_word_ariths)
    define cs where "cs = take (unat e - unat (s + 1)) (map fst out)"
    have tk: "take (unat e - unat s) (map fst (x # out)) = c # cs"
    proof -
      have "unat e - unat s = Suc (unat e - unat (s + 1))"
        using lt s1 by simp
      then show ?thesis
        by (simp add: x cs_def)
    qed
    have "put_all string_putc (x # out) (m, s, e) = put_all string_putc out (m(s := c), s + 1, e)"
      using True by (simp add: put_all_def string_putc_def x)
    also have "\<dots> = (stored (m(s := c)) (s + 1) cs, s + 1 + of_nat (length cs), e)"
    proof -
      have "unat (s + 1) \<le> unat e"
        using lt s1 by simp
      from Cons.IH [OF this] show ?thesis
        by (simp only: cs_def Let_def)
    qed
    also have "stored (m(s := c)) (s + 1) cs = stored m s (c # cs)"
    proof
      fix x :: u64
      have len: "length cs < 2 ^ 64 - 1"
        using lt unat_less_2p64 [of e] s1 by (simp add: cs_def)
      show "stored (m(s := c)) (s + 1) cs x = stored m s (c # cs) x"
      proof (cases "x = s")
        case True
        then have "unat (x - (s + 1)) = 2 ^ 64 - 1"
          by (simp add: unsigned_minus_1_eq_mask mask_eq_exp_minus_1)
        then show ?thesis
          using True len by (simp add: stored_def)
      next
        case False
        then have "unat (x - s - 1) = unat (x - s) - 1" "0 < unat (x - s)"
          by (simp_all add: unat_pred unat_gt_0)
        then show ?thesis
          using False by (cases "unat (x - s)") (auto simp: stored_def diff_diff_eq [symmetric])
      qed
    qed
    finally show ?thesis
      unfolding tk Let_def by simp
  next
    case False
    then have "unat e - unat s = 0"
      by (simp add: word_less_nat_alt)
    then show ?thesis
      using Cons False by (simp add: put_all_def string_putc_def x)
  qed
qed

text \<open>A string of \<open>cs\<close> with its terminating NUL, written at \<open>s\<close>.\<close>

lemma stored_string:
  fixes m :: mem and s :: u64
  assumes "unat s + length cs < 2 ^ 64"
  defines "m' \<equiv> (stored m s cs)(s + of_nat (length cs) := 0)"
  shows "i < length cs \<Longrightarrow> m' (s + of_nat i) = cs ! i" and "m' (s + of_nat (length cs)) = 0"
    and "unat x < unat s \<or> unat s + length cs < unat x \<Longrightarrow> m' x = m x"
proof -
  have u: "unat (s + of_nat i) = unat s + i" "unat (of_nat i :: u64) = i" if "i \<le> length cs" for i
    using that assms(1) by (simp_all add: unat_word_ariths unat_of_nat)
  show "m' (s + of_nat i) = cs ! i" if "i < length cs"
  proof -
    have "s + of_nat i \<noteq> s + of_nat (length cs)"
      using u(2) [of i] u(2) [of "length cs"] that by (metis add_left_cancel less_irrefl order_less_imp_le order_refl)
    then show ?thesis
      using that u(2) [of i] by (simp add: m'_def stored_def)
  qed
  show "m' (s + of_nat (length cs)) = 0"
    by (simp add: m'_def)
  show "m' x = m x" if "unat x < unat s \<or> unat s + length cs < unat x"
  proof -
    have "x \<noteq> s + of_nat (length cs)"
      using that u(1) [of "length cs"] by auto
    moreover have "\<not> x - s < of_nat (length cs)"
      using in_range_iff [of s "of_nat (length cs)" x] that u(2) [of "length cs"] assms(1) by auto
    ultimately show ?thesis
      using u(2) [of "length cs"] by (auto simp: m'_def stored_def word_less_nat_alt)
  qed
qed

lemma vsnprintf_stored:
  assumes "sz \<noteq> 0" and "unat s + unat sz \<le> 2 ^ 64" and "unat sz < 2 ^ 32"
    and "printer_vprintf log_putc 0 format args [] = ret out"
  shows "vsnprintf s sz format args m = (let cs = take (unat sz - 1) (map fst out)
    in ret (of_nat (length cs), (stored m s cs)(s + of_nat (length cs) := 0)))"
proof -
  let ?e = "s + sz - 1"
  have nz: "0 < unat sz"
    using assms(1) by (simp add: unat_gt_0)
  have e: "unat ?e = unat s + unat sz - 1"
    using assms(1,2) nz unat_pred [of sz] unat_less_2p64 [of s] by (simp add: add_diff_eq [symmetric] unat_word_ariths del: add_diff_eq)
  define cs where "cs = take (unat sz - 1) (map fst out)"
  have pa: "put_all string_putc out (m, s, ?e) = (stored m s cs, s + of_nat (length cs), ?e)"
    using put_all_string [of s ?e out m] e nz by (simp add: cs_def Let_def)
  have "ucast (of_nat (length cs) :: u64) = (of_nat (length cs) :: u32)"
    using assms(3) by (simp add: word_unat_eq_iff unsigned_ucast_eq unat_of_nat take_bit_nat_eq_self cs_def)
  then have "vsnprintf s sz format args m = ret (of_nat (length cs), (stored m s cs)(s + of_nat (length cs) := 0))"
    using assms(1,4) pa by (simp add: vsnprintf_def vprintf_put_all [of string_putc])
  then show ?thesis
    by (simp only: cs_def Let_def)
qed

section \<open>Decimal output\<close>

text \<open>Without flags, width and precision the text is the prefix and the digits.\<close>

lemma plain_numeric_text:
  assumes "cv_flags cv AND FLAG_NUMERIC \<noteq> 0" and "cv_flags cv AND FLAG_ZERO = 0"
    and "length (fill_numbuf (cv_num cv) (cv_base cv)) \<le> 20"
  shows "conversion_text (- 1) (- 1) cv = prefix_of cv @ fill_numbuf (cv_num cv) (cv_base cv)"
proof -
  let ?d = "fill_numbuf (cv_num cv) (cv_base cv)" and ?p = "prefix_of cv"
  have p: "length ?p \<le> 2"
    by (auto simp: prefix_of_def Let_def)
  have "sint (- 1 - (of_nat (length ?d) + 0 + of_nat (length ?p)) :: u32) < 0"
  proof -
    have "(- 1 - (of_nat (length ?d) + 0 + of_nat (length ?p)) :: u32) = word_of_int (- 1 - int (length ?d + length ?p))"
      by simp
    then have "sint (- 1 - (of_nat (length ?d) + 0 + of_nat (length ?p)) :: u32) = - 1 - int (length ?d + length ?p)"
      using p assms(3) by (simp only: signed_of_int) (simp add: signed_take_bit_int_eq_self)
    then show ?thesis
      by simp
  qed
  moreover have "sint (of_nat (length ?d) :: u32) = int (length ?d)"
    using assms(3) by (intro sint_small_nat) simp
  ultimately show ?thesis
    using assms(1,2) by (simp add: conversion_text_def Let_def)
qed

section \<open>Properties of the formatted output\<close>

text \<open>C26. \<open>fill_numbuf\<close> writes the numeral of its argument: read back in the same base it gives the number,
  it has no leading zero (zero itself is one digit), and it needs at most 20 characters, so that
  with the terminating NUL it fits the 24 bytes of \<open>numbuf\<close>.\<close>

theorem fill_numbuf_correct:
  assumes "base_ok base"
  shows "numeral_value (nat \<bar>base\<bar>) (fill_numbuf v base) = unat v \<and>
    (v \<noteq> 0 \<longrightarrow> digit_value (hd (fill_numbuf v base)) \<noteq> 0) \<and> (v = 0 \<longrightarrow> length (fill_numbuf v base) = 1) \<and>
    length (fill_numbuf v base) \<le> 20"
  using fill_numbuf_value [OF assms, of v] fill_numbuf_length [OF assms, of v] by auto

theorem fill_numbuf_correct_witness:
  "numeral_value 16 (fill_numbuf 0xB8000 (- 16)) = 0xB8000 \<and> length (fill_numbuf 0xB8000 (- 16)) \<le> 20"
  using fill_numbuf_correct [of "- 16" "0xB8000"] by (simp add: base_ok_def)

text \<open>What a format prints does not depend on the printer: for every method \<open>putc\<close>, \<open>printer_vprintf\<close>
  applies it to the same sequence of characters and colors, the one a logging printer records.\<close>

theorem printer_independent:
  "printer_vprintf putc color format args s
     = map_outcome (\<lambda>out. put_all putc out s) (printer_vprintf log_putc color format args [])"
  by (rule vprintf_put_all)

text \<open>Console output stays inside the console: from a cursor in range \<open>console_vprintf\<close> keeps the 2000
  cells and returns a position between 0 and 2000, whatever the format, the arguments and the
  requested position; \<open>console_putc\<close> changes only the cells between the cursor (wrapped to 0 at
  the end) and the new cursor, which for a newline is the end of the row.\<close>

theorem console_output_in_bounds:
  assumes "length cells = CONSOLE_CELLS"
  shows "(console_vprintf cpos color format args cells = ret (r, cells') \<longrightarrow>
      length cells' = CONSOLE_CELLS \<and> unat r \<le> CONSOLE_CELLS) \<and>
    (cursor \<le> CONSOLE_CELLS \<and> console_putc c color (cells, cursor) = (cells2, cursor2) \<longrightarrow>
      cursor2 \<le> CONSOLE_CELLS \<and>
      (\<forall>i<CONSOLE_CELLS. cells2 ! i =
        (let start = (if cursor = CONSOLE_CELLS then 0 else cursor)
         in if start \<le> i \<and> i < cursor2 then ucast ((if c = 10 then 32 else ucast c) OR color) else cells ! i)))"
proof -
  have "length cells' = CONSOLE_CELLS \<and> unat r \<le> CONSOLE_CELLS"
    if "console_vprintf cpos color format args cells = ret (r, cells')"
    using console_vprintf_ok [OF assms that] by blast
  moreover have "cursor2 \<le> CONSOLE_CELLS \<and>
      (\<forall>i<CONSOLE_CELLS. cells2 ! i =
        (let start = (if cursor = CONSOLE_CELLS then 0 else cursor)
         in if start \<le> i \<and> i < cursor2 then ucast ((if c = 10 then 32 else ucast c) OR color) else cells ! i))"
    if "cursor \<le> CONSOLE_CELLS" "console_putc c color (cells, cursor) = (cells2, cursor2)"
    using console_putc_ok [of cells cursor c color cells2 cursor2] that assms by (simp add: console_ok_def)
  ultimately show ?thesis
    by blast
qed

theorem console_output_in_bounds_witness:
  "snd (console_putc 10 0x700 (replicate CONSOLE_CELLS 0, 1999)) \<le> CONSOLE_CELLS"
  using console_output_in_bounds [of "replicate CONSOLE_CELLS 0" 0 "0x700" "[]" "[]" 0 "[]" 1999 10
      "fst (console_putc 10 0x700 (replicate CONSOLE_CELLS 0, 1999))"
      "snd (console_putc 10 0x700 (replicate CONSOLE_CELLS 0, 1999))"]
  by (simp add: CONSOLE_CELLS_def)

text \<open>C27. \<open>vsnprintf\<close> never writes outside its buffer: of the characters the format prints it stores as many
  as fit before the last byte, terminates them with NUL, returns their number, and leaves all
  other memory unchanged.\<close>

theorem vsnprintf_bounded:
  assumes "sz \<noteq> 0" and "unat s + unat sz \<le> 2 ^ 64" and "unat sz < 2 ^ 32"
    and "printer_vprintf log_putc 0 format args [] = ret out"
  shows "\<exists>n m'. vsnprintf s sz format args m = ret (of_nat n, m') \<and> n = min (length out) (unat sz - 1) \<and>
    (\<forall>i<n. m' (s + of_nat i) = fst (out ! i)) \<and> m' (s + of_nat n) = 0 \<and>
    (\<forall>x. unat x < unat s \<or> unat s + n < unat x \<longrightarrow> m' x = m x)"
proof -
  define cs where "cs = take (unat sz - 1) (map fst out)"
  have len: "length cs = min (length out) (unat sz - 1)"
    by (simp add: cs_def)
  have "0 < unat sz"
    using assms(1) by (simp add: unat_gt_0)
  then have fits: "unat s + length cs < 2 ^ 64"
    using assms(2) len by linarith
  have "vsnprintf s sz format args m = ret (of_nat (length cs), (stored m s cs)(s + of_nat (length cs) := 0))"
    using vsnprintf_stored [OF assms] by (simp only: cs_def Let_def)
  then show ?thesis
    using stored_string [OF fits, where m = m] len
    by (intro exI [of _ "length cs"] exI [of _ "(stored m s cs)(s + of_nat (length cs) := 0)"]) (auto simp: cs_def)
qed

theorem vsnprintf_bounded_witness:
  "\<exists>n m'. vsnprintf 0x1000 4 [37, 100, 32] [Va_word 1234] (\<lambda>_. 7) = ret (of_nat n, m') \<and> n = 3 \<and>
     m' (0x1000 + of_nat n) = 0"
proof -
  have "printer_vprintf log_putc 0 [37, 100, 32] [Va_word 1234] []
      = ret [(49, 0), (50, 0), (51, 0), (52, 0), (32, 0)]"
    by code_simp
  from vsnprintf_bounded [OF _ _ _ this, of 4 "0x1000" "\<lambda>_. 7"] show ?thesis
    by auto
qed

text \<open>The conversion \<open>%d\<close> prints a signed decimal numeral: the characters put are a minus sign exactly
  for a negative argument, followed by digits whose value is the absolute value of the argument,
  including for \<open>INT_MIN\<close>.\<close>

theorem print_decimal:
  "\<exists>ds. printer_vprintf log_putc color [37, 100] [Va_word w] []
      = ret (map (\<lambda>c. (c, color)) ((if sint (ucast w :: u32) < 0 then [45] else []) @ ds)) \<and>
    int (numeral_value 10 ds) = \<bar>sint (ucast w :: u32)\<bar>"
proof -
  let ?x = "ucast w :: u32" and ?y = "scast (ucast w :: u32) :: u64"
  define cv where "cv = \<lparr>cv_flags = FLAG_NUMERIC OR FLAG_SIGNED OR (if sint ?y < 0 then FLAG_NEGATIVE else 0),
     cv_base = 10, cv_num = (if sint ?y < 0 then - ?y else ?y), cv_data = []\<rparr>"
  have range: "- (2 ^ 31) \<le> sint ?x" "sint ?x < 2 ^ 31"
    using sint_greater_eq [of ?x] sint_less [of ?x] by simp_all
  have sy: "sint ?y = sint ?x"
    using range by (simp add: signed_scast_eq signed_take_bit_int_eq_self)
  have num: "cv_num cv = word_of_int \<bar>sint ?x\<bar>"
  proof -
    have "cv_num cv = (if sint ?x < 0 then - word_of_int (sint ?x) else word_of_int (sint ?x))"
      unfolding scast_eq [of ?x, symmetric] by (simp add: cv_def sy)
    then show ?thesis
      by (simp add: abs_if)
  qed
  then have "uint (cv_num cv) = \<bar>sint ?x\<bar>"
    using range by (simp only: uint_word_of_int_eq) (simp add: take_bit_int_eq_self)
  then have val: "int (numeral_value 10 (fill_numbuf (cv_num cv) 10)) = \<bar>sint ?x\<bar>"
    using fill_numbuf_value [of 10 "cv_num cv"] by (simp add: base_ok_def)
  have len: "length (fill_numbuf (cv_num cv) (cv_base cv)) \<le> 20"
    by (rule fill_numbuf_length) (simp add: cv_def base_ok_def)
  have tx: "conversion_text (- 1) (- 1) cv = prefix_of cv @ fill_numbuf (cv_num cv) 10"
    using plain_numeric_text [OF _ _ len] by (simp add: cv_def flag_defs)
  have pre: "prefix_of cv = (if sint ?x < 0 then [45] else [])"
    by (simp add: prefix_of_def cv_def sy flag_defs)
  have "printer_vprintf log_putc color [37, 100] [Va_word w] [] = ret (map (\<lambda>c. (c, color)) (conversion_text (- 1) (- 1) cv))"
    by (simp add: printer_vprintf.simps flag_of_def flag_defs parse_width_def parse_precision_def convert_def signed_arg_def
        va_word_def cv_def Let_def fold_put_all put_all_log)
  then show ?thesis
    using tx pre val by auto
qed

end
