(* ===== verification/Kernel_State.thy ===== *)
theory Kernel_State
  imports Hardware Formatted_Output
begin

text \<open>
  The state of the kernel (\<^verbatim>\<open>kernel/kernel.h\<close> and the globals of \<^verbatim>\<open>kernel/kernel.c\<close>): page
  ownership, process descriptors, and the operations on the \<open>pageinfo\<close> array. Physical memory
  (page tables and the pages of processes) is a byte memory; the global variables of the kernel
  are fields of a record beside it.
\<close>

section \<open>Data of kernel.h\<close>

text \<open>\<open>owner\<close> and \<open>refcount\<close> are of type \<open>int8_t\<close>.\<close>

record physical_pageinfo =
  pg_owner :: u8
  refcount :: u8

definition PO_FREE :: u8 where
  "PO_FREE = 0"

definition PO_RESERVED :: u8 where
  "PO_RESERVED = - 1"

definition PO_KERNEL :: u8 where
  "PO_KERNEL = - 2"

datatype procstate = P_FREE | P_RUNNABLE | P_BLOCKED | P_BROKEN

record x86_64_registers =
  reg_rax :: u64
  reg_rcx :: u64
  reg_rdx :: u64
  reg_rbx :: u64
  reg_rbp :: u64
  reg_rsi :: u64
  reg_rdi :: u64
  reg_r8 :: u64
  reg_r9 :: u64
  reg_r10 :: u64
  reg_r11 :: u64
  reg_r12 :: u64
  reg_r13 :: u64
  reg_r14 :: u64
  reg_r15 :: u64
  reg_fs :: u64
  reg_gs :: u64
  reg_intno :: u64
  reg_err :: u64
  reg_rip :: u64
  reg_cs :: u16
  reg_rflags :: u64
  reg_rsp :: u64
  reg_ss :: u16

record proc =
  p_pid :: u32
  p_gpid :: u32
  program_break :: u64
  original_break :: u64
  p_registers :: x86_64_registers
  p_state :: procstate
  p_pagetable :: u64
  display_status :: u8

definition NPROC :: nat where
  "NPROC = 16"

definition NPAGES :: nat where
  "NPAGES = 512"

definition KERNEL_START_ADDR :: u64 where
  "KERNEL_START_ADDR = 0x40000"

definition KERNEL_STACK_TOP :: u64 where
  "KERNEL_STACK_TOP = 0x80000"

definition PROC_START_ADDR :: u64 where
  "PROC_START_ADDR = 0x100000"

section \<open>Globals of kernel.c\<close>

text \<open>The globals, the console and cursor position of \<^verbatim>\<open>shared/lib.h\<close>, and the two static variables of
  \<open>memshow_virtual_animate\<close> (\<open>showing\<close>, a C \<open>int\<close>, stays between 0 and 33). \<open>current\<close>, a pointer into the array \<open>processes\<close>, is the index of the descriptor it points to.\<close>

record kstate =
  phys :: mem
  kernel_pagetable :: u64
  cr3 :: u64
  pageinfo :: "physical_pageinfo list"
  processes :: "proc list"
  current :: nat
  ticks :: u32
  disp_global :: u8
  console :: console
  cursorpos :: u32
  last_ticks :: u32
  showing :: nat
  hw :: hardware

definition the_proc :: "kstate \<Rightarrow> nat \<Rightarrow> proc" where
  "the_proc k i = processes k ! i"

definition upd_proc :: "nat \<Rightarrow> (proc \<Rightarrow> proc) \<Rightarrow> kstate \<Rightarrow> kstate" where
  "upd_proc i f k = k\<lparr>processes := (processes k)[i := f (processes k ! i)]\<rparr>"

lemma the_proc_upd_proc [simp]:
  "i < length (processes k) \<Longrightarrow> the_proc (upd_proc i f k) j = (if j = i then f (the_proc k i) else the_proc k j)"
  by (simp add: the_proc_def upd_proc_def)

lemma upd_proc_sel [simp]:
  "phys (upd_proc i f k) = phys k" "pageinfo (upd_proc i f k) = pageinfo k"
  "kernel_pagetable (upd_proc i f k) = kernel_pagetable k" "current (upd_proc i f k) = current k"
  "length (processes (upd_proc i f k)) = length (processes k)"
  "ticks (upd_proc i f k) = ticks k" "disp_global (upd_proc i f k) = disp_global k"
  "console (upd_proc i f k) = console k" "cr3 (upd_proc i f k) = cr3 k" "hw (upd_proc i f k) = hw k"
  by (simp_all add: upd_proc_def)

section \<open>The pageinfo array\<close>

text \<open>An array access with a C \<open>int\<close> index; outside the array it is undefined behaviour.\<close>

definition in_pageinfo :: "u32 \<Rightarrow> bool" where
  "in_pageinfo pn \<longleftrightarrow> 0 \<le> sint pn \<and> sint pn < int NPAGES"

text \<open>\<open>assign_physical_page\<close>: the result is 0 on success and -1 on failure.\<close>

definition assign_physical_page ::
  "u64 \<Rightarrow> u8 \<Rightarrow> physical_pageinfo list \<Rightarrow> u32 \<times> physical_pageinfo list" where
  "assign_physical_page addr owner pi =
     (let pn = nat (sint (PAGENUMBER addr))
      in if addr AND 0xFFF \<noteq> 0 \<or> addr \<ge> MEMSIZE_PHYSICAL \<or> refcount (pi ! pn) \<noteq> 0
         then (- 1, pi)
         else (0, pi[pn := \<lparr>pg_owner = owner, refcount = 1\<rparr>]))"

text \<open>\<open>physical_memory_isreserved\<close> of \<^verbatim>\<open>k-hardware.c\<close>.\<close>

definition physical_memory_isreserved :: "u64 \<Rightarrow> bool" where
  "physical_memory_isreserved pa \<longleftrightarrow> pa = 0 \<or> (pa \<ge> 0xA0000 \<and> pa < 0x100000)"

text \<open>\<open>pageinfo_init\<close>; \<open>kend\<close> is the address of the linker symbol \<open>end\<close>.\<close>

definition initial_owner :: "u64 \<Rightarrow> u64 \<Rightarrow> u8" where
  "initial_owner kend addr =
     (if physical_memory_isreserved addr then PO_RESERVED
      else if addr \<ge> KERNEL_START_ADDR \<and> addr < kend \<or> addr = KERNEL_STACK_TOP - PAGESIZE then PO_KERNEL
      else PO_FREE)"

function pageinfo_init_from :: "u64 \<Rightarrow> u64 \<Rightarrow> physical_pageinfo list \<Rightarrow> physical_pageinfo list" where
  "pageinfo_init_from kend addr pi =
     (if addr < MEMSIZE_PHYSICAL then
        let owner = initial_owner kend addr
        in pageinfo_init_from kend (addr + PAGESIZE)
             (pi[nat (sint (PAGENUMBER addr)) :=
                  \<lparr>pg_owner = owner, refcount = (if owner \<noteq> PO_FREE then 1 else 0)\<rparr>])
      else pi)"
  by auto
termination
  by (relation "measure (\<lambda>(kend, addr, pi). unat MEMSIZE_PHYSICAL - unat addr)")
    (auto simp: MEMSIZE_PHYSICAL_def PAGESIZE_def word_less_nat_alt unat_word_ariths)

declare pageinfo_init_from.simps [simp del]

definition pageinfo_init :: "u64 \<Rightarrow> physical_pageinfo list \<Rightarrow> physical_pageinfo list" where
  "pageinfo_init kend pi = pageinfo_init_from kend 0 pi"

section \<open>Properties of the pageinfo array\<close>

lemma pagenumber_nat:
  assumes "unat a < 0x200000"
  shows "nat (sint (PAGENUMBER a)) = unat a div 4096"
proof -
  have d: "unat (drop_bit 12 a) = unat a div 4096"
    by (simp only: unat_drop_bit_eq) (simp add: drop_bit_eq_div)
  then have "unat (PAGENUMBER a) = unat a div 4096"
    using assms by (simp add: PAGENUMBER_def unsigned_ucast_eq take_bit_nat_eq_self)
  then have "uint (PAGENUMBER a) = int (unat a div 4096)"
    by (metis of_nat_unat uint_nat)
  moreover have "int (unat a div 4096) < 2 ^ 31"
    using assms by simp
  ultimately have "sint (PAGENUMBER a) = int (unat a div 4096)"
    by (simp only: sint_uint) (simp add: signed_take_bit_int_eq_self)
  then show ?thesis
    by simp
qed

definition initial_pageinfo :: "u64 \<Rightarrow> nat \<Rightarrow> physical_pageinfo" where
  "initial_pageinfo kend n =
     (let owner = initial_owner kend (of_nat (4096 * n))
      in \<lparr>pg_owner = owner, refcount = (if owner \<noteq> PO_FREE then 1 else 0)\<rparr>)"

lemma pageinfo_init_from_table:
  "n \<le> 512 \<Longrightarrow> length pi = 512 \<Longrightarrow>
   pageinfo_init_from kend (of_nat (4096 * n)) pi = take n pi @ map (initial_pageinfo kend) [n..<512]"
proof (induction "512 - n" arbitrary: n pi)
  case 0
  then show ?case
    by (subst pageinfo_init_from.simps) (simp add: MEMSIZE_PHYSICAL_def)
next
  case (Suc d)
  then have n: "n < 512"
    by simp
  let ?a = "of_nat (4096 * n) :: u64"
  have u: "unat ?a = 4096 * n"
    using n by (simp add: unat_of_nat del: of_nat_mult)
  then have lt: "?a < MEMSIZE_PHYSICAL" and pn: "nat (sint (PAGENUMBER ?a)) = n"
    using n pagenumber_nat [of ?a] by (simp_all add: word_less_nat_alt MEMSIZE_PHYSICAL_def)
  have nx: "?a + PAGESIZE = of_nat (4096 * Suc n)"
    by (simp add: PAGESIZE_def)
  have "pageinfo_init_from kend ?a pi
      = pageinfo_init_from kend (of_nat (4096 * Suc n)) (pi[n := initial_pageinfo kend n])"
    using lt by (subst pageinfo_init_from.simps) (simp only: Let_def if_True pn nx initial_pageinfo_def)
  also have "\<dots> = take (Suc n) (pi[n := initial_pageinfo kend n]) @ map (initial_pageinfo kend) [Suc n..<512]"
    using Suc n by (intro Suc.hyps) auto
  also have "\<dots> = take n pi @ map (initial_pageinfo kend) [n..<512]"
    using n Suc.prems by (simp add: take_Suc_conv_app_nth upt_conv_Cons)
  finally show ?case .
qed

text \<open>\<open>pageinfo_init\<close> gives every physical page its owner: page 0 and the I/O hole are reserved, the
  kernel image and the kernel stack page belong to the kernel, every other page is free; a page
  has reference count 1 exactly when it is not free.\<close>

theorem pageinfo_init_owners:
  assumes "length pi = NPAGES"
  shows "length (pageinfo_init kend pi) = NPAGES \<and>
    (\<forall>n<NPAGES. pg_owner (pageinfo_init kend pi ! n) =
       (if n = 0 \<or> 0xA0 \<le> n \<and> n < 0x100 then PO_RESERVED
        else if 0x40 \<le> n \<and> 4096 * n < unat kend \<or> n = 0x7F then PO_KERNEL else PO_FREE) \<and>
     refcount (pageinfo_init kend pi ! n) = (if pg_owner (pageinfo_init kend pi ! n) = PO_FREE then 0 else 1))"
proof -
  have eq: "pageinfo_init kend pi = map (initial_pageinfo kend) [0..<512]"
    using pageinfo_init_from_table [of 0 pi kend] assms by (simp add: pageinfo_init_def NPAGES_def)
  have "initial_owner kend (of_nat (4096 * n)) =
       (if n = 0 \<or> 0xA0 \<le> n \<and> n < 0x100 then PO_RESERVED
        else if 0x40 \<le> n \<and> 4096 * n < unat kend \<or> n = 0x7F then PO_KERNEL else PO_FREE)" if "n < 512" for n
  proof -
    have "unat (of_nat (4096 * n) :: u64) = 4096 * n"
      using that by (simp add: unat_of_nat del: of_nat_mult)
    then show ?thesis
      unfolding initial_owner_def physical_memory_isreserved_def
      by (simp add: word_le_nat_alt word_less_nat_alt word_unat_eq_iff KERNEL_START_ADDR_def KERNEL_STACK_TOP_def
          PAGESIZE_def del: of_nat_mult)
  qed
  then show ?thesis
    by (simp add: eq NPAGES_def initial_pageinfo_def Let_def)
qed

theorem pageinfo_init_owners_witness:
  "pg_owner (pageinfo_init 0x60000 (replicate 512 \<lparr>pg_owner = 0, refcount = 0\<rparr>) ! 0x41) = PO_KERNEL"
  using pageinfo_init_owners [of "replicate 512 \<lparr>pg_owner = 0, refcount = 0\<rparr>" "0x60000"]
  by (simp add: NPAGES_def)

text \<open>\<open>assign_physical_page\<close> succeeds exactly for the address of a free physical page; then that page
  gets the owner and reference count 1 and no other page changes, otherwise nothing changes.\<close>

theorem assign_physical_page_exact:
  assumes "length pi = NPAGES"
  shows "assign_physical_page addr owner pi =
    (if page_aligned addr \<and> unat addr < 0x200000 \<and> refcount (pi ! (unat addr div 4096)) = 0
     then (0, pi[unat addr div 4096 := \<lparr>pg_owner = owner, refcount = 1\<rparr>])
     else (- 1, pi)) \<and>
    length (snd (assign_physical_page addr owner pi)) = NPAGES"
proof (cases "unat addr < 0x200000")
  case True
  then show ?thesis
    using pagenumber_nat [OF True] assms
    by (auto simp: assign_physical_page_def Let_def page_aligned_def PAGEOFFSET_def word_le_nat_alt MEMSIZE_PHYSICAL_def)
next
  case False
  then show ?thesis
    using assms by (simp add: assign_physical_page_def Let_def word_le_nat_alt MEMSIZE_PHYSICAL_def)
qed

theorem assign_physical_page_exact_witness:
  "assign_physical_page 0x3000 5 (replicate 512 \<lparr>pg_owner = 0, refcount = 0\<rparr>)
     = (0, (replicate 512 \<lparr>pg_owner = 0, refcount = 0\<rparr>)[3 := \<lparr>pg_owner = 5, refcount = 1\<rparr>])"
  using assign_physical_page_exact [of "replicate 512 \<lparr>pg_owner = 0, refcount = 0\<rparr>" "0x3000" 5]
  by (simp add: NPAGES_def page_aligned_iff)

end
