(* ===== verification/Elt_Lists.thy ===== *)
theory Elt_Lists
  imports Byte_Memory "HOL-Library.Multiset"
begin

text \<open>
  The two doubly linked lists of \<^verbatim>\<open>uspace/malloc.c\<close>: the list of free blocks and the list of
  allocated blocks, whose nodes are the headers (\<open>elt\<close>) at the start of the blocks. The state is
  the byte memory of the process together with the global variables of the file. The operations
  are the C functions \<open>append_list\<close>, \<open>append_list_ordered\<close>, \<open>remove_list\<close> and \<open>search_free\<close>, with
  every pointer write of the source in its order.

  The proofs go through the interface \<open>elt_store\<close>: what a pointer write does to the other
  headers. The laws of linking and unlinking a node are proved once from it and serve both lists.
\<close>

section \<open>State\<close>

text \<open>\<open>struct elt\<close>: four 64-bit fields; \<open>HEADER\<close> is \<open>sizeof(elt)\<close>. \<open>NULL\<close> is address 0.\<close>

datatype elt_field = Size | Alloc_bytes | Prev | Next

definition field_offset :: "elt_field \<Rightarrow> u64" where
  "field_offset f = (case f of Size \<Rightarrow> 0 | Alloc_bytes \<Rightarrow> 8 | Prev \<Rightarrow> 16 | Next \<Rightarrow> 24)"

definition HEADER :: u64 where
  "HEADER = 32"

record heap =
  bytes :: mem
  free_head :: u64
  free_tail :: u64
  alloc_head :: u64
  alloc_tail :: u64
  free_list_size :: u32
  alloc_list_size :: u32

definition get_field :: "heap \<Rightarrow> u64 \<Rightarrow> elt_field \<Rightarrow> u64" where
  "get_field s p f = load64 (bytes s) (p + field_offset f)"

definition put_field :: "u64 \<Rightarrow> elt_field \<Rightarrow> u64 \<Rightarrow> heap \<Rightarrow> heap" where
  "put_field p f v s = s\<lparr>bytes := store64 (bytes s) (p + field_offset f) v\<rparr>"

section \<open>Operations\<close>

definition append_list :: "u64 \<Rightarrow> u64 \<Rightarrow> bool \<Rightarrow> heap \<Rightarrow> heap" where
  "append_list node sz free s0 =
     (let s1 = put_field node Size sz s0;
          s = put_field node Next 0 s1
      in if free then
           (let s' = (if free_head s = 0
                      then put_field node Prev 0 (s\<lparr>free_head := node, free_tail := node\<rparr>)
                      else (put_field node Prev (free_tail s)
                             (put_field (free_tail s) Next node s))\<lparr>free_tail := node\<rparr>)
            in s'\<lparr>free_list_size := free_list_size s' + 1\<rparr>)
         else
           (let s' = (if alloc_head s = 0
                      then put_field node Prev 0 (s\<lparr>alloc_head := node, alloc_tail := node\<rparr>)
                      else (put_field node Prev (alloc_tail s)
                             (put_field (alloc_tail s) Next node s))\<lparr>alloc_tail := node\<rparr>)
            in s'\<lparr>alloc_list_size := alloc_list_size s' + 1\<rparr>))"

text \<open>The two scanning loops of \<open>append_list_ordered\<close>. They stop with the pair \<open>(p1, p2)\<close>
  between which the node goes; \<open>p2 = NULL\<close> is the end of the list.\<close>

partial_function (option) free_position :: "heap \<Rightarrow> u64 \<Rightarrow> u64 \<Rightarrow> u64 \<Rightarrow> (u64 \<times> u64) option" where
  "free_position s node p1 p2 =
     (if p2 = 0 then Some (p1, p2)
      else if p1 \<le> node \<and> node < p2 then Some (p1, p2)
      else free_position s node p2 (get_field s p2 Next))"

partial_function (option) alloc_position :: "heap \<Rightarrow> u64 \<Rightarrow> u64 \<Rightarrow> u64 \<Rightarrow> (u64 \<times> u64) option" where
  "alloc_position s nbytes a1 a2 =
     (if a2 = 0 then Some (a1, a2)
      else if nbytes \<le> get_field s a1 Alloc_bytes \<and> nbytes > get_field s a2 Alloc_bytes
      then Some (a1, a2)
      else alloc_position s nbytes a2 (get_field s a2 Next))"

definition insert_between :: "u64 \<Rightarrow> u64 \<Rightarrow> u64 \<Rightarrow> heap \<Rightarrow> heap" where
  "insert_between node p1 p2 s =
     put_field p2 Prev node (put_field p1 Next node
       (put_field node Next p2 (put_field node Prev p1 s)))"

definition insert_last :: "u64 \<Rightarrow> u64 \<Rightarrow> heap \<Rightarrow> heap" where
  "insert_last node p1 s =
     put_field node Next 0 (put_field node Prev p1 (put_field p1 Next node s))"

definition append_list_ordered :: "u64 \<Rightarrow> u64 \<Rightarrow> u64 \<Rightarrow> bool \<Rightarrow> heap \<Rightarrow> heap option" where
  "append_list_ordered node sz nbytes free s0 =
     (let s1 = put_field node Size sz s0
      in if free then
           (let s = s1\<lparr>free_list_size := free_list_size s1 + 1\<rparr>
            in if free_head s = 0 then
                 Some (put_field node Next 0 (put_field node Prev 0
                   (s\<lparr>free_head := node, free_tail := node\<rparr>)))
               else if node < free_head s then
                 Some ((put_field (free_head s) Prev node (put_field node Next (free_head s)
                   (put_field node Prev 0 s)))\<lparr>free_head := node\<rparr>)
               else
                 (case free_position s node (free_head s) (get_field s (free_head s) Next) of
                    None \<Rightarrow> None
                  | Some (p1, p2) \<Rightarrow>
                      if p2 \<noteq> 0 then Some (insert_between node p1 p2 s)
                      else Some ((insert_last node p1 s)\<lparr>free_tail := node\<rparr>)))
         else
           (let s = put_field node Alloc_bytes nbytes
                      (s1\<lparr>alloc_list_size := alloc_list_size s1 + 1\<rparr>)
            in if alloc_head s = 0 then
                 Some (put_field node Next 0 (put_field node Prev 0
                   (s\<lparr>alloc_head := node, alloc_tail := node\<rparr>)))
               else if nbytes > get_field s (alloc_head s) Alloc_bytes then
                 Some ((put_field (alloc_head s) Prev node (put_field node Next (alloc_head s)
                   (put_field node Prev 0 s)))\<lparr>alloc_head := node\<rparr>)
               else
                 (case alloc_position s nbytes (alloc_head s) (get_field s (alloc_head s) Next) of
                    None \<Rightarrow> None
                  | Some (a1, a2) \<Rightarrow>
                      if a2 \<noteq> 0 then Some (insert_between node a1 a2 s)
                      else Some ((insert_last node a1 s)\<lparr>alloc_tail := node\<rparr>))))"

definition unlink :: "u64 \<Rightarrow> u64 \<Rightarrow> heap \<Rightarrow> heap" where
  "unlink prev next s =
     (let s1 = (if prev \<noteq> 0 then put_field prev Next next s else s)
      in if next \<noteq> 0 then put_field next Prev prev s1 else s1)"

definition remove_list :: "u64 \<Rightarrow> bool \<Rightarrow> heap \<Rightarrow> heap" where
  "remove_list node free s =
     (let prev = get_field s node Prev; next = get_field s node Next
      in if free then
           (let s1 = (if node = free_head s then s\<lparr>free_head := next\<rparr> else s);
                s2 = (if node = free_tail s1 then s1\<lparr>free_tail := prev\<rparr> else s1);
                s3 = unlink prev next s2
            in s3\<lparr>free_list_size := free_list_size s3 - 1\<rparr>)
         else
           (let s1 = (if node = alloc_head s then s\<lparr>alloc_head := next\<rparr> else s);
                s2 = (if node = alloc_tail s1 then s1\<lparr>alloc_tail := prev\<rparr> else s1);
                s3 = unlink prev next s2
            in s3\<lparr>alloc_list_size := alloc_list_size s3 - 1\<rparr>))"

partial_function (option) search_free_from :: "heap \<Rightarrow> u64 \<Rightarrow> u64 \<Rightarrow> u64 option" where
  "search_free_from s sz p =
     (if p = 0 then Some 0
      else if get_field s p Size \<ge> sz then Some p
      else search_free_from s sz (get_field s p Next))"

definition search_free :: "u64 \<Rightarrow> heap \<Rightarrow> u64 option" where
  "search_free sz s = search_free_from s sz (free_head s)"

section \<open>Chains of headers\<close>

text \<open>\<open>dseg nx pv p xs n\<close>: the nodes \<open>xs\<close> are chained in both directions, entered from \<open>p\<close> and
  left to \<open>n\<close>.\<close>

fun dseg :: "('a \<Rightarrow> 'a) \<Rightarrow> ('a \<Rightarrow> 'a) \<Rightarrow> 'a \<Rightarrow> 'a list \<Rightarrow> 'a \<Rightarrow> bool" where
  "dseg nx pv p [] n = True"
| "dseg nx pv p (x # xs) n = (pv x = p \<and> nx x = hd (xs @ [n]) \<and> dseg nx pv x xs n)"

lemma dseg_append [simp]:
  "dseg nx pv p (xs @ ys) n \<longleftrightarrow> dseg nx pv p xs (hd (ys @ [n])) \<and> dseg nx pv (last (p # xs)) ys n"
  by (induction xs arbitrary: p) (auto simp: hd_append)

lemma dseg_cong:
  "(\<And>a. a \<in> set xs \<Longrightarrow> nx a = nx' a \<and> pv a = pv' a) \<Longrightarrow> dseg nx pv p xs n = dseg nx' pv' p xs n"
  by (induction xs arbitrary: p) auto

text \<open>\<open>links\<close> and \<open>apart\<close> are the shape of a whole list and the separation of its headers.\<close>

definition links :: "('s \<Rightarrow> u64 \<Rightarrow> elt_field \<Rightarrow> u64) \<Rightarrow> 's \<Rightarrow> u64 list \<Rightarrow> bool" where
  "links get s xs \<longleftrightarrow> dseg (\<lambda>a. get s a Next) (\<lambda>a. get s a Prev) 0 xs 0"

definition apart :: "(u64 \<Rightarrow> u64 \<Rightarrow> bool) \<Rightarrow> u64 list \<Rightarrow> bool" where
  "apart sep xs \<longleftrightarrow> distinct xs \<and> 0 \<notin> set xs \<and> (\<forall>a\<in>set xs. \<forall>b\<in>set xs. sep a b)"

locale elt_store =
  fixes get :: "'s \<Rightarrow> u64 \<Rightarrow> elt_field \<Rightarrow> u64"
    and put :: "u64 \<Rightarrow> elt_field \<Rightarrow> u64 \<Rightarrow> 's \<Rightarrow> 's"
    and sep :: "u64 \<Rightarrow> u64 \<Rightarrow> bool"
  assumes get_put: "sep p q \<Longrightarrow> get (put p f v s) q g = (if p = q \<and> f = g then v else get s q g)"
begin

lemma links_frame:
  assumes "links get s xs" and "\<And>a. a \<in> set xs \<Longrightarrow> sep p a" and "p \<notin> set xs \<or> f \<notin> {Prev, Next}"
  shows "links get (put p f v s) xs"
  using assms unfolding links_def
  by (subst dseg_cong [where nx' = "\<lambda>a. get s a Next" and pv' = "\<lambda>a. get s a Prev"])
    (auto simp: get_put)

lemma links_neighbours:
  assumes "links get s (xs @ n # ys)"
  shows "get s n Prev = last (0 # xs)" and "get s n Next = hd (ys @ [0])"
  using assms by (auto simp: links_def)

lemma links_insert_first:
  assumes "sep n n"
  shows "links get (put n Next 0 (put n Prev 0 s)) [n]"
  using assms by (simp add: links_def get_put)

lemma links_insert_head:
  assumes "links get s (q # ys)" and "apart sep (n # q # ys)"
  shows "links get (put q Prev n (put n Next q (put n Prev 0 s))) (n # q # ys)"
proof -
  let ?s = "put q Prev n (put n Next q (put n Prev 0 s))"
  have "dseg (\<lambda>a. get ?s a Next) (\<lambda>a. get ?s a Prev) q ys 0
          = dseg (\<lambda>a. get s a Next) (\<lambda>a. get s a Prev) q ys 0"
    using assms(2) by (intro dseg_cong) (auto simp: apart_def get_put)
  then show ?thesis
    using assms by (auto simp: links_def apart_def get_put)
qed

lemma links_insert_mid:
  assumes "links get s (us @ p # q # vs)" and "apart sep (n # us @ p # q # vs)"
  shows "links get (put q Prev n (put p Next n (put n Next q (put n Prev p s)))) (us @ p # n # q # vs)"
proof -
  let ?s = "put q Prev n (put p Next n (put n Next q (put n Prev p s)))"
  have "dseg (\<lambda>a. get ?s a Next) (\<lambda>a. get ?s a Prev) r zs e
          = dseg (\<lambda>a. get s a Next) (\<lambda>a. get s a Prev) r zs e" if "zs \<in> {us, vs}" for r zs e
    using assms(2) that by (intro dseg_cong) (auto simp: apart_def get_put)
  then show ?thesis
    using assms by (auto simp: links_def apart_def get_put)
qed

lemma links_insert_last:
  assumes "links get s (us @ [p])" and "apart sep (n # us @ [p])"
  shows "links get (put n Next 0 (put n Prev p (put p Next n s))) (us @ [p, n])"
proof -
  let ?s = "put n Next 0 (put n Prev p (put p Next n s))"
  have "dseg (\<lambda>a. get ?s a Next) (\<lambda>a. get ?s a Prev) 0 us p
          = dseg (\<lambda>a. get s a Next) (\<lambda>a. get s a Prev) 0 us p"
    using assms(2) by (intro dseg_cong) (auto simp: apart_def get_put)
  then show ?thesis
    using assms by (auto simp: links_def apart_def get_put)
qed

lemma links_unlink_mid:
  assumes "links get s (us @ p # n # q # vs)" and "apart sep (us @ p # n # q # vs)"
  shows "links get (put q Prev p (put p Next q s)) (us @ p # q # vs)"
proof -
  let ?s = "put q Prev p (put p Next q s)"
  have "dseg (\<lambda>a. get ?s a Next) (\<lambda>a. get ?s a Prev) r zs e
          = dseg (\<lambda>a. get s a Next) (\<lambda>a. get s a Prev) r zs e" if "zs \<in> {us, vs}" for r zs e
    using assms(2) that by (intro dseg_cong) (auto simp: apart_def get_put)
  then show ?thesis
    using assms by (auto simp: links_def apart_def get_put)
qed

lemma links_unlink_head:
  assumes "links get s (n # q # vs)" and "apart sep (n # q # vs)"
  shows "links get (put q Prev 0 s) (q # vs)"
proof -
  have "dseg (\<lambda>a. get (put q Prev 0 s) a Next) (\<lambda>a. get (put q Prev 0 s) a Prev) q vs 0
          = dseg (\<lambda>a. get s a Next) (\<lambda>a. get s a Prev) q vs 0"
    using assms(2) by (intro dseg_cong) (auto simp: apart_def get_put)
  then show ?thesis
    using assms by (auto simp: links_def apart_def get_put)
qed

lemma links_unlink_last:
  assumes "links get s (us @ [p, n])" and "apart sep (us @ [p, n])"
  shows "links get (put p Next 0 s) (us @ [p])"
proof -
  have "dseg (\<lambda>a. get (put p Next 0 s) a Next) (\<lambda>a. get (put p Next 0 s) a Prev) 0 us p
          = dseg (\<lambda>a. get s a Next) (\<lambda>a. get s a Prev) 0 us p"
    using assms(2) by (intro dseg_cong) (auto simp: apart_def get_put)
  then show ?thesis
    using assms by (auto simp: links_def apart_def get_put)
qed

end

section \<open>Headers in byte memory\<close>

definition node_ok :: "u64 \<Rightarrow> bool" where
  "node_ok p \<longleftrightarrow> aligned8 p \<and> unat p + 32 \<le> 2 ^ 64"

definition node_sep :: "u64 \<Rightarrow> u64 \<Rightarrow> bool" where
  "node_sep p q \<longleftrightarrow> node_ok p \<and> node_ok q \<and>
     (p = q \<or> unat p + 32 \<le> unat q \<or> unat q + 32 \<le> unat p)"

definition header_bytes :: "u64 \<Rightarrow> u64 set" where
  "header_bytes p = {x. unat p \<le> unat x \<and> unat x < unat p + 32}"

lemma unat_field_offset [simp]:
  "unat (field_offset f) = (case f of Size \<Rightarrow> 0 | Alloc_bytes \<Rightarrow> 8 | Prev \<Rightarrow> 16 | Next \<Rightarrow> 24)"
  by (simp add: field_offset_def split: elt_field.split)

lemma aligned8_field: "aligned8 p \<Longrightarrow> aligned8 (p + field_offset f)"
  by (rule aligned8_add) (auto simp: field_offset_def split: elt_field.split)

lemma unat_field:
  "node_ok p \<Longrightarrow> unat (p + field_offset f) = unat p + unat (field_offset f)"
  by (auto simp: node_ok_def unat_word_ariths split: elt_field.split)

lemma put_field_frame:
  assumes "node_ok p" and "x \<notin> header_bytes p"
  shows "bytes (put_field p f v s) x = bytes s x"
proof -
  have "aligned8 (p + field_offset f)"
    using assms(1) aligned8_field by (simp add: node_ok_def)
  moreover have "unat x < unat (p + field_offset f) \<or> unat (p + field_offset f) + 8 \<le> unat x"
    using assms(2) unfolding unat_field [OF assms(1)]
    by (cases f) (auto simp: header_bytes_def)
  ultimately show ?thesis
    by (simp add: put_field_def store64_frame)
qed

interpretation es: elt_store get_field put_field node_sep
proof
  fix p q f v s g
  assume sep: "node_sep p q"
  then have al: "aligned8 (p + field_offset f)" "aligned8 (q + field_offset g)"
    by (simp_all add: node_sep_def node_ok_def aligned8_field)
  show "get_field (put_field p f v s) q g = (if p = q \<and> f = g then v else get_field s q g)"
  proof (cases "p = q \<and> f = g")
    case True
    then show ?thesis
      by (simp add: get_field_def put_field_def)
  next
    case False
    have "unat (p + field_offset f) \<noteq> unat (q + field_offset g)"
      using sep False
      by (cases f; cases g) (auto simp: unat_field node_sep_def)
    then have "p + field_offset f \<noteq> q + field_offset g"
      by metis
    then show ?thesis
      using al False by (auto simp: get_field_def put_field_def)
  qed
qed

text \<open>Header writes do not touch the global variables, and the global variables are not in memory.\<close>

lemma put_field_globals [simp]:
  "free_head (put_field p f v s) = free_head s" "free_tail (put_field p f v s) = free_tail s"
  "alloc_head (put_field p f v s) = alloc_head s" "alloc_tail (put_field p f v s) = alloc_tail s"
  "free_list_size (put_field p f v s) = free_list_size s"
  "alloc_list_size (put_field p f v s) = alloc_list_size s"
  by (simp_all add: put_field_def)

lemma put_field_update_globals [simp]:
  "put_field p f v (s\<lparr>free_head := a\<rparr>) = (put_field p f v s)\<lparr>free_head := a\<rparr>"
  "put_field p f v (s\<lparr>free_tail := a\<rparr>) = (put_field p f v s)\<lparr>free_tail := a\<rparr>"
  "put_field p f v (s\<lparr>alloc_head := a\<rparr>) = (put_field p f v s)\<lparr>alloc_head := a\<rparr>"
  "put_field p f v (s\<lparr>alloc_tail := a\<rparr>) = (put_field p f v s)\<lparr>alloc_tail := a\<rparr>"
  "put_field p f v (s\<lparr>free_list_size := c\<rparr>) = (put_field p f v s)\<lparr>free_list_size := c\<rparr>"
  "put_field p f v (s\<lparr>alloc_list_size := c\<rparr>) = (put_field p f v s)\<lparr>alloc_list_size := c\<rparr>"
  by (simp_all add: put_field_def)

lemma get_field_globals [simp]:
  "get_field (s\<lparr>free_head := a\<rparr>) = get_field s" "get_field (s\<lparr>free_tail := a\<rparr>) = get_field s"
  "get_field (s\<lparr>alloc_head := a\<rparr>) = get_field s" "get_field (s\<lparr>alloc_tail := a\<rparr>) = get_field s"
  "get_field (s\<lparr>free_list_size := c\<rparr>) = get_field s"
  "get_field (s\<lparr>alloc_list_size := c\<rparr>) = get_field s"
  by (simp_all add: get_field_def fun_eq_iff)

lemma links_globals [simp]:
  "links get_field (s\<lparr>free_head := a\<rparr>) = links get_field s"
  "links get_field (s\<lparr>free_tail := a\<rparr>) = links get_field s"
  "links get_field (s\<lparr>alloc_head := a\<rparr>) = links get_field s"
  "links get_field (s\<lparr>alloc_tail := a\<rparr>) = links get_field s"
  "links get_field (s\<lparr>free_list_size := c\<rparr>) = links get_field s"
  "links get_field (s\<lparr>alloc_list_size := c\<rparr>) = links get_field s"
  by (simp_all add: links_def fun_eq_iff)

section \<open>The representation of the two lists\<close>

text \<open>\<open>heap_lists s F A\<close>: the globals and the headers of \<open>s\<close> represent the free list \<open>F\<close> and the
  allocated list \<open>A\<close>.\<close>

definition heap_lists :: "heap \<Rightarrow> u64 list \<Rightarrow> u64 list \<Rightarrow> bool" where
  "heap_lists s F A \<longleftrightarrow>
     links get_field s F \<and> free_head s = hd (F @ [0]) \<and> free_tail s = last (0 # F) \<and>
     free_list_size s = of_nat (length F) \<and>
     links get_field s A \<and> alloc_head s = hd (A @ [0]) \<and> alloc_tail s = last (0 # A) \<and>
     alloc_list_size s = of_nat (length A) \<and> apart node_sep (F @ A)"

text \<open>\<open>same_data N s s'\<close>: the \<open>size\<close> and \<open>alloc_bytes\<close> fields of the headers \<open>N\<close> are unchanged;
  \<open>touches N s s'\<close>: only bytes in the headers of \<open>N\<close> differ.\<close>

definition same_data :: "u64 set \<Rightarrow> heap \<Rightarrow> heap \<Rightarrow> bool" where
  "same_data N s s' \<longleftrightarrow> (\<forall>a\<in>N. get_field s' a Size = get_field s a Size \<and>
     get_field s' a Alloc_bytes = get_field s a Alloc_bytes)"

definition touches :: "u64 set \<Rightarrow> heap \<Rightarrow> heap \<Rightarrow> bool" where
  "touches N s s' \<longleftrightarrow> (\<forall>x. (\<forall>a\<in>N. x \<notin> header_bytes a) \<longrightarrow> bytes s' x = bytes s x)"

lemma touches_refl [simp, intro]: "touches N s s"
  by (simp add: touches_def)

lemma touches_globals [simp]:
  "touches N s (t\<lparr>free_head := a\<rparr>) = touches N s t" "touches N s (t\<lparr>free_tail := a\<rparr>) = touches N s t"
  "touches N s (t\<lparr>alloc_head := a\<rparr>) = touches N s t" "touches N s (t\<lparr>alloc_tail := a\<rparr>) = touches N s t"
  "touches N s (t\<lparr>free_list_size := c\<rparr>) = touches N s t"
  "touches N s (t\<lparr>alloc_list_size := c\<rparr>) = touches N s t"
  by (simp_all add: touches_def)

lemma touches_put [intro]:
  "touches N s t \<Longrightarrow> p \<in> N \<Longrightarrow> node_ok p \<Longrightarrow> touches N s (put_field p f v t)"
  by (auto simp: touches_def put_field_frame)

lemma touches_trans: "touches N s t \<Longrightarrow> touches M t u \<Longrightarrow> touches (N \<union> M) s u"
  by (auto simp: touches_def)

lemma touches_mono: "touches N s t \<Longrightarrow> N \<subseteq> M \<Longrightarrow> touches M s t"
  by (auto simp: touches_def)

lemma apart_subset: "apart sep xs \<Longrightarrow> set ys \<subseteq> set xs \<Longrightarrow> distinct ys \<Longrightarrow> apart sep ys"
  by (auto simp: apart_def)

lemma apart_node_ok: "apart node_sep xs \<Longrightarrow> a \<in> set xs \<Longrightarrow> node_ok a"
  by (auto simp: apart_def node_sep_def)

lemma apart_sep: "apart node_sep xs \<Longrightarrow> a \<in> set xs \<Longrightarrow> b \<in> set xs \<Longrightarrow> node_sep a b"
  by (auto simp: apart_def)

lemma get_field_bytes: "bytes s = bytes t \<Longrightarrow> get_field s = get_field t"
  unfolding get_field_def by (intro ext) simp

lemma links_bytes: "bytes s = bytes t \<Longrightarrow> links get_field s = links get_field t"
  by (rule ext) (simp add: links_def get_field_bytes [of s t])

section \<open>Unlinking a node\<close>

lemma links_unlink:
  assumes "links get_field s (xs @ n # ys)" and "apart node_sep (xs @ n # ys)"
  shows "links get_field (unlink (last (0 # xs)) (hd (ys @ [0])) s) (xs @ ys)"
proof (cases xs rule: rev_cases)
  case Nil
  show ?thesis
  proof (cases ys)
    case (Cons q vs)
    then have "q \<noteq> 0"
      using assms(2) by (auto simp: apart_def)
    then show ?thesis
      using assms Nil Cons es.links_unlink_head [of s n q vs] by (simp add: unlink_def)
  qed (simp add: Nil unlink_def links_def)
next
  case (snoc us p)
  have p: "p \<noteq> 0"
    using assms(2) snoc by (auto simp: apart_def)
  show ?thesis
  proof (cases ys)
    case Nil
    then show ?thesis
      using assms p snoc es.links_unlink_last [of s us p n] by (simp add: unlink_def)
  next
    case (Cons q vs)
    then have "q \<noteq> 0"
      using assms(2) by (auto simp: apart_def)
    then show ?thesis
      using assms p snoc Cons es.links_unlink_mid [of s us p n q vs] by (simp add: unlink_def)
  qed
qed

lemma unlink_ends:
  assumes "apart node_sep (xs @ ys @ A)"
  shows "last (0 # xs) \<noteq> 0 \<Longrightarrow> last (0 # xs) \<in> set xs" and "hd (ys @ [0]) \<noteq> 0 \<Longrightarrow> hd (ys @ [0]) \<in> set ys"
  by (auto simp: hd_append split: if_splits)

lemma links_unlink_other:
  assumes "links get_field s A" and "apart node_sep (xs @ ys @ A)"
  shows "links get_field (unlink (last (0 # xs)) (hd (ys @ [0])) s) A"
proof -
  have frame: "links get_field (put_field p f v t) A"
    if "p \<in> set (xs @ ys)" "links get_field t A" for p f v t
    using that apart_sep [OF assms(2)] assms(2) by (intro es.links_frame) (auto simp: apart_def)
  show ?thesis
    using assms(1) unlink_ends [OF assms(2)] by (auto simp: unlink_def Let_def intro!: frame)
qed

lemma unlink_data:
  assumes "apart node_sep (xs @ ys @ A)" and "N \<subseteq> set (xs @ ys @ A)"
  shows "same_data N s (unlink (last (0 # xs)) (hd (ys @ [0])) s)"
proof -
  have "node_sep p a" if "p \<in> set (xs @ ys)" "a \<in> N" for p a
    using apart_sep [OF assms(1)] that assms(2) by auto
  then show ?thesis
    using unlink_ends [OF assms(1)] by (auto simp: same_data_def unlink_def Let_def es.get_put)
qed

lemma unlink_touches:
  assumes "apart node_sep (xs @ ys @ A)"
  shows "touches (set (xs @ ys)) s (unlink (last (0 # xs)) (hd (ys @ [0])) s)"
  using unlink_ends [OF assms] apart_node_ok [OF assms]
  by (auto simp: unlink_def Let_def intro!: touches_put)

lemma unlink_globals [simp]:
  "free_head (unlink p q s) = free_head s" "free_tail (unlink p q s) = free_tail s"
  "alloc_head (unlink p q s) = alloc_head s" "alloc_tail (unlink p q s) = alloc_tail s"
  "free_list_size (unlink p q s) = free_list_size s"
  "alloc_list_size (unlink p q s) = alloc_list_size s"
  by (simp_all add: unlink_def Let_def)

lemma unlink_update_globals [simp]:
  "unlink p q (s\<lparr>free_head := a\<rparr>) = (unlink p q s)\<lparr>free_head := a\<rparr>"
  "unlink p q (s\<lparr>free_tail := a\<rparr>) = (unlink p q s)\<lparr>free_tail := a\<rparr>"
  "unlink p q (s\<lparr>alloc_head := a\<rparr>) = (unlink p q s)\<lparr>alloc_head := a\<rparr>"
  "unlink p q (s\<lparr>alloc_tail := a\<rparr>) = (unlink p q s)\<lparr>alloc_tail := a\<rparr>"
  by (simp_all add: unlink_def Let_def)

lemma ends_of_list:
  assumes "distinct (xs @ n # ys)"
  shows "n = hd ((xs @ n # ys) @ [0]) \<longleftrightarrow> xs = []" and "n = last (0 # xs @ n # ys) \<longleftrightarrow> ys = []"
  using assms by (cases xs; auto)+

lemma remove_list_free:
  assumes "heap_lists s (xs @ n # ys) A"
  shows "heap_lists (remove_list n True s) (xs @ ys) A"
    and "same_data (set (xs @ n # ys @ A)) s (remove_list n True s)"
    and "touches (set (xs @ ys)) s (remove_list n True s)"
proof -
  have ap: "apart node_sep (xs @ n # ys @ A)"
    using assms by (simp add: heap_lists_def)
  have ap1: "apart node_sep (xs @ n # ys)" "apart node_sep (xs @ ys @ A)"
    "apart node_sep (xs @ ys @ n # A)"
    using ap by (auto simp: apart_def)
  have lk: "links get_field s (xs @ n # ys)" "links get_field s A"
    using assms by (simp_all add: heap_lists_def)
  note nb = es.links_neighbours [OF lk(1)]
  have d: "distinct (xs @ n # ys)"
    using ap1(1) by (simp add: apart_def)
  show "heap_lists (remove_list n True s) (xs @ ys) A"
    using assms links_unlink [OF lk(1) ap1(1)] links_unlink_other [OF lk(2) ap1(2)] ap1(2)
      ends_of_list [OF d]
    by (auto simp: remove_list_def Let_def nb heap_lists_def hd_append)
  show "same_data (set (xs @ n # ys @ A)) s (remove_list n True s)"
    using unlink_data [OF ap1(3), of "set (xs @ n # ys @ A)" s]
    by (auto simp: remove_list_def Let_def nb same_data_def)
  show "touches (set (xs @ ys)) s (remove_list n True s)"
    using unlink_touches [OF ap1(2), of s]
    by (auto simp: remove_list_def Let_def nb)
qed

lemma remove_list_alloc:
  assumes "heap_lists s F (xs @ n # ys)"
  shows "heap_lists (remove_list n False s) F (xs @ ys)"
    and "same_data (set (xs @ n # ys @ F)) s (remove_list n False s)"
    and "touches (set (xs @ ys)) s (remove_list n False s)"
proof -
  have ap: "apart node_sep (xs @ n # ys @ F)"
    using assms by (auto simp: heap_lists_def apart_def)
  have ap1: "apart node_sep (xs @ n # ys)" "apart node_sep (xs @ ys @ F)"
    "apart node_sep (xs @ ys @ n # F)"
    using ap by (auto simp: apart_def)
  have apF: "apart node_sep (F @ xs @ ys)"
    using ap by (auto simp: apart_def)
  have lk: "links get_field s (xs @ n # ys)" "links get_field s F"
    using assms by (simp_all add: heap_lists_def)
  note nb = es.links_neighbours [OF lk(1)]
  have d: "distinct (xs @ n # ys)"
    using ap1(1) by (simp add: apart_def)
  show "heap_lists (remove_list n False s) F (xs @ ys)"
    using assms links_unlink [OF lk(1) ap1(1)] links_unlink_other [OF lk(2) ap1(2)] apF
      ends_of_list [OF d]
    by (auto simp: remove_list_def Let_def nb heap_lists_def hd_append)
  show "same_data (set (xs @ n # ys @ F)) s (remove_list n False s)"
    using unlink_data [OF ap1(3), of "set (xs @ n # ys @ F)" s]
    by (auto simp: remove_list_def Let_def nb same_data_def)
  show "touches (set (xs @ ys)) s (remove_list n False s)"
    using unlink_touches [OF ap1(2), of s]
    by (auto simp: remove_list_def Let_def nb)
qed

section \<open>Linking a node in\<close>

text \<open>The pointer writes of \<open>append_list_ordered\<close> that put \<open>n\<close> between \<open>xs\<close> and \<open>ys\<close>, one branch for
  each of the four shapes of the source.\<close>

definition link_in :: "u64 \<Rightarrow> u64 list \<Rightarrow> u64 list \<Rightarrow> heap \<Rightarrow> heap" where
  "link_in n xs ys s =
     (if xs = [] then
        if ys = [] then put_field n Next 0 (put_field n Prev 0 s)
        else put_field (hd ys) Prev n (put_field n Next (hd ys) (put_field n Prev 0 s))
      else if ys = [] then insert_last n (last xs) s
      else insert_between n (last xs) (hd ys) s)"

lemma links_link_in:
  assumes "links get_field s (xs @ ys)" and "apart node_sep (n # xs @ ys)"
  shows "links get_field (link_in n xs ys s) (xs @ n # ys)"
proof (cases xs rule: rev_cases)
  case Nil
  then show ?thesis
    using assms es.links_insert_first [of n s] es.links_insert_head [of s "hd ys" "tl ys" n]
    by (cases ys) (auto simp: link_in_def apart_def)
next
  case (snoc us p)
  then show ?thesis
    using assms es.links_insert_last [of s us p n] es.links_insert_mid [of s us p "hd ys" "tl ys" n]
    by (cases ys) (auto simp: link_in_def insert_last_def insert_between_def)
qed

lemma link_in_ends:
  "xs \<noteq> [] \<Longrightarrow> last xs \<in> set (n # xs @ ys)" "ys \<noteq> [] \<Longrightarrow> hd ys \<in> set (n # xs @ ys)"
  by auto

lemma links_link_in_other:
  assumes "links get_field s A" and "apart node_sep (n # xs @ ys @ A)"
  shows "links get_field (link_in n xs ys s) A"
proof -
  have frame: "links get_field (put_field p f v t) A"
    if "links get_field t A" "p \<in> set (n # xs @ ys)" for p f v t
    using that apart_sep [OF assms(2)] assms(2) by (intro es.links_frame) (auto simp: apart_def)
  show ?thesis
    using assms(1) unfolding link_in_def insert_last_def insert_between_def
    by (auto intro!: frame)
qed

lemma link_in_data:
  assumes "apart node_sep (n # xs @ ys @ A)" and "N \<subseteq> set (n # xs @ ys @ A)"
  shows "same_data N s (link_in n xs ys s)"
proof -
  have sep: "node_sep p a" if "p \<in> set (n # xs @ ys)" "a \<in> N" for p a
    using apart_sep [OF assms(1)] that assms(2) by auto
  show ?thesis
    using sep by (auto simp: same_data_def link_in_def insert_last_def insert_between_def es.get_put)
qed

lemma link_in_touches:
  assumes "apart node_sep (n # xs @ ys)"
  shows "touches (set (n # xs @ ys)) s (link_in n xs ys s)"
  using apart_node_ok [OF assms]
  by (auto simp: link_in_def insert_last_def insert_between_def intro!: touches_put)

section \<open>Where the scanning loops stop\<close>

lemma free_position_stops:
  assumes "dseg (\<lambda>a. get_field s a Next) pv q (p # vs) 0" and "p < n" and "0 \<notin> set vs"
    and "n \<notin> set vs" and "sorted_wrt (<) vs"
  shows "free_position s n p (hd (vs @ [0])) =
     Some (last (p # takeWhile (\<lambda>a. a < n) vs), hd (dropWhile (\<lambda>a. a < n) vs @ [0]))"
  using assms
proof (induction vs arbitrary: p q)
  case Nil
  then show ?case
    by (simp add: free_position.simps)
next
  case (Cons v vs)
  then have nx: "get_field s v Next = hd (vs @ [0])" and v: "v \<noteq> 0" and ne: "n \<noteq> v"
    by auto
  show ?case
  proof (cases "v < n")
    case True
    then have "\<not> n < v"
      by simp
    then show ?thesis
      using True Cons.prems Cons.IH [where p = v and q = p] nx v
      by (simp add: free_position.simps [of s n p v])
  next
    case False
    then show ?thesis
      using Cons.prems v ne by (auto simp: free_position.simps [of s n p v])
  qed
qed

lemma alloc_position_stops:
  assumes "dseg (\<lambda>a. get_field s a Next) pv q (p # vs) 0" and "b \<le> get_field s p Alloc_bytes"
    and "0 \<notin> set vs"
  shows "alloc_position s b p (hd (vs @ [0])) =
     Some (last (p # takeWhile (\<lambda>a. b \<le> get_field s a Alloc_bytes) vs),
           hd (dropWhile (\<lambda>a. b \<le> get_field s a Alloc_bytes) vs @ [0]))"
  using assms
proof (induction vs arbitrary: p q)
  case Nil
  then show ?case
    by (simp add: alloc_position.simps)
next
  case (Cons v vs)
  then have nx: "get_field s v Next = hd (vs @ [0])" and v: "v \<noteq> 0"
    by auto
  show ?case
  proof (cases "b \<le> get_field s v Alloc_bytes")
    case True
    then have "\<not> get_field s v Alloc_bytes < b"
      by simp
    then show ?thesis
      using True Cons.prems Cons.IH [where p = v and q = p] nx v
      by (simp add: alloc_position.simps [of s b p v])
  next
    case False
    then show ?thesis
      using Cons.prems v by (auto simp: alloc_position.simps [of s b p v])
  qed
qed

lemma search_free_stops:
  assumes "dseg (\<lambda>a. get_field s a Next) pv q xs 0" and "0 \<notin> set xs"
  shows "search_free_from s b (hd (xs @ [0])) =
     Some (hd (filter (\<lambda>a. b \<le> get_field s a Size) xs @ [0]))"
  using assms
proof (induction xs arbitrary: q)
  case Nil
  then show ?case
    by (simp add: search_free_from.simps)
next
  case (Cons v vs)
  then show ?case
    by (cases "b \<le> get_field s v Size") (auto simp: search_free_from.simps [of s b v])
qed

section \<open>The operations refine list operations\<close>

text \<open>The position at which \<open>append_list_ordered\<close> inserts: after the longest prefix that
  satisfies the order test.\<close>

definition insert_where :: "('a \<Rightarrow> bool) \<Rightarrow> 'a \<Rightarrow> 'a list \<Rightarrow> 'a list" where
  "insert_where P n xs = takeWhile P xs @ n # dropWhile P xs"

lemma insert_where_Nil [simp]: "insert_where P n [] = [n]"
  by (simp add: insert_where_def)

lemma insert_where_Cons [simp]:
  "insert_where P n (x # xs) = (if P x then x # insert_where P n xs else n # x # xs)"
  by (simp add: insert_where_def)

lemma mset_insert_where: "mset (insert_where P n xs) = add_mset n (mset xs)"
  by (induction xs) auto

lemma set_insert_where [simp]: "set (insert_where P n xs) = insert n (set xs)"
  using arg_cong [OF mset_insert_where, of set_mset P n xs] by simp

lemma length_insert_where [simp]: "length (insert_where P n xs) = Suc (length xs)"
  using arg_cong [OF mset_insert_where, of size P n xs] by simp

lemma distinct_insert_where [simp]:
  "distinct (insert_where P n xs) \<longleftrightarrow> n \<notin> set xs \<and> distinct xs"
  using mset_eq_imp_distinct_iff [of "insert_where P n xs" "n # xs"]
  by (simp add: mset_insert_where)

lemma sorted_insert_where:
  assumes "sorted_wrt R xs" and "transp R" and "\<forall>x\<in>set xs. if P x then R x n else R n x"
  shows "sorted_wrt R (insert_where P n xs)"
  using assms by (induction xs) (auto dest: transpD split: if_splits)

lemma map_insert_where:
  "(\<And>x. x \<in> set xs \<Longrightarrow> P x = Q (f x)) \<Longrightarrow> map f (insert_where P n xs) = insert_where Q (f n) (map f xs)"
  by (induction xs) auto

lemma hd_snoc_zero: "0 \<notin> set xs \<Longrightarrow> hd (xs @ [0]) = 0 \<longleftrightarrow> xs = []"
  by (cases xs) auto

lemma zero_notin_dropWhile: "0 \<notin> set xs \<Longrightarrow> 0 \<notin> set (dropWhile P xs)"
  using set_dropWhileD by fastforce

lemma append_list_ordered_free_writes:
  assumes hl: "heap_lists s F A" and ap: "apart node_sep (n # F @ A)" and so: "sorted_wrt (<) F"
  defines "xs \<equiv> takeWhile (\<lambda>a. a < n) F" and "ys \<equiv> dropWhile (\<lambda>a. a < n) F"
  shows "\<exists>t. append_list_ordered n sz b True s = Some t \<and>
    bytes t = bytes (link_in n xs ys (put_field n Size sz s)) \<and>
    free_head t = hd (xs @ [n]) \<and> free_tail t = last (n # ys) \<and>
    free_list_size t = free_list_size s + 1 \<and>
    alloc_head t = alloc_head s \<and> alloc_tail t = alloc_tail s \<and>
    alloc_list_size t = alloc_list_size s"
proof (cases F)
  case Nil
  then show ?thesis
    using hl by (simp add: append_list_ordered_def heap_lists_def xs_def ys_def link_in_def)
next
  case (Cons p vs)
  have h: "free_head s = p" "p \<noteq> 0" "n \<noteq> p" "free_tail s = last (p # vs)"
    using hl ap Cons by (auto simp: heap_lists_def apart_def)
  show ?thesis
  proof (cases "n < p")
    case True
    then have "\<not> p < n"
      by simp
    then show ?thesis
      using True h Cons hl
      by (simp add: append_list_ordered_def xs_def ys_def link_in_def heap_lists_def)
  next
    case False
    then have lt: "p < n"
      using h(3) by simp
    let ?s = "(put_field n Size sz s)\<lparr>free_list_size := free_list_size s + 1\<rparr>"
    have "links get_field ?s F"
      using hl ap apart_sep [OF ap] by (auto simp: heap_lists_def apart_def intro!: es.links_frame)
    then have "free_position ?s n p (hd (vs @ [0])) =
        Some (last (p # takeWhile (\<lambda>a. a < n) vs), hd (dropWhile (\<lambda>a. a < n) vs @ [0]))"
      using ap so Cons lt
      by (intro free_position_stops [where pv = "\<lambda>a. get_field ?s a Prev" and q = 0])
        (auto simp: links_def apart_def)
    moreover have "get_field ?s p Next = hd (vs @ [0])"
      using \<open>links get_field ?s F\<close> Cons by (simp add: links_def)
    moreover have "hd (dropWhile (\<lambda>a. a < n) vs @ [0]) = 0 \<longleftrightarrow> ys = []"
      using ap Cons lt by (simp add: ys_def hd_snoc_zero zero_notin_dropWhile apart_def)
    ultimately show ?thesis
      using False lt h Cons
      by (auto simp: append_list_ordered_def xs_def ys_def link_in_def insert_last_def
          insert_between_def dropWhile_last)
  qed
qed

lemma append_list_ordered_alloc_writes:
  fixes b :: u64
  assumes hl: "heap_lists s F A" and ap: "apart node_sep (n # A @ F)"
  defines "P \<equiv> \<lambda>a. b \<le> get_field s a Alloc_bytes"
  defines "xs \<equiv> takeWhile P A" and "ys \<equiv> dropWhile P A"
  shows "\<exists>t. append_list_ordered n sz b False s = Some t \<and>
    bytes t = bytes (link_in n xs ys (put_field n Alloc_bytes b (put_field n Size sz s))) \<and>
    alloc_head t = hd (xs @ [n]) \<and> alloc_tail t = last (n # ys) \<and>
    alloc_list_size t = alloc_list_size s + 1 \<and>
    free_head t = free_head s \<and> free_tail t = free_tail s \<and>
    free_list_size t = free_list_size s"
proof (cases A)
  case Nil
  then show ?thesis
    using hl by (simp add: append_list_ordered_def heap_lists_def xs_def ys_def link_in_def)
next
  case (Cons p vs)
  have h: "alloc_head s = p" "p \<noteq> 0" "n \<noteq> p" "alloc_tail s = last (p # vs)"
    using hl ap Cons by (auto simp: heap_lists_def apart_def)
  let ?s = "(put_field n Alloc_bytes b (put_field n Size sz s))\<lparr>alloc_list_size := alloc_list_size s + 1\<rparr>"
  have get: "get_field ?s a f = get_field s a f" if "a \<in> set A" for a f
    using that ap apart_sep [OF ap] by (auto simp: es.get_put apart_def)
  have lk: "links get_field ?s A"
    using hl ap apart_sep [OF ap]
    by (auto simp: heap_lists_def apart_def intro!: es.links_frame)
  show ?thesis
  proof (cases "P p")
    case False
    then have "b > get_field ?s p Alloc_bytes"
      using Cons get by (simp add: P_def)
    then show ?thesis
      using False h Cons hl
      by (simp add: append_list_ordered_def xs_def ys_def link_in_def heap_lists_def)
  next
    case True
    have P: "P a = (b \<le> get_field ?s a Alloc_bytes)" if "a \<in> set A" for a
      using get that by (simp add: P_def)
    have "alloc_position ?s b p (hd (vs @ [0])) =
        Some (last (p # takeWhile (\<lambda>a. b \<le> get_field ?s a Alloc_bytes) vs),
              hd (dropWhile (\<lambda>a. b \<le> get_field ?s a Alloc_bytes) vs @ [0]))"
      using ap Cons lk True P [of p]
      by (intro alloc_position_stops [where pv = "\<lambda>a. get_field ?s a Prev" and q = 0])
        (auto simp: links_def apart_def)
    moreover have "takeWhile (\<lambda>a. b \<le> get_field ?s a Alloc_bytes) vs = takeWhile P vs"
      using P Cons by (intro takeWhile_cong) auto
    moreover have "dropWhile (\<lambda>a. b \<le> get_field ?s a Alloc_bytes) vs = dropWhile P vs"
      using P Cons by (intro dropWhile_cong) auto
    ultimately have "alloc_position ?s b p (hd (vs @ [0])) =
        Some (last (p # takeWhile P vs), hd (dropWhile P vs @ [0]))"
      by simp
    moreover have "get_field ?s p Next = hd (vs @ [0])"
      using lk Cons by (simp add: links_def)
    moreover have "hd (dropWhile P vs @ [0]) = 0 \<longleftrightarrow> ys = []"
      using ap Cons True by (simp add: ys_def hd_snoc_zero zero_notin_dropWhile apart_def)
    moreover have "\<not> get_field ?s p Alloc_bytes < b"
      using True P [of p] Cons by simp
    ultimately show ?thesis
      using True h Cons
      by (auto simp: append_list_ordered_def xs_def ys_def link_in_def insert_last_def
          insert_between_def dropWhile_last)
  qed
qed

lemma append_list_ordered_free:
  assumes hl: "heap_lists s F A" and ap: "apart node_sep (n # F @ A)" and so: "sorted_wrt (<) F"
  shows "\<exists>t. append_list_ordered n sz b True s = Some t \<and>
    heap_lists t (insert_where (\<lambda>a. a < n) n F) A \<and>
    (\<forall>a\<in>set (n # F @ A). get_field t a Size = (if a = n then sz else get_field s a Size)) \<and>
    (\<forall>a\<in>set (n # F @ A). get_field t a Alloc_bytes = get_field s a Alloc_bytes) \<and>
    touches (set (n # F)) s t"
proof -
  define xs ys where "xs = takeWhile (\<lambda>a. a < n) F" and "ys = dropWhile (\<lambda>a. a < n) F"
  have F: "F = xs @ ys"
    by (simp add: xs_def ys_def)
  let ?u = "put_field n Size sz s"
  from append_list_ordered_free_writes [OF assms, of sz b] obtain t
    where t: "append_list_ordered n sz b True s = Some t" "bytes t = bytes (link_in n xs ys ?u)"
      "free_head t = hd (xs @ [n])" "free_tail t = last (n # ys)"
      "free_list_size t = free_list_size s + 1" "alloc_head t = alloc_head s"
      "alloc_tail t = alloc_tail s" "alloc_list_size t = alloc_list_size s"
    unfolding xs_def ys_def by blast
  note gt = get_field_bytes [OF t(2)] and lt = links_bytes [OF t(2)]
  have sep: "node_sep n a" if "a \<in> set (n # F @ A)" for a
    using apart_sep [OF ap] that by simp
  have "links get_field ?u (xs @ ys)" "links get_field ?u A"
    using hl ap sep F by (auto simp: heap_lists_def apart_def intro!: es.links_frame)
  moreover have "apart node_sep (n # xs @ ys)" "apart node_sep (n # xs @ ys @ A)"
    using ap F by (auto simp: apart_def)
  ultimately have "links get_field t (xs @ n # ys)" "links get_field t A"
    and td: "touches (set (n # xs @ ys)) ?u t"
    unfolding lt using links_link_in [of ?u xs ys n] links_link_in_other [of ?u A n xs ys]
      link_in_touches [of n xs ys ?u] t(2) by (auto simp: touches_def)
  moreover have "apart node_sep ((xs @ n # ys) @ A)"
    using ap F by (auto simp: apart_def)
  ultimately have "heap_lists t (xs @ n # ys) A"
    using hl t(3-8) F by (auto simp: heap_lists_def hd_append)
  moreover have "same_data (set (n # F @ A)) ?u t"
    using link_in_data [of n xs ys A "set (n # F @ A)" ?u] ap F by (simp add: same_data_def gt)
  moreover have "touches (set (n # F)) s t"
  proof -
    have "touches (set (n # F)) s ?u"
      using apart_node_ok [OF ap] by auto
    then show ?thesis
      using touches_trans [of _ s ?u "set (n # xs @ ys)" t] td F by fastforce
  qed
  ultimately show ?thesis
    using t(1) sep by (auto simp: insert_where_def xs_def ys_def same_data_def es.get_put)
qed

lemma append_list_ordered_alloc:
  assumes hl: "heap_lists s F A" and ap: "apart node_sep (n # A @ F)"
  shows "\<exists>t. append_list_ordered n sz b False s = Some t \<and>
    heap_lists t F (insert_where (\<lambda>a. b \<le> get_field s a Alloc_bytes) n A) \<and>
    (\<forall>a\<in>set (n # A @ F). get_field t a Size = (if a = n then sz else get_field s a Size)) \<and>
    (\<forall>a\<in>set (n # A @ F). get_field t a Alloc_bytes = (if a = n then b else get_field s a Alloc_bytes)) \<and>
    touches (set (n # A)) s t"
proof -
  define xs ys where "xs = takeWhile (\<lambda>a. b \<le> get_field s a Alloc_bytes) A"
    and "ys = dropWhile (\<lambda>a. b \<le> get_field s a Alloc_bytes) A"
  have A: "A = xs @ ys"
    by (simp add: xs_def ys_def)
  let ?u = "put_field n Alloc_bytes b (put_field n Size sz s)"
  from append_list_ordered_alloc_writes [OF assms, of sz b] obtain t
    where t: "append_list_ordered n sz b False s = Some t" "bytes t = bytes (link_in n xs ys ?u)"
      "alloc_head t = hd (xs @ [n])" "alloc_tail t = last (n # ys)"
      "alloc_list_size t = alloc_list_size s + 1" "free_head t = free_head s"
      "free_tail t = free_tail s" "free_list_size t = free_list_size s"
    unfolding xs_def ys_def by blast
  note gt = get_field_bytes [OF t(2)] and lt = links_bytes [OF t(2)]
  have sep: "node_sep n a" if "a \<in> set (n # A @ F)" for a
    using apart_sep [OF ap] that by simp
  have "links get_field ?u (xs @ ys)" "links get_field ?u F"
    using hl ap sep A by (auto simp: heap_lists_def apart_def intro!: es.links_frame)
  moreover have "apart node_sep (n # xs @ ys)" "apart node_sep (n # xs @ ys @ F)"
    using ap A by (auto simp: apart_def)
  ultimately have "links get_field t (xs @ n # ys)" "links get_field t F"
    and td: "touches (set (n # xs @ ys)) ?u t"
    unfolding lt using links_link_in [of ?u xs ys n] links_link_in_other [of ?u F n xs ys]
      link_in_touches [of n xs ys ?u] t(2) by (auto simp: touches_def)
  moreover have "apart node_sep (F @ xs @ n # ys)"
    using ap A by (auto simp: apart_def)
  ultimately have "heap_lists t F (xs @ n # ys)"
    using hl t(3-8) A by (auto simp: heap_lists_def hd_append)
  moreover have "same_data (set (n # A @ F)) ?u t"
    using link_in_data [of n xs ys F "set (n # A @ F)" ?u] ap A by (simp add: same_data_def gt)
  moreover have "touches (set (n # A)) s t"
  proof -
    have "touches (set (n # A)) s ?u"
      using apart_node_ok [OF ap] by auto
    then show ?thesis
      using touches_trans [of _ s ?u "set (n # xs @ ys)" t] td A by fastforce
  qed
  ultimately show ?thesis
    using t(1) sep by (auto simp: insert_where_def xs_def ys_def same_data_def es.get_put)
qed

lemma search_free_first:
  assumes "heap_lists s F A"
  shows "search_free b s = Some (hd (filter (\<lambda>a. b \<le> get_field s a Size) F @ [0]))"
  using assms search_free_stops [of s "\<lambda>a. get_field s a Prev" 0 F b]
  by (auto simp: search_free_def heap_lists_def links_def apart_def)

end
