(* ===== verification/Alloc_Spec.thy ===== *)
theory Alloc_Spec
  imports Elt_Lists
begin

text \<open>
  The abstract specification of the allocator of \<^verbatim>\<open>uspace/malloc.c\<close>: a heap is a list of free
  blocks \<open>(address, size)\<close> in address order and a list of allocated blocks
  \<open>(address, size, requested bytes)\<close> in decreasing order of requested bytes, over natural numbers
  and without memory, pointers or machine words. \<open>layout\<close> is the well-formedness of a set of
  blocks: aligned, large enough for a header, inside the heap and pairwise disjoint. The
  refinement of this specification by the C code is in the theory \<open>Malloc\<close>.
\<close>

type_synonym block = "nat \<times> nat"

record aheap =
  frees :: "block list"
  allocs :: "(nat \<times> nat \<times> nat) list"

section \<open>Operations of the specification\<close>

definition ins_free :: "block \<Rightarrow> block list \<Rightarrow> block list" where
  "ins_free b = insert_where (\<lambda>c. fst c < fst b) b"

definition ins_alloc :: "nat \<times> nat \<times> nat \<Rightarrow> (nat \<times> nat \<times> nat) list \<Rightarrow> (nat \<times> nat \<times> nat) list" where
  "ins_alloc b = insert_where (\<lambda>c. snd (snd b) \<le> snd (snd c)) b"

text \<open>First fit: take the lowest free block that is large enough and split off what remains when
  it can hold a header.\<close>

definition spec_take :: "nat \<Rightarrow> nat \<Rightarrow> aheap \<Rightarrow> (nat \<times> aheap) option" where
  "spec_take req n h =
     (case List.extract (\<lambda>(a, sz). req \<le> sz) (frees h) of
        None \<Rightarrow> None
      | Some (xs, (a, sz), ys) \<Rightarrow>
          if 32 \<le> sz - req
          then Some (a + 32, \<lparr>frees = ins_free (a + req, sz - req) (xs @ ys),
                              allocs = ins_alloc (a, req, n) (allocs h)\<rparr>)
          else Some (a + 32, \<lparr>frees = xs @ ys, allocs = ins_alloc (a, sz, n) (allocs h)\<rparr>))"

text \<open>\<open>spec_malloc limit n (h, brk)\<close>: allocate \<open>n\<close> bytes when the program break is \<open>brk\<close> and may grow
  to below \<open>limit\<close>. The result \<open>0\<close> is the null pointer.\<close>

definition required_size :: "nat \<Rightarrow> nat" where
  "required_size n = round_up_nat (32 + n) 8"

definition chunk_size :: "nat \<Rightarrow> nat" where
  "chunk_size n = round_up_nat (required_size n) 16384"

definition spec_malloc :: "nat \<Rightarrow> nat \<Rightarrow> aheap \<times> nat \<Rightarrow> nat \<times> aheap \<times> nat" where
  "spec_malloc limit n = (\<lambda>(h, brk).
     if n = 0 then (0, h, brk)
     else case spec_take (required_size n) n h of
            Some (r, h') \<Rightarrow> (r, h', brk)
          | None \<Rightarrow>
              if brk + chunk_size n < limit
              then (case spec_take (required_size n) n
                           (h\<lparr>frees := ins_free (brk, chunk_size n) (frees h)\<rparr>) of
                      Some (r, h') \<Rightarrow> (r, h', brk + chunk_size n)
                    | None \<Rightarrow> (0, h, brk))
              else (0, h, brk))"

definition spec_free :: "nat \<Rightarrow> aheap \<Rightarrow> aheap" where
  "spec_free r h =
     (case List.extract (\<lambda>(a, sz, n). a + 32 = r) (allocs h) of
        None \<Rightarrow> h
      | Some (xs, (a, sz, n), ys) \<Rightarrow> \<lparr>frees = ins_free (a, sz) (frees h), allocs = xs @ ys\<rparr>)"

fun coalesce :: "block list \<Rightarrow> block list" where
  "coalesce ((a, m) # (b, n) # bs) =
     (if a + m = b then coalesce ((a, m + n) # bs) else (a, m) # coalesce ((b, n) # bs))"
| "coalesce bs = bs"

definition spec_defrag :: "aheap \<Rightarrow> aheap" where
  "spec_defrag h = h\<lparr>frees := coalesce (frees h)\<rparr>"

section \<open>Well-formed layouts\<close>

definition separate :: "block \<Rightarrow> block \<Rightarrow> bool" where
  "separate b c \<longleftrightarrow> fst b + snd b \<le> fst c \<or> fst c + snd c \<le> fst b"

definition block_ok :: "nat \<Rightarrow> nat \<Rightarrow> block \<Rightarrow> bool" where
  "block_ok lo hi b \<longleftrightarrow>
     lo \<le> fst b \<and> fst b + snd b \<le> hi \<and> 8 dvd fst b \<and> 8 dvd snd b \<and> 32 \<le> snd b"

definition layout :: "nat \<Rightarrow> nat \<Rightarrow> block list \<Rightarrow> bool" where
  "layout lo hi bs \<longleftrightarrow> distinct bs \<and> pairwise separate (set bs) \<and> (\<forall>b\<in>set bs. block_ok lo hi b)"

definition covered :: "block list \<Rightarrow> nat set" where
  "covered bs = (\<Union>b\<in>set bs. {fst b ..< fst b + snd b})"

definition blocks :: "aheap \<Rightarrow> block list" where
  "blocks h = frees h @ map (\<lambda>(a, sz, n). (a, sz)) (allocs h)"

definition wf_heap :: "nat \<Rightarrow> nat \<Rightarrow> aheap \<Rightarrow> bool" where
  "wf_heap lo hi h \<longleftrightarrow>
     layout lo hi (blocks h) \<and>
     sorted_wrt (\<lambda>b c. fst b < fst c) (frees h) \<and>
     sorted_wrt (\<lambda>b c. snd (snd c) \<le> snd (snd b)) (allocs h) \<and>
     (\<forall>(a, sz, n)\<in>set (allocs h). n + 32 \<le> sz)"

lemma separate_sym: "separate b c \<longleftrightarrow> separate c b"
  by (auto simp: separate_def)

lemma layout_mset: "mset bs = mset cs \<Longrightarrow> layout lo hi bs = layout lo hi cs"
  by (metis layout_def mset_eq_imp_distinct_iff mset_eq_setD)

lemma covered_mset: "mset bs = mset cs \<Longrightarrow> covered bs = covered cs"
  by (metis covered_def mset_eq_setD)

lemma layout_Cons:
  "layout lo hi (b # bs) \<longleftrightarrow> block_ok lo hi b \<and> (\<forall>c\<in>set bs. separate b c) \<and> layout lo hi bs"
proof -
  have "b \<notin> set bs" if "block_ok lo hi b" "\<forall>c\<in>set bs. separate b c"
    using that by (auto simp: separate_def block_ok_def)
  moreover have "pairwise separate (insert b (set bs)) \<longleftrightarrow>
      pairwise separate (set bs) \<and> (\<forall>c\<in>set bs. b \<noteq> c \<longrightarrow> separate b c)"
    by (auto simp: pairwise_insert separate_sym)
  ultimately show ?thesis
    unfolding layout_def by auto
qed

lemma covered_Cons [simp]: "covered (b # bs) = {fst b ..< fst b + snd b} \<union> covered bs"
  by (simp add: covered_def)

lemma covered_append [simp]: "covered (bs @ cs) = covered bs \<union> covered cs"
  by (simp add: covered_def)

lemma covered_Nil [simp]: "covered [] = {}"
  by (simp add: covered_def)

lemma layout_Nil [simp]: "layout lo hi []"
  by (simp add: layout_def)

lemma layout_split:
  assumes "layout lo hi ((a, sz) # bs)" and "8 dvd r" and "32 \<le> r" and "32 \<le> sz - r"
  shows "layout lo hi ((a, r) # (a + r, sz - r) # bs)"
  using assms by (auto simp: layout_Cons block_ok_def separate_def)

lemma layout_block_ok: "layout lo hi bs \<Longrightarrow> b \<in> set bs \<Longrightarrow> block_ok lo hi b"
  by (simp add: layout_def)

lemma separate_merge:
  "separate (a, m) c \<Longrightarrow> separate (a + m, n) c \<Longrightarrow> 0 < snd c \<Longrightarrow> separate (a, m + n) c"
  by (auto simp: separate_def)

lemma layout_merge:
  assumes "layout lo hi ((a, m) # (a + m, n) # bs)"
  shows "layout lo hi ((a, m + n) # bs)"
proof -
  have "separate (a, m + n) c" if "c \<in> set bs" for c
    using assms that layout_block_ok [of lo hi bs c]
    by (intro separate_merge) (auto simp: layout_Cons block_ok_def)
  then show ?thesis
    using assms by (auto simp: layout_Cons block_ok_def)
qed

lemma layout_extend:
  assumes "layout lo hi bs" and "lo \<le> hi" and "8 dvd hi" and "8 dvd c" and "32 \<le> c"
  shows "layout lo (hi + c) ((hi, c) # bs)"
  using assms by (auto simp: layout_def layout_Cons block_ok_def separate_def pairwise_def)

lemma layout_mono: "layout lo hi bs \<Longrightarrow> hi \<le> hi' \<Longrightarrow> layout lo hi' bs"
  by (auto simp: layout_def block_ok_def)

lemma layout_append_Cons: "layout lo hi (xs @ b # ys) \<longleftrightarrow> layout lo hi (b # xs @ ys)"
  by (rule layout_mset) simp

lemma covered_split:
  "r \<le> sz \<Longrightarrow> covered ((a, r) # (a + r, sz - r) # bs) = covered ((a, sz) # bs)"
  using ivl_disj_un_two(3) [of a "a + r" "a + sz"] by (simp add: Un_assoc [symmetric])

lemma covered_merge:
  "covered ((a, m) # (a + m, n) # bs) = covered ((a, m + n) # bs)"
  using covered_split [of m "m + n" a bs] by simp

section \<open>Sorted insertion\<close>

lemma ins_free_sorted:
  assumes "sorted_wrt (\<lambda>b c. fst b < fst c) fs" and "\<forall>c\<in>set fs. fst c \<noteq> fst b"
  shows "sorted_wrt (\<lambda>b c. fst b < fst c) (ins_free b fs)"
  using assms unfolding ins_free_def by (intro sorted_insert_where) (auto simp: transp_def)

lemma ins_alloc_sorted:
  assumes "sorted_wrt (\<lambda>b c. snd (snd c) \<le> snd (snd b)) as"
  shows "sorted_wrt (\<lambda>b c. snd (snd c) \<le> snd (snd b)) (ins_alloc b as)"
  using assms unfolding ins_alloc_def by (intro sorted_insert_where) (auto simp: transp_def)

lemma mset_ins_free [simp]: "mset (ins_free b fs) = add_mset b (mset fs)"
  by (simp add: ins_free_def mset_insert_where)

lemma mset_ins_alloc [simp]: "mset (ins_alloc b as) = add_mset b (mset as)"
  by (simp add: ins_alloc_def mset_insert_where)

lemma set_ins_free [simp]: "set (ins_free b fs) = insert b (set fs)"
  by (simp add: ins_free_def)

lemma set_ins_alloc [simp]: "set (ins_alloc b as) = insert b (set as)"
  by (simp add: ins_alloc_def)

lemma mset_blocks:
  "mset (blocks h) = mset (frees h) + image_mset (\<lambda>(a, sz, n). (a, sz)) (mset (allocs h))"
  by (simp add: blocks_def)

lemma layout_distinct_starts:
  assumes "layout lo hi (b # bs)" and "c \<in> set bs"
  shows "fst c \<noteq> fst b"
  using assms layout_block_ok [of lo hi bs c] by (auto simp: layout_Cons separate_def block_ok_def)

section \<open>The operations keep a heap well formed\<close>

lemma sorted_append_remove: "sorted_wrt R (xs @ b # ys) \<Longrightarrow> sorted_wrt R (xs @ ys)"
  by (simp add: sorted_wrt_append)

lemma extract_parts:
  "List.extract P zs = Some (xs, y, ys) \<Longrightarrow> zs = xs @ y # ys \<and> P y \<and> (\<forall>x\<in>set xs. \<not> P x)"
  by (simp add: extract_Some_iff)

lemma required_size_props:
  "8 dvd required_size n" "n + 32 \<le> required_size n" "required_size n < n + 40"
  using round_up_nat_ge [of 8 "32 + n"] round_up_nat_less [of 8 "32 + n"]
  by (simp_all add: required_size_def)

lemma spec_take_wf:
  assumes wf: "wf_heap lo hi h" and req: "8 dvd req" "n + 32 \<le> req"
    and take: "spec_take req n h = Some (r, h')"
  shows "wf_heap lo hi h'" and "covered (blocks h') = covered (blocks h)"
proof -
  from take obtain xs a sz ys where ex: "List.extract (\<lambda>(a, sz). req \<le> sz) (frees h) = Some (xs, (a, sz), ys)"
    by (auto simp: spec_take_def split: option.splits prod.splits)
  from extract_parts [OF this] have fr: "frees h = xs @ (a, sz) # ys" and le: "req \<le> sz"
    by auto
  let ?rest = "xs @ ys @ map (\<lambda>(a, sz, n). (a, sz)) (allocs h)"
  have lay: "layout lo hi ((a, sz) # ?rest)"
    using wf fr layout_append_Cons by (simp add: wf_heap_def blocks_def)
  have msh: "mset (blocks h) = mset ((a, sz) # ?rest)"
    by (simp add: mset_blocks fr)
  have "sorted_wrt (\<lambda>b c. fst b < fst c) (xs @ (a, sz) # ys)"
    using wf fr by (simp add: wf_heap_def)
  then have so: "sorted_wrt (\<lambda>b c. fst b < fst c) (xs @ ys)"
    by (rule sorted_append_remove)
  have "wf_heap lo hi h' \<and> covered (blocks h') = covered (blocks h)"
  proof (cases "32 \<le> sz - req")
    case True
    then have h': "h' = \<lparr>frees = ins_free (a + req, sz - req) (xs @ ys),
                          allocs = ins_alloc (a, req, n) (allocs h)\<rparr>"
      using take ex by (simp add: spec_take_def)
    have lay2: "layout lo hi ((a, req) # (a + req, sz - req) # ?rest)"
      using layout_split [OF lay] req True by auto
    have ms: "mset (blocks h') = mset ((a, req) # (a + req, sz - req) # ?rest)"
      by (simp add: h' mset_blocks)
    have "fst c \<noteq> a + req" if "c \<in> set (xs @ ys)" for c
      using lay2 that layout_distinct_starts [of lo hi "(a + req, sz - req)" ?rest c]
      by (auto simp: layout_Cons)
    then have "sorted_wrt (\<lambda>b c. fst b < fst c) (frees h')"
      using so by (simp add: h' ins_free_sorted)
    then have "wf_heap lo hi h'"
      using wf lay2 layout_mset [OF ms] req(2) ins_alloc_sorted by (auto simp: wf_heap_def h')
    moreover have "covered (blocks h') = covered (blocks h)"
      using covered_mset [OF ms] covered_mset [OF msh] covered_split [OF le, of a ?rest]
      by (simp only:)
    ultimately show ?thesis ..
  next
    case False
    then have h': "h' = \<lparr>frees = xs @ ys, allocs = ins_alloc (a, sz, n) (allocs h)\<rparr>"
      using take ex by (simp add: spec_take_def)
    have ms: "mset (blocks h') = mset ((a, sz) # ?rest)"
      by (simp add: h' mset_blocks)
    have "wf_heap lo hi h'"
      using wf so lay layout_mset [OF ms] le req(2) ins_alloc_sorted by (auto simp: wf_heap_def h')
    moreover have "covered (blocks h') = covered (blocks h)"
      using covered_mset [OF ms] covered_mset [OF msh] by (simp only:)
    ultimately show ?thesis ..
  qed
  then show "wf_heap lo hi h'" and "covered (blocks h') = covered (blocks h)"
    by auto
qed

lemma spec_extend_wf:
  assumes wf: "wf_heap lo hi h" and "lo \<le> hi" and "8 dvd hi" and "8 dvd c" and "32 \<le> c"
  defines "h' \<equiv> h\<lparr>frees := ins_free (hi, c) (frees h)\<rparr>"
  shows "wf_heap lo (hi + c) h'" and "covered (blocks h') = covered (blocks h) \<union> {hi ..< hi + c}"
proof -
  have ms: "mset (blocks h') = mset ((hi, c) # blocks h)"
    by (simp add: h'_def mset_blocks)
  have lay: "layout lo (hi + c) ((hi, c) # blocks h)"
    using assms by (intro layout_extend) (auto simp: wf_heap_def)
  have "fst d \<noteq> hi" if "d \<in> set (frees h)" for d
    using layout_distinct_starts [OF lay, of d] that by (simp add: blocks_def)
  then show "wf_heap lo (hi + c) h'"
    using wf lay layout_mset [OF ms] by (auto simp: wf_heap_def h'_def ins_free_sorted)
  show "covered (blocks h') = covered (blocks h) \<union> {hi ..< hi + c}"
    using covered_mset [OF ms] by auto
qed

lemma spec_free_wf:
  assumes wf: "wf_heap lo hi h"
  shows "wf_heap lo hi (spec_free r h)" and "covered (blocks (spec_free r h)) = covered (blocks h)"
proof -
  have "wf_heap lo hi (spec_free r h) \<and> covered (blocks (spec_free r h)) = covered (blocks h)"
  proof (cases "List.extract (\<lambda>(a, sz, n). a + 32 = r) (allocs h)")
    case None
    then show ?thesis
      using wf by (simp add: spec_free_def)
  next
    case (Some t)
    then obtain xs a sz n ys where ex: "List.extract (\<lambda>(a, sz, n). a + 32 = r) (allocs h) = Some (xs, (a, sz, n), ys)"
      by (cases t) auto
    from extract_parts [OF this] have al: "allocs h = xs @ (a, sz, n) # ys"
      by simp
    let ?h = "spec_free r h"
    have h': "?h = \<lparr>frees = ins_free (a, sz) (frees h), allocs = xs @ ys\<rparr>"
      using ex by (simp add: spec_free_def)
    let ?rest = "frees h @ map (\<lambda>(a, sz, n). (a, sz)) (xs @ ys)"
    have ms: "mset (blocks ?h) = mset (blocks h)" "mset (blocks h) = mset ((a, sz) # ?rest)"
      by (simp_all add: h' al mset_blocks)
    have lay: "layout lo hi ((a, sz) # ?rest)"
      using wf layout_mset [OF ms(2)] by (simp add: wf_heap_def)
    have "fst d \<noteq> a" if "d \<in> set (frees h)" for d
      using layout_distinct_starts [OF lay, of d] that by simp
    then have "sorted_wrt (\<lambda>b c. fst b < fst c) (frees ?h)"
      using wf by (simp add: h' wf_heap_def ins_free_sorted)
    moreover have "sorted_wrt (\<lambda>b c. snd (snd c) \<le> snd (snd b)) (xs @ (a, sz, n) # ys)"
      using wf al by (simp add: wf_heap_def)
    then have "sorted_wrt (\<lambda>b c. snd (snd c) \<le> snd (snd b)) (allocs ?h)"
      unfolding h' by (simp add: sorted_wrt_append)
    ultimately show ?thesis
      using wf layout_mset [OF ms(1)] covered_mset [OF ms(1)] al by (auto simp: wf_heap_def h')
  qed
  then show "wf_heap lo hi (spec_free r h)"
    and "covered (blocks (spec_free r h)) = covered (blocks h)"
    by auto
qed

lemma coalesce_layout:
  "layout lo hi (bs @ cs) \<Longrightarrow> sorted_wrt (\<lambda>b c. fst b < fst c) bs \<Longrightarrow>
     layout lo hi (coalesce bs @ cs) \<and> covered (coalesce bs) = covered bs \<and>
     sorted_wrt (\<lambda>b c. fst b < fst c) (coalesce bs) \<and> fst ` set (coalesce bs) \<subseteq> fst ` set bs"
proof (induction bs arbitrary: cs rule: coalesce.induct)
  case (1 a m b n bs)
  show ?case
  proof (cases "a + m = b")
    case True
    have "layout lo hi (((a, m + n) # bs) @ cs)"
      using "1.prems"(1) True layout_merge [of lo hi a m n "bs @ cs"] by simp
    moreover have "sorted_wrt (\<lambda>b c. fst b < fst c) ((a, m + n) # bs)"
      using "1.prems"(2) True by auto
    ultimately have "layout lo hi (coalesce ((a, m + n) # bs) @ cs) \<and>
        covered (coalesce ((a, m + n) # bs)) = covered ((a, m + n) # bs) \<and>
        sorted_wrt (\<lambda>b c. fst b < fst c) (coalesce ((a, m + n) # bs)) \<and>
        fst ` set (coalesce ((a, m + n) # bs)) \<subseteq> fst ` set ((a, m + n) # bs)"
      by (rule "1.IH"(1) [OF True])
    then show ?thesis
      using True covered_merge [of a m n bs] by auto
  next
    case False
    have "layout lo hi (((b, n) # bs) @ (a, m) # cs)"
      using "1.prems"(1) layout_append_Cons [of lo hi "(b, n) # bs" "(a, m)" cs] by simp
    then have IH: "layout lo hi (coalesce ((b, n) # bs) @ (a, m) # cs) \<and>
        covered (coalesce ((b, n) # bs)) = covered ((b, n) # bs) \<and>
        sorted_wrt (\<lambda>b c. fst b < fst c) (coalesce ((b, n) # bs)) \<and>
        fst ` set (coalesce ((b, n) # bs)) \<subseteq> fst ` set ((b, n) # bs)"
      using "1.prems"(2) by (intro "1.IH"(2) [OF False]) auto
    then have "layout lo hi (coalesce ((a, m) # (b, n) # bs) @ cs)"
      using False layout_append_Cons [of lo hi "coalesce ((b, n) # bs)" "(a, m)" cs] by simp
    moreover have "a < fst c" if "c \<in> set (coalesce ((b, n) # bs))" for c
    proof -
      have "fst c \<in> fst ` set ((b, n) # bs)"
        using IH that by blast
      then show ?thesis
        using "1.prems"(2) by auto
    qed
    ultimately show ?thesis
      using IH False by auto
  qed
qed simp_all

lemma spec_defrag_wf:
  assumes "wf_heap lo hi h"
  shows "wf_heap lo hi (spec_defrag h)" and "covered (frees (spec_defrag h)) = covered (frees h)"
    and "allocs (spec_defrag h) = allocs h"
  using assms coalesce_layout [of lo hi "frees h" "map (\<lambda>(a, sz, n). (a, sz)) (allocs h)"]
  by (auto simp: wf_heap_def spec_defrag_def blocks_def)

lemma coalesce_hd: "bs \<noteq> [] \<Longrightarrow> coalesce bs \<noteq> [] \<and> fst (hd (coalesce bs)) = fst (hd bs)"
  by (induction bs rule: coalesce.induct) auto

lemma coalesce_successive: "successively (\<lambda>b c. fst b + snd b \<noteq> fst c) (coalesce bs)"
proof (induction bs rule: coalesce.induct)
  case (1 a m b n bs)
  then show ?case
    using coalesce_hd [of "(b, n) # bs"]
    by (cases "a + m = b") (auto simp: successively_Cons)
qed simp_all

lemma successive_not_touching:
  assumes "successively (\<lambda>b c. fst b + snd b \<noteq> fst c) bs" and "layout lo hi bs"
    and "sorted_wrt (\<lambda>b c. fst b < fst c) bs" and "b \<in> set bs" and "c \<in> set bs"
  shows "fst b + snd b \<noteq> fst c"
  using assms
proof (induction bs)
  case (Cons d bs)
  have tl: "successively (\<lambda>b c. fst b + snd b \<noteq> fst c) bs" "layout lo hi bs"
    "sorted_wrt (\<lambda>b c. fst b < fst c) bs"
    using Cons.prems by (auto simp: successively_Cons layout_Cons)
  show ?case
  proof (cases "b = d")
    case True
    show ?thesis
    proof (cases bs)
      case Nil
      then show ?thesis
        using True Cons.prems layout_block_ok [OF Cons.prems(2), of d] by (auto simp: block_ok_def)
    next
      case (Cons e es)
      have "fst d + snd d \<le> fst e"
        using Cons.prems(2,3) \<open>bs = e # es\<close> by (auto simp: layout_Cons separate_def)
      moreover have "c = d \<or> c = e \<or> fst e < fst c"
        using Cons.prems(3,5) \<open>bs = e # es\<close> by auto
      ultimately show ?thesis
        using True Cons.prems(1) \<open>bs = e # es\<close> layout_block_ok [OF Cons.prems(2), of d]
        by (auto simp: block_ok_def)
    qed
  next
    case False
    then have "b \<in> set bs"
      using Cons.prems(4) by simp
    moreover have "fst d < fst b"
      using Cons.prems(3) \<open>b \<in> set bs\<close> by simp
    ultimately show ?thesis
      using Cons.IH [OF tl] Cons.prems(5) by (cases "c = d") auto
  qed
qed simp

lemma spec_defrag_maximal:
  assumes "wf_heap lo hi h" and "b \<in> set (frees (spec_defrag h))" and "c \<in> set (frees (spec_defrag h))"
  shows "fst b + snd b \<noteq> fst c"
proof (rule successive_not_touching [of _ lo hi])
  have wf: "wf_heap lo hi (spec_defrag h)"
    by (rule spec_defrag_wf [OF assms(1)])
  then show "layout lo hi (frees (spec_defrag h))"
    by (auto simp: wf_heap_def blocks_def layout_def intro: pairwise_subset)
  show "sorted_wrt (\<lambda>b c. fst b < fst c) (frees (spec_defrag h))"
    using wf by (simp add: wf_heap_def)
  show "successively (\<lambda>b c. fst b + snd b \<noteq> fst c) (frees (spec_defrag h))"
    by (simp add: spec_defrag_def coalesce_successive)
qed (use assms in simp_all)

lemma coalesce_total: "sum_list (map snd (coalesce bs)) = sum_list (map snd bs)"
  by (induction bs rule: coalesce.induct) auto

section \<open>What malloc promises\<close>

lemma spec_take_result:
  assumes "spec_take req n h = Some (r, h')"
  shows "\<exists>a sz. r = a + 32 \<and> req \<le> sz \<and> allocs h' = ins_alloc (a, sz, n) (allocs h)"
proof -
  from assms obtain xs a sz ys
    where ex: "List.extract (\<lambda>(a, sz). req \<le> sz) (frees h) = Some (xs, (a, sz), ys)"
    by (auto simp: spec_take_def split: option.splits prod.splits)
  then have "req \<le> sz"
    using extract_parts [OF ex] by simp
  then show ?thesis
    using assms ex by (auto simp: spec_take_def split: if_splits)
qed

lemma spec_take_None: "spec_take req n h = None \<longleftrightarrow> (\<forall>(a, sz)\<in>set (frees h). sz < req)"
proof (cases "List.extract (\<lambda>(a, sz). req \<le> sz) (frees h)")
  case None
  then have "spec_take req n h = None"
    by (simp add: spec_take_def)
  moreover have "\<forall>(a, sz)\<in>set (frees h). sz < req"
    using None by (auto simp: extract_None_iff)
  ultimately show ?thesis
    by simp
next
  case (Some t)
  then obtain xs a sz ys
    where ex: "List.extract (\<lambda>(a, sz). req \<le> sz) (frees h) = Some (xs, (a, sz), ys)"
    by (cases t) auto
  then have mem: "(a, sz) \<in> set (frees h)" "req \<le> sz"
    using extract_parts [OF ex] by auto
  have "\<not> (\<forall>(a, sz)\<in>set (frees h). sz < req)"
  proof
    assume "\<forall>(a, sz)\<in>set (frees h). sz < req"
    from bspec [OF this mem(1)] mem(2) show False
      by simp
  qed
  then show ?thesis
    using ex by (simp add: spec_take_def)
qed

lemma chunk_size_props: "16384 dvd chunk_size n" "required_size n \<le> chunk_size n"
  "chunk_size n < n + 40 + 16384" "8 dvd chunk_size n" "32 \<le> chunk_size n"
proof -
  show d: "16384 dvd chunk_size n"
    by (simp add: chunk_size_def)
  show le: "required_size n \<le> chunk_size n"
    by (simp add: chunk_size_def round_up_nat_ge)
  show "chunk_size n < n + 40 + 16384"
    using round_up_nat_less [of 16384 "required_size n"] required_size_props(3) [of n]
    by (simp add: chunk_size_def)
  show "8 dvd chunk_size n"
    by (rule dvd_trans [OF _ d]) simp
  show "32 \<le> chunk_size n"
    using le required_size_props(2) [of n] by simp
qed

text \<open>The states between two calls: a well-formed heap below a break that is a multiple of 8.\<close>

definition spec_ok :: "nat \<Rightarrow> aheap \<times> nat \<Rightarrow> bool" where
  "spec_ok lo = (\<lambda>(h, brk). wf_heap lo brk h \<and> lo \<le> brk \<and> 8 dvd brk)"

lemma spec_malloc_cases:
  obtains (zero) "n = 0" "spec_malloc limit n (h, brk) = (0, h, brk)"
  | (fit) r h' where "0 < n" "spec_take (required_size n) n h = Some (r, h')"
      "spec_malloc limit n (h, brk) = (r, h', brk)"
  | (full) "0 < n" "spec_take (required_size n) n h = None" "limit \<le> brk + chunk_size n"
      "spec_malloc limit n (h, brk) = (0, h, brk)"
  | (grow) r h' where "0 < n" "spec_take (required_size n) n h = None" "brk + chunk_size n < limit"
      "spec_take (required_size n) n (h\<lparr>frees := ins_free (brk, chunk_size n) (frees h)\<rparr>) = Some (r, h')"
      "spec_malloc limit n (h, brk) = (r, h', brk + chunk_size n)"
proof (cases "n = 0")
  case True
  then show ?thesis
    using zero by (simp add: spec_malloc_def)
next
  case nz: False
  show ?thesis
  proof (cases "spec_take (required_size n) n h")
    case (Some t)
    then show ?thesis
      using nz fit by (cases t) (simp add: spec_malloc_def)
  next
    case None
    let ?h = "h\<lparr>frees := ins_free (brk, chunk_size n) (frees h)\<rparr>"
    have "spec_take (required_size n) n ?h \<noteq> None"
      unfolding spec_take_None using chunk_size_props(2) [of n] by auto
    then obtain r h' where "spec_take (required_size n) n ?h = Some (r, h')"
      by auto
    then show ?thesis
      using None nz full grow by (cases "brk + chunk_size n < limit") (auto simp: spec_malloc_def)
  qed
qed

lemma spec_malloc_ok:
  assumes "spec_ok lo (h, brk)" and "spec_malloc limit n (h, brk) = (r, h', brk')"
  shows "spec_ok lo (h', brk')"
proof (cases rule: spec_malloc_cases [of n limit h brk])
  case (fit q g)
  then show ?thesis
    using assms spec_take_wf(1) [OF _ required_size_props(1,2) fit(2)] by (auto simp: spec_ok_def)
next
  case (grow q g)
  then show ?thesis
    using assms spec_take_wf(1) [OF spec_extend_wf(1) required_size_props(1,2) grow(4)]
      chunk_size_props [of n]
    by (auto simp: spec_ok_def)
qed (use assms in auto)

lemma spec_malloc_covered:
  assumes "spec_ok lo (h, brk)" and "spec_malloc limit n (h, brk) = (r, h', brk')"
  shows "covered (blocks h') = covered (blocks h) \<union> {brk ..< brk'}"
proof (cases rule: spec_malloc_cases [of n limit h brk])
  case (fit q g)
  then show ?thesis
    using assms spec_take_wf(2) [OF _ required_size_props(1,2) fit(2)] by (auto simp: spec_ok_def)
next
  case (grow q g)
  have "wf_heap lo brk h" "lo \<le> brk" "8 dvd brk"
    using assms(1) by (auto simp: spec_ok_def)
  then show ?thesis
    using assms(2) spec_take_wf(2) [OF spec_extend_wf(1) required_size_props(1,2) grow(4), of lo]
      spec_extend_wf(2) [of lo brk h "chunk_size n"] chunk_size_props [of n] grow(5)
    by simp
qed (use assms in auto)

lemma spec_malloc_result:
  assumes "spec_malloc limit n (h, brk) = (r, h', brk')" and "r \<noteq> 0"
  shows "\<exists>a sz. r = a + 32 \<and> n + 32 \<le> sz \<and> allocs h' = ins_alloc (a, sz, n) (allocs h)"
proof (cases rule: spec_malloc_cases [of n limit h brk])
  case (fit q g)
  then show ?thesis
    using assms(1) fit(3) spec_take_result [OF fit(2)] required_size_props(2) [of n]
    by (auto intro: order_trans)
next
  case (grow q g)
  then show ?thesis
    using assms(1) grow(5) spec_take_result [OF grow(4)] required_size_props(2) [of n]
    by (auto intro: order_trans)
qed (use assms in auto)

lemma spec_malloc_null:
  assumes "spec_malloc limit n (h, brk) = (0, h', brk')"
  shows "h' = h \<and> brk' = brk \<and>
    (n = 0 \<or> (\<forall>(a, sz)\<in>set (frees h). sz < required_size n) \<and> limit \<le> brk + chunk_size n)"
proof (cases rule: spec_malloc_cases [of n limit h brk])
  case (fit q g)
  then show ?thesis
    using assms spec_take_result [OF fit(2)] by auto
next
  case (grow q g)
  then show ?thesis
    using assms spec_take_result [OF grow(4)] by auto
qed (use assms in \<open>auto simp: spec_take_None\<close>)

end
