(* ===== verification/Program_Break.thy ===== *)
theory Program_Break
  imports Weensy_Prelude
begin

text \<open>
  The interface between the allocator and the kernel: the system call \<open>sbrk\<close> as its caller in
  \<^verbatim>\<open>uspace/malloc.c\<close> sees it through the stub in \<^verbatim>\<open>uspace/process.h\<close>. The kernel state is
  abstract here; \<open>the_brk\<close> is the program break of the calling process and \<open>limit\<close> the first break
  that is refused. The theory \<open>Process_Memory\<close> interprets the locale on the model of the kernel's
  handler.
\<close>

locale sbrk_provider =
  fixes sbrk :: "'k \<Rightarrow> u64 \<Rightarrow> (u64 \<times> 'k) outcome"
    and the_brk :: "'k \<Rightarrow> nat"
    and ok :: "'k \<Rightarrow> bool"
    and limit :: nat
  assumes grow_success: "ok k \<Longrightarrow> unat d < 2 ^ 63 \<Longrightarrow> the_brk k + unat d < limit \<Longrightarrow>
      \<exists>k'. sbrk k d = ret (of_nat (the_brk k), k') \<and> ok k' \<and> the_brk k' = the_brk k + unat d"
    and grow_failure: "ok k \<Longrightarrow> unat d < 2 ^ 63 \<Longrightarrow> limit \<le> the_brk k + unat d \<Longrightarrow>
      sbrk k d = ret (- 1, k)"
    and break_below: "ok k \<Longrightarrow> the_brk k < limit"
    and limit_bound: "limit \<le> 2 ^ 31"
begin

lemma break_word: "ok k \<Longrightarrow> unat (of_nat (the_brk k) :: u64) = the_brk k"
  using break_below [of k] limit_bound by (simp add: unat_of_nat)

lemma break_not_error: "ok k \<Longrightarrow> (of_nat (the_brk k) :: u64) \<noteq> - 1"
proof
  assume "ok k" and "(of_nat (the_brk k) :: u64) = - 1"
  then have "the_brk k = unat (- 1 :: u64)"
    by (metis break_word)
  then show False
    using break_below [OF \<open>ok k\<close>] limit_bound by (simp add: unsigned_minus_1_eq_mask mask_eq_exp_minus_1)
qed

end

end
