(* ===== verification/Malloc.thy ===== *)
theory Malloc
  imports Alloc_Spec Program_Break
begin

text \<open>
  The allocator of \<^verbatim>\<open>uspace/malloc.c\<close>: \<open>free\<close>, \<open>malloc\<close>, \<open>calloc\<close>, \<open>realloc\<close> and
  \<open>defrag\<close>, on the byte memory and the two header lists of the theory \<open>Elt_Lists\<close>. The system
  call \<open>sbrk\<close> is an argument of the operations that may grow the heap; its contract is the
  locale \<open>sbrk_provider\<close>. The operations refine the specification of the theory \<open>Alloc_Spec\<close>.
\<close>

section \<open>Operations\<close>

definition free :: "u64 \<Rightarrow> heap \<Rightarrow> heap option" where
  "free firstbyte s =
     (if firstbyte = 0 then Some s
      else let entire_block = firstbyte - HEADER;
               s1 = remove_list entire_block False s
           in append_list_ordered entire_block (get_field s1 entire_block Size) 0 True s1)"

text \<open>The first half of \<open>malloc\<close>: find a free block, growing the heap once if there is none.
  \<open>None\<close> is the early return of \<open>NULL\<close> when \<open>sbrk\<close> fails.\<close>

definition malloc_find ::
  "('k \<Rightarrow> u64 \<Rightarrow> (u64 \<times> 'k) outcome) \<Rightarrow> u64 \<Rightarrow> heap \<times> 'k \<Rightarrow> ((u64 \<times> heap) option \<times> 'k) outcome" where
  "malloc_find sbrk required = (\<lambda>(s, k).
     bindo (lift_option (search_free required s)) (\<lambda>p.
       if p \<noteq> 0 then ret (Some (p, s), k)
       else
         let chunk = ROUNDUP required (4096 * 4)
         in bindo (sbrk k chunk) (\<lambda>(chunk_ret, k1).
              if chunk_ret = - 1 then ret (None, k1)
              else bindo (lift_option (append_list_ordered chunk_ret chunk 0 True s)) (\<lambda>s1.
                   bindo (lift_option (search_free required s1)) (\<lambda>p1. ret (Some (p1, s1), k1))))))"

text \<open>The second half: take the block \<open>p\<close> off the free list and split it. Reading \<open>p->size\<close>
  through a null pointer stops the process.\<close>

definition malloc_carve :: "u64 \<Rightarrow> u64 \<Rightarrow> u64 \<Rightarrow> heap \<Rightarrow> (u64 \<times> heap) outcome" where
  "malloc_carve p required numbytes s =
     (if p = 0 then fail Null_deref
      else
        let initial = get_field s p Size;
            s1 = remove_list p True s
        in bindo
             (if initial - required \<ge> HEADER then
                bindo (lift_option (append_list_ordered (p + required) (initial - required) 0 True s1))
                  (\<lambda>s2. lift_option (append_list_ordered p required numbytes False s2))
              else lift_option (append_list_ordered p initial numbytes False s1))
             (\<lambda>t. ret (p + HEADER, t)))"

definition malloc ::
  "('k \<Rightarrow> u64 \<Rightarrow> (u64 \<times> 'k) outcome) \<Rightarrow> u64 \<Rightarrow> heap \<times> 'k \<Rightarrow> (u64 \<times> heap \<times> 'k) outcome" where
  "malloc sbrk numbytes = (\<lambda>(s, k).
     if numbytes = 0 then ret (0, s, k)
     else
       let required = ROUNDUP (HEADER + numbytes) 8
       in bindo (malloc_find sbrk required (s, k)) (\<lambda>(found, k1).
            case found of
              None \<Rightarrow> ret (0, s, k1)
            | Some (p, s1) \<Rightarrow>
                bindo (malloc_carve p required numbytes s1) (\<lambda>(payload, t). ret (payload, t, k1))))"

definition calloc ::
  "('k \<Rightarrow> u64 \<Rightarrow> (u64 \<times> 'k) outcome) \<Rightarrow> u64 \<Rightarrow> u64 \<Rightarrow> heap \<times> 'k \<Rightarrow> (u64 \<times> heap \<times> 'k) outcome" where
  "calloc sbrk num sz = (\<lambda>(s, k).
     if num = 0 \<or> sz = 0 then ret (0, s, k)
     else if sz > (- 1) div num then ret (0, s, k)
     else bindo (malloc sbrk (num * sz) (s, k)) (\<lambda>(r, s1, k1).
            if r = 0 then ret (0, s1, k1)
            else ret (r, s1\<lparr>bytes := memset (bytes s1) r 0 (num * sz)\<rparr>, k1)))"

definition realloc ::
  "('k \<Rightarrow> u64 \<Rightarrow> (u64 \<times> 'k) outcome) \<Rightarrow> u64 \<Rightarrow> u64 \<Rightarrow> heap \<times> 'k \<Rightarrow> (u64 \<times> heap \<times> 'k) outcome" where
  "realloc sbrk ptr sz = (\<lambda>(s, k).
     if ptr = 0 then malloc sbrk sz (s, k)
     else if sz = 0 then bindo (lift_option (free ptr s)) (\<lambda>s1. ret (0, s1, k))
     else bindo (malloc sbrk sz (s, k)) (\<lambda>(r, s1, k1).
            if r = 0 then ret (0, s1, k1)
            else let original = get_field s1 (ptr - HEADER) Size;
                     newsize = (if original < sz then original else sz);
                     s2 = s1\<lparr>bytes := memcpy (bytes s1) r ptr newsize\<rparr>
                 in bindo (lift_option (free ptr s2)) (\<lambda>s3. ret (r, s3, k1))))"

partial_function (option) defrag_from :: "u64 \<Rightarrow> u64 \<Rightarrow> heap \<Rightarrow> heap option" where
  "defrag_from p1 p2 s =
     (if p2 = 0 then Some s
      else if p2 - p1 = get_field s p1 Size then
        let s1 = put_field p1 Size (get_field s p1 Size + get_field s p2 Size) s;
            s2 = remove_list p2 True s1
        in defrag_from p1 (get_field s2 p1 Next) s2
      else defrag_from p2 (get_field s p2 Next) s)"

definition defrag :: "heap \<Rightarrow> heap option" where
  "defrag s =
     (if free_head s = 0 then Some s
      else defrag_from (free_head s) (get_field s (free_head s) Next) s)"

section \<open>Abstraction\<close>

definition free_block :: "heap \<Rightarrow> u64 \<Rightarrow> nat \<times> nat" where
  "free_block s a = (unat a, unat (get_field s a Size))"

definition alloc_block :: "heap \<Rightarrow> u64 \<Rightarrow> nat \<times> nat \<times> nat" where
  "alloc_block s a = (unat a, unat (get_field s a Size), unat (get_field s a Alloc_bytes))"

definition abs_heap :: "heap \<Rightarrow> u64 list \<Rightarrow> u64 list \<Rightarrow> aheap" where
  "abs_heap s F A = \<lparr>frees = map (free_block s) F, allocs = map (alloc_block s) A\<rparr>"

text \<open>\<open>represents s h\<close>: the memory and the globals of \<open>s\<close> implement the abstract heap \<open>h\<close>.\<close>

definition represents :: "heap \<Rightarrow> aheap \<Rightarrow> bool" where
  "represents s h \<longleftrightarrow> (\<exists>F A. heap_lists s F A \<and> h = abs_heap s F A)"

lemma abs_heap_sel [simp]:
  "frees (abs_heap s F A) = map (free_block s) F" "allocs (abs_heap s F A) = map (alloc_block s) A"
  by (simp_all add: abs_heap_def)

lemma blocks_abs_heap: "blocks (abs_heap s F A) = map (free_block s) (F @ A)"
  by (simp add: blocks_def free_block_def alloc_block_def comp_def)

lemma layout_distinct_fst: "layout lo hi bs \<Longrightarrow> distinct (map fst bs)"
proof (induction bs)
  case (Cons b bs)
  then show ?case
    using layout_distinct_starts [OF Cons.prems] by (fastforce simp: layout_Cons)
qed simp

lemma layout_apart:
  assumes lay: "layout lo hi bs" and ns: "map fst bs = map unat ns" and lo: "0 < lo" "hi \<le> 2 ^ 63"
  shows "apart node_sep ns"
proof -
  have "distinct (map unat ns)"
    using layout_distinct_fst [OF lay] ns by simp
  then have d: "distinct ns"
    by (simp add: distinct_map)
  have ex: "\<exists>z. (unat a, z) \<in> set bs" if "a \<in> set ns" for a
  proof -
    have "unat a \<in> set (map fst bs)"
      using ns that by simp
    then show ?thesis
      by force
  qed
  have ok: "node_ok a" "a \<noteq> 0" if "a \<in> set ns" for a
    using ex [OF that] lay lo by (auto simp: layout_def block_ok_def node_ok_def aligned8_def)
  have "node_sep a b" if ab: "a \<in> set ns" "b \<in> set ns" for a b
  proof (cases "a = b")
    case True
    then show ?thesis
      using ok that by (simp add: node_sep_def)
  next
    case False
    then have "unat a \<noteq> unat b"
      by (rule unat_neq)
    obtain y z where "(unat a, y) \<in> set bs" "(unat b, z) \<in> set bs"
      using ex [OF ab(1)] ex [OF ab(2)] by blast
    then have "separate (unat a, y) (unat b, z)" "32 \<le> y" "32 \<le> z"
      using lay \<open>unat a \<noteq> unat b\<close> by (auto simp: layout_def block_ok_def pairwise_def)
    then show ?thesis
      using ok that by (auto simp: node_sep_def separate_def)
  qed
  then show ?thesis
    using d ok by (auto simp: apart_def)
qed

lemma first_match:
  obtains (none) "\<forall>a\<in>set F. \<not> P a" "hd (filter P F @ [0]) = 0"
  | (some) xs p ys where "F = xs @ p # ys" "P p" "\<forall>x\<in>set xs. \<not> P x" "hd (filter P F @ [0]) = p"
proof (cases "\<exists>a\<in>set F. P a")
  case True
  then obtain xs p ys where F: "F = xs @ p # ys" "P p" "\<forall>x\<in>set xs. \<not> P x"
    using split_list_first_prop [of F P] by blast
  moreover have "filter P xs = []"
    using F(3) by (simp add: filter_empty_conv)
  ultimately show ?thesis
    using some by simp
next
  case False
  then show ?thesis
    using none by (simp add: filter_False)
qed

lemma extract_at:
  "zs = xs @ y # ys \<Longrightarrow> P y \<Longrightarrow> \<forall>x\<in>set xs. \<not> P x \<Longrightarrow> List.extract P zs = Some (xs, y, ys)"
  by (simp add: extract_Some_iff)

section \<open>Carving a block refines spec\_take\<close>

lemma map_free_block_insert:
  assumes "\<And>a. a \<in> set xs \<Longrightarrow> free_block t a = free_block s a" and "free_block t n = (unat n, z)"
  shows "map (free_block t) (insert_where (\<lambda>a. a < n) n xs) = ins_free (unat n, z) (map (free_block s) xs)"
proof -
  have "map (free_block t) (insert_where (\<lambda>a. a < n) n xs)
          = ins_free (free_block t n) (map (free_block t) xs)"
    unfolding ins_free_def
    by (rule map_insert_where) (simp add: free_block_def word_less_nat_alt)
  moreover have "map (free_block t) xs = map (free_block s) xs"
    using assms(1) by simp
  ultimately show ?thesis
    using assms(2) by simp
qed

lemma map_alloc_block_insert:
  assumes "\<And>a. a \<in> set xs \<Longrightarrow> alloc_block t a = alloc_block s a" and "alloc_block t n = (unat n, z, unat b)"
  shows "map (alloc_block t) (insert_where (\<lambda>a. b \<le> get_field s a Alloc_bytes) n xs)
           = ins_alloc (unat n, z, unat b) (map (alloc_block s) xs)"
proof -
  have "b \<le> get_field s a Alloc_bytes \<longleftrightarrow> snd (snd (alloc_block t n)) \<le> snd (snd (alloc_block t a))"
    if "a \<in> set xs" for a
    using assms(1) [OF that] assms(2) by (simp add: alloc_block_def word_le_nat_alt)
  then have "map (alloc_block t) (insert_where (\<lambda>a. b \<le> get_field s a Alloc_bytes) n xs)
          = ins_alloc (alloc_block t n) (map (alloc_block t) xs)"
    unfolding ins_alloc_def by (rule map_insert_where)
  moreover have "map (alloc_block t) xs = map (alloc_block s) xs"
    using assms(1) by simp
  ultimately show ?thesis
    using assms(2) by simp
qed

lemma same_data_blocks:
  assumes "same_data N s t" and "a \<in> N"
  shows "free_block t a = free_block s a" and "alloc_block t a = alloc_block s a"
  using assms by (simp_all add: same_data_def free_block_def alloc_block_def)

lemma sorted_free_blocks:
  "sorted_wrt (\<lambda>b c. fst b < fst c) (map (free_block s) F) \<longleftrightarrow> sorted_wrt (<) F"
  by (induction F) (auto simp: free_block_def word_less_nat_alt)

lemma sorted_frees:
  "wf_heap lo hi (abs_heap s (xs @ p # ys) A) \<Longrightarrow> sorted_wrt (<) (xs @ ys)"
  unfolding wf_heap_def abs_heap_sel sorted_free_blocks by (blast intro: sorted_append_remove)

lemma free_layout:
  assumes "wf_heap lo hi (abs_heap s (xs @ p # ys) A)"
  shows "layout lo hi ((unat p, unat (get_field s p Size)) # map (free_block s) (xs @ ys @ A))"
  using assms layout_append_Cons [of lo hi "map (free_block s) xs" "free_block s p"]
  by (simp add: wf_heap_def blocks_abs_heap free_block_def)

lemma free_extract:
  assumes "req \<le> get_field s p Size" and "\<forall>x\<in>set xs. \<not> req \<le> get_field s x Size"
  shows "List.extract (\<lambda>(a, sz). unat req \<le> sz) (map (free_block s) (xs @ p # ys))
      = Some (map (free_block s) xs, (unat p, unat (get_field s p Size)), map (free_block s) ys)"
  using assms by (intro extract_at) (auto simp: free_block_def word_le_nat_alt)

lemma carve_whole:
  assumes hl: "heap_lists s (xs @ p # ys) A" and wf: "wf_heap lo hi (abs_heap s (xs @ p # ys) A)"
    and fit: "req \<le> get_field s p Size"
    and first: "\<forall>x\<in>set xs. \<not> req \<le> get_field s x Size"
    and small: "\<not> HEADER \<le> get_field s p Size - req"
  shows "\<exists>t A'. malloc_carve p req n s = ret (p + 32, t) \<and> heap_lists t (xs @ ys) A' \<and>
    spec_take (unat req) (unat n) (abs_heap s (xs @ p # ys) A)
      = Some (unat p + 32, abs_heap t (xs @ ys) A') \<and>
    touches (set ((xs @ ys) @ A')) s t"
proof -
  let ?z = "get_field s p Size"
  let ?s1 = "remove_list p True s"
  note rm = remove_list_free [OF hl]
  have p0: "p \<noteq> 0" and ap: "apart node_sep (p # A @ xs @ ys)"
    using hl by (auto simp: heap_lists_def apart_def)
  from append_list_ordered_alloc [OF rm(1) ap, of ?z n] obtain t where
    t: "append_list_ordered p ?z n False ?s1 = Some t"
    and hlt: "heap_lists t (xs @ ys) (insert_where (\<lambda>a. n \<le> get_field ?s1 a Alloc_bytes) p A)"
    and sz: "\<forall>a\<in>set (p # A @ xs @ ys). get_field t a Size = (if a = p then ?z else get_field ?s1 a Size)"
    and ab: "\<forall>a\<in>set (p # A @ xs @ ys).
        get_field t a Alloc_bytes = (if a = p then n else get_field ?s1 a Alloc_bytes)"
    and to: "touches (set (p # A)) ?s1 t"
    by blast
  have keep: "free_block t a = free_block s a" if "a \<in> set (xs @ ys)" for a
    using sz that ap same_data_blocks(1) [OF rm(2), of a] by (auto simp: free_block_def apart_def)
  have keepA: "alloc_block t a = alloc_block ?s1 a" "alloc_block ?s1 a = alloc_block s a" if "a \<in> set A" for a
    using sz ab that ap same_data_blocks(2) [OF rm(2), of a] by (auto simp: alloc_block_def apart_def)
  have mA: "map (alloc_block ?s1) A = map (alloc_block s) A"
    using keepA(2) by simp
  have "allocs (abs_heap t (xs @ ys) (insert_where (\<lambda>a. n \<le> get_field ?s1 a Alloc_bytes) p A))
      = ins_alloc (unat p, unat ?z, unat n) (map (alloc_block s) A)"
    using map_alloc_block_insert [of A t ?s1 p "unat ?z" n] keepA(1) sz ab mA
    by (simp add: alloc_block_def)
  moreover have "\<not> 32 \<le> unat ?z - unat req"
    using small unat_sub [OF fit] by (simp add: HEADER_def word_le_nat_alt)
  ultimately have "spec_take (unat req) (unat n) (abs_heap s (xs @ p # ys) A)
      = Some (unat p + 32, abs_heap t (xs @ ys) (insert_where (\<lambda>a. n \<le> get_field ?s1 a Alloc_bytes) p A))"
    using free_extract [OF fit first, of ys] keep by (simp add: spec_take_def abs_heap_def)
  moreover have "malloc_carve p req n s = ret (p + 32, t)"
    using p0 small t by (simp add: malloc_carve_def HEADER_def Let_def)
  moreover have "touches (set ((xs @ ys) @ insert_where (\<lambda>a. n \<le> get_field ?s1 a Alloc_bytes) p A)) s t"
    using touches_trans [OF rm(3) to] by (rule touches_mono) auto
  ultimately show ?thesis
    using hlt by blast
qed

lemma carve_split:
  assumes hl: "heap_lists s (xs @ p # ys) A" and wf: "wf_heap lo hi (abs_heap s (xs @ p # ys) A)"
    and lo: "0 < lo" "hi \<le> 2 ^ 63"
    and fit: "req \<le> get_field s p Size"
    and first: "\<forall>x\<in>set xs. \<not> req \<le> get_field s x Size"
    and req: "8 dvd unat req" "32 \<le> unat req"
    and large: "HEADER \<le> get_field s p Size - req"
  shows "\<exists>t F' A'. malloc_carve p req n s = ret (p + 32, t) \<and> heap_lists t F' A' \<and>
    spec_take (unat req) (unat n) (abs_heap s (xs @ p # ys) A) = Some (unat p + 32, abs_heap t F' A') \<and>
    touches (set (F' @ A')) s t"
proof -
  let ?z = "get_field s p Size" and ?q = "p + req" and ?s1 = "remove_list p True s"
  have big: "32 \<le> unat ?z - unat req" and zr: "unat (?z - req) = unat ?z - unat req"
    using large unat_sub [OF fit] by (simp_all add: HEADER_def word_le_nat_alt)
  note lay = free_layout [OF wf]
  have q: "unat ?q = unat p + unat req"
    using lay fit lo(2) by (simp add: unat_word_ariths layout_Cons block_ok_def word_le_nat_alt)
  have ap: "apart node_sep (p # ?q # xs @ ys @ A)"
    using layout_split [OF lay req(1,2) big] q
    by (intro layout_apart [OF _ _ lo]) (auto simp: free_block_def comp_def)
  then have p0: "p \<noteq> 0" "?q \<noteq> p"
    and ap1: "apart node_sep (?q # (xs @ ys) @ A)"
    and ap2: "apart node_sep (p # A @ insert_where (\<lambda>a. a < ?q) ?q (xs @ ys))"
    by (auto simp: apart_def)
  note rm = remove_list_free [OF hl]
  from append_list_ordered_free [OF rm(1) ap1 sorted_frees [OF wf], of "?z - req" 0] obtain s2 where
    s2: "append_list_ordered ?q (?z - req) 0 True ?s1 = Some s2"
    "heap_lists s2 (insert_where (\<lambda>a. a < ?q) ?q (xs @ ys)) A"
    and sz2: "\<forall>a\<in>set (?q # (xs @ ys) @ A). get_field s2 a Size = (if a = ?q then ?z - req else get_field ?s1 a Size)"
    and ab2: "\<forall>a\<in>set (?q # (xs @ ys) @ A). get_field s2 a Alloc_bytes = get_field ?s1 a Alloc_bytes"
    and to2: "touches (set (?q # xs @ ys)) ?s1 s2"
    by blast
  let ?F = "insert_where (\<lambda>a. a < ?q) ?q (xs @ ys)"
    and ?A = "insert_where (\<lambda>a. n \<le> get_field s2 a Alloc_bytes) p A"
  from append_list_ordered_alloc [OF s2(2) ap2, of req n] obtain t where
    t: "append_list_ordered p req n False s2 = Some t" "heap_lists t ?F ?A"
    and sz: "\<forall>a\<in>set (p # A @ ?F). get_field t a Size = (if a = p then req else get_field s2 a Size)"
    and ab: "\<forall>a\<in>set (p # A @ ?F). get_field t a Alloc_bytes = (if a = p then n else get_field s2 a Alloc_bytes)"
    and to: "touches (set (p # A)) s2 t"
    by blast
  have "free_block t a = free_block s a" if "a \<in> set (xs @ ys)" for a
    using sz sz2 that ap same_data_blocks(1) [OF rm(2), of a] by (auto simp: free_block_def apart_def)
  moreover have "free_block t ?q = (unat ?q, unat (?z - req))"
    using sz sz2 p0 by (simp add: free_block_def)
  ultimately have "map (free_block t) ?F = ins_free (unat ?q, unat (?z - req)) (map (free_block s) (xs @ ys))"
    by (rule map_free_block_insert)
  moreover have "map (alloc_block t) ?A = ins_alloc (unat p, unat req, unat n) (map (alloc_block s2) A)"
    using sz ab ap
    by (intro map_alloc_block_insert) (auto simp: alloc_block_def apart_def)
  moreover have "map (alloc_block s2) A = map (alloc_block s) A"
    using sz2 ab2 ap same_data_blocks(2) [OF rm(2)] by (auto simp: alloc_block_def apart_def)
  ultimately have "spec_take (unat req) (unat n) (abs_heap s (xs @ p # ys) A) = Some (unat p + 32, abs_heap t ?F ?A)"
    using free_extract [OF fit first, of ys] big q zr by (simp add: spec_take_def abs_heap_def)
  moreover have "malloc_carve p req n s = ret (p + 32, t)"
    using p0 large s2 t by (simp add: malloc_carve_def HEADER_def Let_def)
  moreover have "touches (set (?F @ ?A)) s t"
    using touches_trans [OF touches_trans [OF rm(3) to2] to] by (rule touches_mono) auto
  ultimately show ?thesis
    using t(2) by blast
qed

lemma carve_refines:
  assumes "heap_lists s (xs @ p # ys) A" and "wf_heap lo hi (abs_heap s (xs @ p # ys) A)"
    and "0 < lo" "hi \<le> 2 ^ 63" and "req \<le> get_field s p Size"
    and "\<forall>x\<in>set xs. \<not> req \<le> get_field s x Size" and "8 dvd unat req" "32 \<le> unat req"
  shows "\<exists>t F' A'. malloc_carve p req n s = ret (p + 32, t) \<and> heap_lists t F' A' \<and>
    spec_take (unat req) (unat n) (abs_heap s (xs @ p # ys) A) = Some (unat p + 32, abs_heap t F' A') \<and>
    touches (set (F' @ A')) s t"
  using carve_split [OF assms] carve_whole [OF assms(1,2,5,6)] by blast

section \<open>Which bytes an operation writes\<close>

definition starts :: "aheap \<Rightarrow> nat set" where
  "starts h = fst ` set (blocks h)"

definition headers_only :: "aheap \<Rightarrow> heap \<Rightarrow> heap \<Rightarrow> bool" where
  "headers_only h s t \<longleftrightarrow>
     (\<forall>x. (\<forall>a\<in>starts h. unat x < a \<or> a + 32 \<le> unat x) \<longrightarrow> bytes t x = bytes s x)"

lemma starts_eq: "starts h = fst ` set (frees h) \<union> fst ` set (allocs h)"
  by (simp add: starts_def blocks_def image_Un image_image case_prod_unfold)

lemma starts_abs_heap: "starts (abs_heap s F A) = unat ` set (F @ A)"
  by (simp add: starts_eq image_Un image_image free_block_def alloc_block_def)

lemma notin_header_bytes: "x \<notin> header_bytes a \<longleftrightarrow> unat x < unat a \<or> unat a + 32 \<le> unat x"
  by (auto simp: header_bytes_def)

lemma headers_only_touches:
  "touches (set (F @ A)) s t \<Longrightarrow> headers_only (abs_heap u F A) s t"
  by (simp add: headers_only_def touches_def starts_abs_heap notin_header_bytes)

lemma headers_only_trans:
  "headers_only h s t \<Longrightarrow> headers_only h' t u \<Longrightarrow> starts h \<subseteq> starts h' \<Longrightarrow> headers_only h' s u"
  unfolding headers_only_def by (metis subsetD)

lemma payload_not_header:
  assumes "layout lo hi bs" and "(a, sz) \<in> set bs" and "a + 32 \<le> x" and "x < a + sz"
    and "b \<in> fst ` set bs"
  shows "x < b \<or> b + 32 \<le> x"
proof -
  obtain y where y: "(b, y) \<in> set bs"
    using assms(5) by auto
  show ?thesis
  proof (cases "b = a")
    case True
    then show ?thesis
      using assms by simp
  next
    case False
    then have "separate (a, sz) (b, y)"
      using assms(1,2) y by (auto simp: layout_def pairwise_def)
    moreover have "32 \<le> y"
      using assms(1) y by (auto simp: layout_def block_ok_def)
    ultimately show ?thesis
      using assms(3,4) by (auto simp: separate_def)
  qed
qed

lemma payload_kept:
  assumes "headers_only h s t" and "wf_heap lo hi h" and "(a, sz, n) \<in> set (allocs h)"
    and "a + 32 \<le> unat x" and "unat x < a + sz"
  shows "bytes t x = bytes s x"
proof -
  have "(a, sz) \<in> set (blocks h)"
    using assms(3) by (force simp: blocks_def)
  then have "unat x < b \<or> b + 32 \<le> unat x" if "b \<in> starts h" for b
    using assms that by (intro payload_not_header) (auto simp: wf_heap_def starts_def)
  then show ?thesis
    using assms(1) by (simp add: headers_only_def)
qed

lemma outside_kept:
  assumes "headers_only h s t" and "wf_heap lo hi h" and "unat x < lo \<or> hi \<le> unat x"
  shows "bytes t x = bytes s x"
proof -
  have "unat x < b \<or> b + 32 \<le> unat x" if "b \<in> starts h" for b
    using assms(2,3) that by (auto simp: wf_heap_def starts_def layout_def block_ok_def)
  then show ?thesis
    using assms(1) by (simp add: headers_only_def)
qed

lemma spec_take_starts:
  assumes "spec_take req n h = Some (r, h')"
  shows "starts h \<subseteq> starts h'"
proof -
  from assms obtain xs a sz ys
    where ex: "List.extract (\<lambda>(a, sz). req \<le> sz) (frees h) = Some (xs, (a, sz), ys)"
    by (auto simp: spec_take_def split: option.splits prod.splits)
  then have "frees h = xs @ (a, sz) # ys"
    using extract_parts [OF ex] by simp
  then show ?thesis
    using assms ex by (auto simp: spec_take_def starts_eq split: if_splits)
qed

section \<open>malloc refines spec\_malloc\<close>

lemma represents_take:
  assumes "represents s h" and "wf_heap lo hi h" and "0 < lo" "hi \<le> 2 ^ 63"
    and "8 dvd unat req" "32 \<le> unat req"
  shows "case spec_take (unat req) (unat n) h of
      None \<Rightarrow> search_free req s = Some 0
    | Some (r, h') \<Rightarrow> \<exists>p t. search_free req s = Some p \<and> p \<noteq> 0 \<and> unat p + 32 = r \<and>
        unat (p + 32) = unat p + 32 \<and>
        malloc_carve p req n s = ret (p + 32, t) \<and> represents t h' \<and> headers_only h' s t"
proof -
  from assms(1) obtain F A where hl: "heap_lists s F A" and h: "h = abs_heap s F A"
    by (auto simp: represents_def)
  have z: "0 \<notin> set F"
    using hl by (auto simp: heap_lists_def apart_def)
  let ?P = "\<lambda>a. req \<le> get_field s a Size"
  show ?thesis
  proof (cases rule: first_match [of F ?P])
    case none
    then have "spec_take (unat req) (unat n) h = None"
      by (auto simp: spec_take_None h free_block_def word_le_nat_alt)
    then show ?thesis
      using none search_free_first [OF hl, of req] by simp
  next
    case (some xs p ys)
    from carve_refines [OF hl [unfolded some(1)] assms(2) [unfolded h some(1)] assms(3,4) some(2,3) assms(5,6), of n]
    obtain t F' A' where t: "malloc_carve p req n s = ret (p + 32, t)" "heap_lists t F' A'"
      "spec_take (unat req) (unat n) h = Some (unat p + 32, abs_heap t F' A')"
      "touches (set (F' @ A')) s t"
      unfolding h some(1) by blast
    have "p \<in> set F" "p \<noteq> 0"
      using some(1) z by auto
    then have "node_ok p"
      using hl by (auto simp: heap_lists_def dest: apart_node_ok)
    moreover have "(unat p, unat (get_field s p Size)) \<in> set (blocks h)"
      using \<open>p \<in> set F\<close> by (auto simp: h blocks_abs_heap free_block_def)
    then have "unat p + 32 \<le> hi"
      using assms(2) by (auto simp: wf_heap_def layout_def block_ok_def)
    then have "unat (p + 32) = unat p + 32"
      using assms(4) by (simp add: unat_word_ariths)
    ultimately show ?thesis
      using t some(4) search_free_first [OF hl, of req] \<open>p \<noteq> 0\<close> headers_only_touches [OF t(4)]
      by (auto simp: represents_def)
  qed
qed

lemma unat_required:
  assumes "unat n \<le> 2 ^ 62"
  shows "unat (ROUNDUP (HEADER + n) 8) = required_size (unat n)"
proof -
  have "unat (HEADER + n) = 32 + unat n"
    using assms by (simp add: HEADER_def unat_word_ariths)
  then show ?thesis
    using unat_ROUNDUP [of 8 "HEADER + n"] assms by (simp add: required_size_def)
qed

lemma unat_chunk:
  assumes "unat n \<le> 2 ^ 62"
  shows "unat (ROUNDUP (ROUNDUP (HEADER + n) 8) (4096 * 4)) = chunk_size (unat n)"
    and "chunk_size (unat n) < 2 ^ 63"
proof -
  have "required_size (unat n) < unat n + 40"
    by (rule required_size_props)
  then show "unat (ROUNDUP (ROUNDUP (HEADER + n) 8) (4096 * 4)) = chunk_size (unat n)"
    using assms unat_ROUNDUP [of "4096 * 4" "ROUNDUP (HEADER + n) 8"]
    by (simp add: unat_required chunk_size_def)
  show "chunk_size (unat n) < 2 ^ 63"
    using assms chunk_size_props(3) [of "unat n"] by simp
qed

lemma represents_extend:
  assumes rep: "represents s h" and wf: "wf_heap lo hi h" and lo: "0 < lo" "lo \<le> hi"
    and al: "8 dvd hi" "8 dvd c" "32 \<le> c" and hi: "hi + c \<le> 2 ^ 63"
    and p: "unat p = hi" "unat z = c"
  defines "h' \<equiv> h\<lparr>frees := ins_free (hi, c) (frees h)\<rparr>"
  shows "\<exists>t. append_list_ordered p z b True s = Some t \<and> represents t h' \<and> headers_only h' s t"
proof -
  from rep obtain F A where hl: "heap_lists s F A" and h: "h = abs_heap s F A"
    by (auto simp: represents_def)
  have "layout lo (hi + c) ((hi, c) # blocks h)"
    using wf lo al by (intro layout_extend) (auto simp: wf_heap_def)
  then have ap: "apart node_sep (p # F @ A)"
    by (rule layout_apart) (use lo hi p in \<open>auto simp: h blocks_abs_heap free_block_def\<close>)
  have so: "sorted_wrt (<) F"
    using wf by (simp add: wf_heap_def h sorted_free_blocks)
  from append_list_ordered_free [OF hl ap so, of z b] obtain t where
    t: "append_list_ordered p z b True s = Some t" "heap_lists t (insert_where (\<lambda>a. a < p) p F) A"
    and sz: "\<forall>a\<in>set (p # F @ A). get_field t a Size = (if a = p then z else get_field s a Size)"
    and ab: "\<forall>a\<in>set (p # F @ A). get_field t a Alloc_bytes = get_field s a Alloc_bytes"
    and to: "touches (set (p # F)) s t"
    by blast
  let ?F = "insert_where (\<lambda>a. a < p) p F"
  have "map (free_block t) ?F = ins_free (unat p, unat z) (map (free_block s) F)"
    using sz ap by (intro map_free_block_insert) (auto simp: free_block_def apart_def)
  moreover have "map (alloc_block t) A = map (alloc_block s) A"
    using sz ab ap by (auto simp: alloc_block_def apart_def)
  ultimately have "h' = abs_heap t ?F A"
    by (simp add: h'_def h abs_heap_def p)
  moreover have "touches (set (?F @ A)) s t"
    using to by (rule touches_mono) auto
  ultimately show ?thesis
    using t headers_only_touches [of ?F A s t t] by (auto simp: represents_def)
qed

context sbrk_provider
begin

text \<open>\<open>heap_state lo (s, k) h\<close>: between two calls, the process state \<open>s\<close> implements \<open>h\<close> and the heap
  occupies \<open>[lo, break)\<close>.\<close>

definition heap_state :: "nat \<Rightarrow> heap \<times> 'k \<Rightarrow> aheap \<Rightarrow> bool" where
  "heap_state lo = (\<lambda>(s, k) h. represents s h \<and> spec_ok lo (h, the_brk k) \<and> ok k \<and> 0 < lo)"

lemma heap_stateD:
  assumes "heap_state lo (s, k) h"
  shows "represents s h" "wf_heap lo (the_brk k) h" "lo \<le> the_brk k" "8 dvd the_brk k" "ok k"
    "0 < lo" "the_brk k < limit" "the_brk k \<le> 2 ^ 63"
  using assms break_below [of k] limit_bound by (auto simp: heap_state_def spec_ok_def)

lemma malloc_find_fit:
  assumes "search_free req s = Some p" and "p \<noteq> 0"
  shows "malloc_find sbrk req (s, k) = ret (Some (p, s), k)"
  using assms by (simp add: malloc_find_def)

text \<open>The heap grows: \<open>sbrk\<close> answers with the old break, and the block is carved from the new chunk.\<close>

lemma malloc_grows:
  assumes st: "heap_state lo (s, k) h" and n: "unat n \<le> 2 ^ 62" "n \<noteq> 0" and none: "search_free (ROUNDUP (HEADER + n) 8) s = Some 0"
    and room: "the_brk k + chunk_size (unat n) < limit"
    and grown: "spec_take (required_size (unat n)) (unat n)
      (h\<lparr>frees := ins_free (the_brk k, chunk_size (unat n)) (frees h)\<rparr>) = Some (r, h')"
  shows "\<exists>p t k'. malloc sbrk n (s, k) = ret (p, t, k') \<and> unat p = r \<and> represents t h' \<and> headers_only h' s t \<and> ok k' \<and>
    the_brk k' = the_brk k + chunk_size (unat n)"
proof -
  note d = heap_stateD [OF st]
  let ?req = "ROUNDUP (HEADER + n) 8" and ?h1 = "h\<lparr>frees := ins_free (the_brk k, chunk_size (unat n)) (frees h)\<rparr>"
  let ?chunk = "ROUNDUP ?req (4096 * 4)"
  note ur = unat_required [OF n(1)] and uc = unat_chunk [OF n(1)]
  have req: "8 dvd unat ?req" "32 \<le> unat ?req"
    using required_size_props [of "unat n"] by (simp_all add: ur)
  obtain k' where k': "sbrk k ?chunk = ret (of_nat (the_brk k), k')" "ok k'"
    "the_brk k' = the_brk k + chunk_size (unat n)"
    using grow_success [OF d(5), of ?chunk] room uc by auto
  have hi: "the_brk k + chunk_size (unat n) \<le> 2 ^ 63"
    using room limit_bound by simp
  from represents_extend [OF d(1,2,6,3,4) chunk_size_props(4,5) hi break_word [OF d(5)] uc(1), of 0]
  obtain s1 where s1: "append_list_ordered (of_nat (the_brk k)) ?chunk 0 True s = Some s1"
    "represents s1 ?h1" "headers_only ?h1 s s1"
    by auto
  have wf1: "wf_heap lo (the_brk k + chunk_size (unat n)) ?h1"
    using d chunk_size_props by (intro spec_extend_wf) auto
  obtain p t where p: "search_free ?req s1 = Some p" "p \<noteq> 0" "unat p + 32 = r"
    "unat (p + 32) = unat p + 32" "malloc_carve p ?req n s1 = ret (p + 32, t)" "represents t h'"
    "headers_only h' s1 t"
    using represents_take [OF s1(2) wf1 d(6) hi req, of n, unfolded ur] grown by auto
  have "malloc sbrk n (s, k) = ret (p + 32, t, k')"
    using n(2) none k' s1 p break_not_error [OF d(5)] by (simp add: malloc_def malloc_find_def Let_def)
  moreover have "headers_only h' s t"
    using headers_only_trans [OF s1(3) p(7) spec_take_starts [OF grown]] .
  ultimately show ?thesis
    using p k' by auto
qed

lemma malloc_refines:
  assumes st: "heap_state lo (s, k) h" and n: "unat n \<le> 2 ^ 62"
  shows "\<exists>r t k' h'. malloc sbrk n (s, k) = ret (r, t, k') \<and>
    spec_malloc limit (unat n) (h, the_brk k) = (unat r, h', the_brk k') \<and>
    heap_state lo (t, k') h' \<and> headers_only h' s t"
proof -
  note d = heap_stateD [OF st]
  let ?req = "ROUNDUP (HEADER + n) 8"
  let ?chunk = "ROUNDUP ?req (4096 * 4)"
  note ur = unat_required [OF n] and uc = unat_chunk [OF n]
  have req: "8 dvd unat ?req" "32 \<le> unat ?req"
    using required_size_props [of "unat n"] by (simp_all add: ur)
  note take = represents_take [OF d(1,2,6,8) req, of n, unfolded ur]
  have final: "heap_state lo (t, k') h'"
    if "represents t h'" "ok k'" "spec_malloc limit (unat n) (h, the_brk k) = (r, h', the_brk k')" for t k' h' r
    using that d spec_malloc_ok [of lo h "the_brk k" limit "unat n"] by (auto simp: heap_state_def spec_ok_def)
  show ?thesis
  proof (cases rule: spec_malloc_cases [of "unat n" limit h "the_brk k"])
    case zero
    then have "n = 0"
      by (simp add: unat_eq_0)
    then show ?thesis
      using zero st by (auto simp: malloc_def headers_only_def)
  next
    case (fit r h')
    then have "n \<noteq> 0"
      by auto
    moreover obtain p t where p: "search_free ?req s = Some p" "p \<noteq> 0" "unat p + 32 = r"
      "unat (p + 32) = unat p + 32" "malloc_carve p ?req n s = ret (p + 32, t)" "represents t h'"
      "headers_only h' s t"
      using take fit by auto
    ultimately have "malloc sbrk n (s, k) = ret (p + 32, t, k)"
      by (simp add: malloc_def malloc_find_fit)
    then show ?thesis
      using p fit final [OF p(6) d(5), of r] by auto
  next
    case full
    then have "n \<noteq> 0" and "search_free ?req s = Some 0"
      using take by auto
    moreover have "sbrk k ?chunk = ret (- 1, k)"
      using full uc by (intro grow_failure [OF d(5)]) auto
    ultimately have "malloc sbrk n (s, k) = ret (0, s, k)"
      by (simp add: malloc_def malloc_find_def)
    then show ?thesis
      using full st by (auto simp: headers_only_def)
  next
    case (grow r h')
    then have "n \<noteq> 0" "search_free ?req s = Some 0"
      using take by auto
    from malloc_grows [OF st n this grow(3,4)] obtain p t k' where
      p: "malloc sbrk n (s, k) = ret (p, t, k')" "unat p = r" "represents t h'" "headers_only h' s t" "ok k'"
      "the_brk k' = the_brk k + chunk_size (unat n)"
      by blast
    then show ?thesis
      using grow(5) final [OF p(3,5), of r] by auto
  qed
qed

end

section \<open>free refines spec\_free\<close>

lemma extract_unique:
  assumes "zs = xs @ y # ys" and "P y" and "\<And>x. x \<in> set (xs @ ys) \<Longrightarrow> \<not> P x"
  shows "List.extract P zs = Some (xs, y, ys)"
  using assms by (intro extract_at) auto

lemma free_refines:
  assumes rep: "represents s h" and wf: "wf_heap lo hi h" and lo: "0 < lo" "hi \<le> 2 ^ 63"
    and blk: "(a, sz, n) \<in> set (allocs h)" and ptr: "unat ptr = a + 32"
  shows "\<exists>t. free ptr s = Some t \<and> represents t (spec_free (a + 32) h) \<and> headers_only h s t"
proof -
  from rep obtain F A where hl: "heap_lists s F A" and h: "h = abs_heap s F A"
    by (auto simp: represents_def)
  from blk obtain p where p: "p \<in> set A" "unat p = a" "unat (get_field s p Size) = sz"
    by (auto simp: h alloc_block_def)
  then obtain xs ys where A: "A = xs @ p # ys"
    by (auto dest: split_list)
  have ptr0: "ptr \<noteq> 0"
    using ptr by auto
  have pp: "ptr - HEADER = p"
    using ptr p(2) by (simp add: HEADER_def word_unat_eq_iff unat_sub_if_size word_size)
  note rm = remove_list_alloc [OF hl [unfolded A]]
  let ?s1 = "remove_list p False s"
  have ap: "apart node_sep (p # F @ xs @ ys)"
    using hl by (auto simp: heap_lists_def A apart_def)
  have so: "sorted_wrt (<) F"
    using wf by (simp add: wf_heap_def h sorted_free_blocks)
  from append_list_ordered_free [OF rm(1) ap so, of "get_field ?s1 p Size" 0] obtain t where
    t: "append_list_ordered p (get_field ?s1 p Size) 0 True ?s1 = Some t"
    "heap_lists t (insert_where (\<lambda>a. a < p) p F) (xs @ ys)"
    and sz: "\<forall>a\<in>set (p # F @ xs @ ys). get_field t a Size
        = (if a = p then get_field ?s1 p Size else get_field ?s1 a Size)"
    and ab: "\<forall>a\<in>set (p # F @ xs @ ys). get_field t a Alloc_bytes = get_field ?s1 a Alloc_bytes"
    and to: "touches (set (p # F)) ?s1 t"
    by blast
  let ?F = "insert_where (\<lambda>a. a < p) p F"
  have keep: "free_block t b = free_block s b" "alloc_block t b = alloc_block s b" if "b \<in> set (p # F @ xs @ ys)" for b
    using that sz ab same_data_blocks [OF rm(2), of b] by (auto simp: free_block_def alloc_block_def)
  have "map (free_block t) ?F = ins_free (free_block s p) (map (free_block s) F)"
    using keep map_free_block_insert [of F t s p "unat (get_field s p Size)"] by (simp add: free_block_def)
  moreover have "map (alloc_block t) (xs @ ys) = map (alloc_block s) (xs @ ys)"
    using keep(2) by simp
  moreover have "List.extract (\<lambda>(b, sz, n). b + 32 = a + 32) (map (alloc_block s) A)
      = Some (map (alloc_block s) xs, alloc_block s p, map (alloc_block s) ys)"
  proof (rule extract_unique)
    have "p \<notin> set (xs @ ys)"
      using ap by (auto simp: apart_def)
    then have "\<forall>x\<in>set (xs @ ys). unat x \<noteq> unat p"
      by (metis unat_neq)
    then show "\<not> (case y of (b, sz, n) \<Rightarrow> b + 32 = a + 32)"
      if "y \<in> set (map (alloc_block s) xs @ map (alloc_block s) ys)" for y
      using that unfolding p(2) [symmetric] by (auto simp: alloc_block_def)
  qed (use p(2) in \<open>simp_all add: A alloc_block_def\<close>)
  ultimately have "spec_free (a + 32) h = abs_heap t ?F (xs @ ys)"
    by (simp add: spec_free_def h abs_heap_def alloc_block_def free_block_def)
  moreover have "free ptr s = Some t"
    using t(1) ptr0 by (simp add: free_def pp Let_def)
  moreover have "touches (set (F @ A)) s t"
    using touches_trans [OF rm(3) to] by (rule touches_mono) (auto simp: A)
  ultimately show ?thesis
    using t(2) headers_only_touches [of F A s t s] h by (auto simp: represents_def)
qed

lemma free_null: "free 0 s = Some s"
  by (simp add: free_def)

section \<open>defrag refines spec\_defrag\<close>

text \<open>One step of the loop: the block \<open>q\<close> behind \<open>p\<close> is merged into \<open>p\<close>.\<close>

lemma merge_step:
  assumes hl: "heap_lists s (us @ p # q # vs) A" and wf: "wf_heap lo hi (abs_heap s (us @ p # q # vs) A)"
    and hi: "hi \<le> 2 ^ 63" and touch: "q - p = get_field s p Size"
  defines "s2 \<equiv> remove_list q True (put_field p Size (get_field s p Size + get_field s q Size) s)"
  shows "heap_lists s2 (us @ p # vs) A" and "wf_heap lo hi (abs_heap s2 (us @ p # vs) A)"
    and "\<And>a. a \<in> set (us @ vs) \<Longrightarrow> free_block s2 a = free_block s a"
    and "free_block s2 p = (unat p, unat (get_field s p Size) + unat (get_field s q Size))"
    and "unat p + unat (get_field s p Size) = unat q"
    and "map (alloc_block s2) A = map (alloc_block s) A"
    and "touches (set (us @ p # q # vs)) s s2"
proof -
  let ?zp = "get_field s p Size" and ?zq = "get_field s q Size"
  let ?s1 = "put_field p Size (?zp + ?zq) s"
  have ap: "apart node_sep ((us @ p # q # vs) @ A)"
    using hl by (simp add: heap_lists_def)
  have sep: "node_sep p a" if "a \<in> set ((us @ p # q # vs) @ A)" for a
    using apart_sep [OF ap] that by simp
  have "links get_field ?s1 (us @ p # q # vs)" "links get_field ?s1 A"
    using hl sep by (auto simp: heap_lists_def intro!: es.links_frame)
  then have hl1: "heap_lists ?s1 ((us @ [p]) @ q # vs) A"
    using hl by (simp add: heap_lists_def)
  note rm = remove_list_free [OF hl1, folded s2_def]
  have data: "get_field s2 a Size = (if a = p then ?zp + ?zq else get_field s a Size)"
    "get_field s2 a Alloc_bytes = get_field s a Alloc_bytes" if "a \<in> set ((us @ p # q # vs) @ A)" for a
    using rm(2) sep [OF that] that by (auto simp: same_data_def es.get_put)
  have lay: "layout lo hi ((unat p, unat ?zp) # (unat q, unat ?zq) # map (free_block s) (us @ vs @ A))"
    using free_layout [OF wf]
      layout_mset [of "(unat p, unat ?zp) # (unat q, unat ?zq) # map (free_block s) (us @ vs @ A)"
          "(unat p, unat ?zp) # map (free_block s) (us @ (q # vs) @ A)"]
    by (simp add: free_block_def)
  have lt: "unat p < unat q"
    using wf by (auto simp: wf_heap_def sorted_free_blocks sorted_wrt_append word_less_nat_alt free_block_def)
  then have q: "unat p + unat ?zp = unat q"
    unfolding touch [symmetric] by (simp add: unat_sub word_le_nat_alt)
  then show "unat p + unat ?zp = unat q" .
  have sum: "unat (?zp + ?zq) = unat ?zp + unat ?zq"
    using lay q hi by (auto simp: layout_Cons block_ok_def unat_word_ariths)
  show "heap_lists s2 (us @ p # vs) A"
    using rm(1) by simp
  show keep: "free_block s2 a = free_block s a" if "a \<in> set (us @ vs)" for a
    using data that ap by (auto simp: free_block_def apart_def)
  show p2: "free_block s2 p = (unat p, unat ?zp + unat ?zq)"
    using data sum by (simp add: free_block_def)
  show mA: "map (alloc_block s2) A = map (alloc_block s) A"
    using data ap by (auto simp: alloc_block_def apart_def)
  show "touches (set (us @ p # q # vs)) s s2"
  proof -
    have "touches (set (us @ p # q # vs)) s ?s1"
      using apart_node_ok [OF ap] by auto
    then show ?thesis
      by (rule touches_mono [OF touches_trans [OF _ rm(3)]]) auto
  qed
  have keepA: "free_block s2 a = free_block s a" if "a \<in> set A" for a
    using data that ap by (auto simp: free_block_def apart_def)
  have old: "map (free_block s2) us = map (free_block s) us" "map (free_block s2) vs = map (free_block s) vs"
    "map (free_block s2) A = map (free_block s) A"
    using keep keepA by auto
  have "layout lo hi ((unat p, unat ?zp + unat ?zq) # map (free_block s) (us @ vs @ A))"
    using layout_merge lay unfolding q [symmetric] by blast
  then have "layout lo hi (blocks (abs_heap s2 (us @ p # vs) A))"
    by (simp add: blocks_abs_heap old p2 layout_append_Cons)
  then show "wf_heap lo hi (abs_heap s2 (us @ p # vs) A)"
    using wf unfolding wf_heap_def abs_heap_sel sorted_free_blocks mA
    by (auto simp: sorted_wrt_append)
qed

lemma defrag_from_refines:
  "heap_lists s (us @ p1 # vs) A \<Longrightarrow> wf_heap lo hi (abs_heap s (us @ p1 # vs) A) \<Longrightarrow> hi \<le> 2 ^ 63 \<Longrightarrow>
   \<exists>t F'. defrag_from p1 (hd (vs @ [0])) s = Some t \<and> heap_lists t F' A \<and>
     map (free_block t) F' = map (free_block s) us @ coalesce (map (free_block s) (p1 # vs)) \<and>
     map (alloc_block t) A = map (alloc_block s) A \<and> touches (set (us @ p1 # vs)) s t"
proof (induction vs arbitrary: us p1 s)
  case Nil
  then show ?case
    by (intro exI [of _ s] exI [of _ "us @ [p1]"]) (simp add: defrag_from.simps free_block_def)
next
  case (Cons q vs)
  have q0: "q \<noteq> 0" and next_of: "get_field s q Next = hd (vs @ [0])"
    using Cons.prems(1) by (auto simp: heap_lists_def apart_def links_def neq_Nil_conv)
  show ?case
  proof (cases "q - p1 = get_field s p1 Size")
    case True
    define s2 where "s2 = remove_list q True (put_field p1 Size (get_field s p1 Size + get_field s q Size) s)"
    note m = merge_step [OF Cons.prems True, folded s2_def]
    have n2: "get_field s2 p1 Next = hd (vs @ [0])"
      using m(1) by (auto simp: heap_lists_def apart_def links_def neq_Nil_conv)
    from Cons.IH [OF m(1,2) Cons.prems(3)] obtain t F' where
      t: "defrag_from p1 (hd (vs @ [0])) s2 = Some t" "heap_lists t F' A"
      "map (free_block t) F' = map (free_block s2) us @ coalesce (map (free_block s2) (p1 # vs))"
      "map (alloc_block t) A = map (alloc_block s2) A" "touches (set (us @ p1 # vs)) s2 t"
      by blast
    have old: "map (free_block s2) us = map (free_block s) us" "map (free_block s2) vs = map (free_block s) vs"
      using m(3) by auto
    have "map (free_block t) F' = map (free_block s) us @ coalesce (map (free_block s) (p1 # q # vs))"
      using t(3) m(5) unfolding list.map old m(4) by (simp add: free_block_def)
    moreover have "defrag_from p1 q s = Some t"
      using t(1) n2 q0 True by (simp add: defrag_from.simps [of p1 q] s2_def Let_def)
    moreover have "touches (set (us @ p1 # q # vs)) s t"
      by (rule touches_mono [OF touches_trans [OF m(7) t(5)]]) auto
    ultimately show ?thesis
      using t(2,4) m(6) by auto
  next
    case False
    from Cons.IH [of s "us @ [p1]" q] Cons.prems obtain t F' where
      t: "defrag_from q (hd (vs @ [0])) s = Some t" "heap_lists t F' A"
      "map (free_block t) F' = map (free_block s) (us @ [p1]) @ coalesce (map (free_block s) (q # vs))"
      "map (alloc_block t) A = map (alloc_block s) A" "touches (set ((us @ [p1]) @ q # vs)) s t"
      by auto
    have "unat p1 + unat (get_field s p1 Size) \<noteq> unat q"
    proof
      assume eq: "unat p1 + unat (get_field s p1 Size) = unat q"
      then have "unat (q - p1) = unat (get_field s p1 Size)"
        by (simp add: unat_sub word_le_nat_alt flip: eq)
      then show False
        using False by (simp add: word_unat_eq_iff)
    qed
    then have "map (free_block t) F' = map (free_block s) us @ coalesce (map (free_block s) (p1 # q # vs))"
      using t(3) by (simp add: free_block_def)
    moreover have "defrag_from p1 q s = Some t"
      using t(1) next_of q0 False by (simp add: defrag_from.simps [of p1 q])
    ultimately show ?thesis
      using t(2,4,5) by auto
  qed
qed

lemma defrag_refines:
  assumes rep: "represents s h" and wf: "wf_heap lo hi h" and hi: "hi \<le> 2 ^ 63"
  shows "\<exists>t. defrag s = Some t \<and> represents t (spec_defrag h) \<and> headers_only h s t"
proof -
  from rep obtain F A where hl: "heap_lists s F A" and h: "h = abs_heap s F A"
    by (auto simp: represents_def)
  show ?thesis
  proof (cases F)
    case Nil
    then have "free_head s = 0"
      using hl by (simp add: heap_lists_def)
    then show ?thesis
      using rep by (auto simp: defrag_def spec_defrag_def h Nil abs_heap_def headers_only_def)
  next
    case (Cons p vs)
    have head: "free_head s = p" "p \<noteq> 0" "get_field s p Next = hd (vs @ [0])"
      using hl by (auto simp: heap_lists_def Cons apart_def links_def neq_Nil_conv)
    obtain t F' where t: "defrag_from p (hd (vs @ [0])) s = Some t" "heap_lists t F' A"
      "map (free_block t) F' = coalesce (map (free_block s) F)"
      "map (alloc_block t) A = map (alloc_block s) A" "touches (set F) s t"
      using defrag_from_refines [of s "[]" p vs A lo hi] hl wf hi by (auto simp: Cons h)
    have "spec_defrag h = abs_heap t F' A"
      using t(3,4) by (simp add: spec_defrag_def h abs_heap_def)
    moreover have "headers_only h s t"
      unfolding h using t(5) by (intro headers_only_touches) (auto elim: touches_mono)
    ultimately show ?thesis
      using t(1,2) head by (auto simp: defrag_def represents_def)
  qed
qed

section \<open>Writing into a payload\<close>

lemma get_field_outside:
  assumes "node_ok p" and "\<And>x. x \<in> header_bytes p \<Longrightarrow> bytes t x = bytes s x"
  shows "get_field t p f = get_field s p f"
  unfolding get_field_def
proof (rule load64_cong)
  show "aligned8 (p + field_offset f)"
    using assms(1) by (simp add: node_ok_def aligned8_field)
  show "bytes t x = bytes s x" if "unat (p + field_offset f) \<le> unat x" "unat x < unat (p + field_offset f) + 8" for x
    using that unfolding unat_field [OF assms(1)]
    by (intro assms(2)) (cases f; simp add: header_bytes_def)
qed

lemma heap_lists_frame:
  assumes hl: "heap_lists s F A"
    and old: "\<And>p x. p \<in> set (F @ A) \<Longrightarrow> x \<in> header_bytes p \<Longrightarrow> m x = bytes s x"
  shows "heap_lists (s\<lparr>bytes := m\<rparr>) F A" and "abs_heap (s\<lparr>bytes := m\<rparr>) F A = abs_heap s F A"
    and "\<And>p f. p \<in> set (F @ A) \<Longrightarrow> get_field (s\<lparr>bytes := m\<rparr>) p f = get_field s p f"
proof -
  let ?t = "s\<lparr>bytes := m\<rparr>"
  show g: "get_field ?t p f = get_field s p f" if "p \<in> set (F @ A)" for p f
    using that hl old by (intro get_field_outside) (auto simp: heap_lists_def dest: apart_node_ok)
  have "links get_field ?t F = links get_field s F" "links get_field ?t A = links get_field s A"
    unfolding links_def by (rule dseg_cong; simp add: g)+
  then show "heap_lists ?t F A"
    using hl by (simp add: heap_lists_def)
  show "abs_heap ?t F A = abs_heap s F A"
    using g by (simp add: abs_heap_def free_block_def alloc_block_def)
qed

text \<open>\<open>payload_only a sz m m'\<close>: the memories differ at most in the payload of the block \<open>(a, sz)\<close>.\<close>

definition payload_only :: "nat \<Rightarrow> nat \<Rightarrow> mem \<Rightarrow> mem \<Rightarrow> bool" where
  "payload_only a sz m m' \<longleftrightarrow> (\<forall>x. unat x < a + 32 \<or> a + sz \<le> unat x \<longrightarrow> m' x = m x)"

lemma payload_write_represents:
  assumes rep: "represents s h" and wf: "wf_heap lo hi h" and blk: "(a, sz, n) \<in> set (allocs h)"
    and pw: "payload_only a sz (bytes s) m"
  shows "represents (s\<lparr>bytes := m\<rparr>) h"
proof -
  from rep obtain F A where hl: "heap_lists s F A" and h: "h = abs_heap s F A"
    by (auto simp: represents_def)
  have "(a, sz) \<in> set (blocks h)"
    using blk by (force simp: blocks_def)
  then have "unat x < b \<or> b + 32 \<le> unat x" if "a + 32 \<le> unat x" "unat x < a + sz" "b \<in> starts h" for x :: u64 and b
    using wf that by (intro payload_not_header) (auto simp: wf_heap_def starts_def)
  then have "m x = bytes s x" if "p \<in> set (F @ A)" "x \<in> header_bytes p" for p x
    using that pw notin_header_bytes [of x p] unfolding payload_only_def h starts_abs_heap
    by (metis imageI not_le)
  then show ?thesis
    using heap_lists_frame(1,2) [OF hl, of m] unfolding represents_def h by metis
qed

lemma payload_only_other:
  assumes "wf_heap lo hi h" and "(a, sz, n) \<in> set (allocs h)" and "payload_only a sz m m'"
    and "(b, y, j) \<in> set (allocs h)" and "b \<noteq> a" and "b + 32 \<le> unat x" and "unat x < b + y"
  shows "m' x = m x"
proof -
  have "(a, sz) \<in> set (blocks h)" "(b, y) \<in> set (blocks h)"
    using assms(2,4) by (force simp: blocks_def)+
  then have "separate (a, sz) (b, y)"
    using assms(1,5) by (auto simp: wf_heap_def layout_def pairwise_def)
  then show ?thesis
    using assms(3,6,7) by (auto simp: payload_only_def separate_def)
qed

lemma alloc_unique:
  assumes "wf_heap lo hi h" and "(a, y, i) \<in> set (allocs h)" and "(a, z, j) \<in> set (allocs h)"
  shows "(a, y, i) = (a, z, j)"
proof -
  have "distinct (map fst (map (\<lambda>(a, sz, n). (a, sz)) (allocs h)))"
    using layout_distinct_fst [of lo hi "blocks h"] assms(1) by (simp add: wf_heap_def blocks_def)
  moreover have "map fst (map (\<lambda>(a, sz, n). (a, sz)) (allocs h)) = map fst (allocs h)"
    by (auto simp: case_prod_unfold)
  ultimately show ?thesis
    using assms(2,3) by (metis eq_key_imp_eq_value)
qed

text \<open>A block \<open>(a, z, n)\<close> is allocated and its payload is filled; the payloads of the blocks that
  were allocated before keep their contents.\<close>

lemma fresh_payload_kept:
  assumes ho: "headers_only h' s s1" and wf: "wf_heap lo hi h'" and new: "(a, z, n) \<in> set (allocs h')"
    and ins: "set (allocs h') = insert (a, z, n) (set (allocs h))" and fresh: "(a, z, n) \<notin> set (allocs h)"
    and po: "payload_only a z (bytes s1) m" and blk: "(c, y, j) \<in> set (allocs h)"
  shows "c + 32 \<le> unat x \<Longrightarrow> unat x < c + y \<Longrightarrow> m x = bytes s x" and "c \<noteq> a"
proof -
  have blk': "(c, y, j) \<in> set (allocs h')"
    using blk ins by simp
  show ca: "c \<noteq> a"
    using alloc_unique [OF wf, of a y j z n] blk' new blk fresh by auto
  show "m x = bytes s x" if "c + 32 \<le> unat x" "unat x < c + y"
    using payload_only_other [OF wf new po blk' ca that] payload_kept [OF ho wf blk' that] by simp
qed

lemma represents_alloc_fields:
  assumes "represents s h" and "(a, sz, n) \<in> set (allocs h)" and "unat p = a"
  shows "unat (get_field s p Size) = sz" and "unat (get_field s p Alloc_bytes) = n"
  using assms by (auto simp: represents_def alloc_block_def word_unat_eq_iff [symmetric])

section \<open>calloc and realloc\<close>

lemma calloc_guard:
  assumes "num \<noteq> 0"
  shows "sz > (- 1 :: u64) div num \<longleftrightarrow> 2 ^ 64 \<le> unat num * unat sz"
proof -
  have "unat (- 1 :: u64) = 2 ^ 64 - 1"
    by (simp add: unsigned_minus_1_eq_mask mask_eq_exp_minus_1)
  then have "sz > (- 1) div num \<longleftrightarrow> (2 ^ 64 - 1) div unat num < unat sz"
    by (simp add: word_less_nat_alt unat_div)
  also have "\<dots> \<longleftrightarrow> 2 ^ 64 - 1 < unat sz * unat num"
    using assms by (intro div_less_iff_less_mult) (simp add: unat_gt_0)
  finally show ?thesis
    by (auto simp: mult.commute)
qed

lemma calloc_overflow:
  "2 ^ 64 \<le> unat num * unat sz \<Longrightarrow> calloc sbrk num sz (s, k) = ret (0, s, k)"
  using calloc_guard [of num sz] by (auto simp: calloc_def)

lemma alloc_in_blocks: "(a, sz, n) \<in> set (allocs h) \<Longrightarrow> (a, sz) \<in> set (blocks h)"
  by (force simp: blocks_def)

lemma alloc_block_ok:
  "wf_heap lo hi h \<Longrightarrow> (a, sz, n) \<in> set (allocs h) \<Longrightarrow> block_ok lo hi (a, sz)"
  unfolding wf_heap_def layout_def using alloc_in_blocks [of a sz n h] by blast

text \<open>The copy of \<open>realloc\<close>: as many bytes as the smaller of the new request and the size of the
  old block, which counts the old header.\<close>

lemma realloc_copy:
  assumes wf: "wf_heap lo hi h" and hi: "hi \<le> 2 ^ 63"
    and new: "(b, bz, nb) \<in> set (allocs h)" and old: "(a, z, n) \<in> set (allocs h)" and ab: "a \<noteq> b"
    and r: "unat r = b + 32" and p: "unat p = a + 32"
    and len: "unat len = min z req" and req: "req + 32 \<le> bz"
  shows "payload_only b bz m (memcpy m r p len)"
    and "unat i < min (z - 32) req \<Longrightarrow> memcpy m r p len (r + i) = m (p + i)"
proof -
  have sep: "separate (a, z) (b, bz)"
  proof -
    have "(a, z) \<in> set (blocks h)" "(b, bz) \<in> set (blocks h)"
      using old new by (force simp: blocks_def)+
    then show ?thesis
      using wf ab by (auto simp: wf_heap_def layout_def pairwise_def)
  qed
  have hib: "a + z \<le> 2 ^ 63" "b + bz \<le> 2 ^ 63"
    using alloc_block_ok [OF wf old] alloc_block_ok [OF wf new] hi by (auto simp: block_ok_def)
  have "len \<le> r - p"
  proof (cases "p \<le> r")
    case True
    then have "unat (r - p) = b - a"
      using r p by (simp add: unat_sub)
    then show ?thesis
      using True sep req len r p by (auto simp: word_le_nat_alt separate_def)
  next
    case False
    then have "unat (r - p) = 2 ^ 64 - unat p + unat r"
      using unat_less_2p64 [of p] by (auto simp: unat_sub_if_size word_le_nat_alt word_size)
    then show ?thesis
      using hib p len False by (auto simp: word_le_nat_alt)
  qed
  then have eq: "memcpy m r p len = copied m r p len"
    by (simp add: memcpy_copied)
  have "unat r + unat len \<le> 2 ^ 64"
    using r len req hib by simp
  then show "payload_only b bz m (memcpy m r p len)"
    unfolding payload_only_def eq using r len req by (auto intro!: copied_frame)
  show "memcpy m r p len (r + i) = m (p + i)" if "unat i < min (z - 32) req"
    unfolding eq using that len by (intro copied_byte) (auto simp: word_less_nat_alt)
qed

context sbrk_provider
begin

lemma malloc_block:
  assumes "spec_malloc limit n (h, the_brk k) = (unat r, h', the_brk k')" and "r \<noteq> 0"
    and "heap_state lo (t, k') h'"
  obtains a sz where "unat r = a + 32" "n + 32 \<le> sz" "(a, sz, n) \<in> set (allocs h')"
    "set (allocs h') = insert (a, sz, n) (set (allocs h))" "a + sz < limit" "(a, sz, n) \<notin> set (allocs h)"
proof -
  have "unat r \<noteq> 0"
    using assms(2) by (simp add: unat_eq_0)
  from spec_malloc_result [OF assms(1) this] obtain a sz where
    r: "unat r = a + 32" "n + 32 \<le> sz" and al: "allocs h' = ins_alloc (a, sz, n) (allocs h)"
    by auto
  note d = heap_stateD [OF assms(3)]
  have "(a, sz) \<in> set (blocks h')"
    by (force simp: blocks_def al)
  then have "a + sz < limit"
    using d(2,7) by (auto simp: wf_heap_def layout_def block_ok_def)
  moreover have "distinct (map (\<lambda>(a, sz, n). (a, sz)) (allocs h'))"
    using d(2) by (auto simp: wf_heap_def layout_def blocks_def)
  then have "distinct (allocs h')"
    by (simp add: distinct_map)
  then have "(a, sz, n) \<notin> set (allocs h)"
    by (simp add: al ins_alloc_def)
  ultimately show ?thesis
    using that r al by simp
qed

lemma calloc_refines:
  assumes st: "heap_state lo (s, k) h" and n: "unat num * unat sz \<le> 2 ^ 62"
  shows "\<exists>r t k' h'. calloc sbrk num sz (s, k) = ret (r, t, k') \<and>
    spec_malloc limit (unat num * unat sz) (h, the_brk k) = (unat r, h', the_brk k') \<and>
    heap_state lo (t, k') h' \<and>
    (r \<noteq> 0 \<longrightarrow> (\<forall>i. unat i < unat num * unat sz \<longrightarrow> bytes t (r + i) = 0)) \<and>
    (\<forall>(b, y, j)\<in>set (allocs h). \<forall>x. b + 32 \<le> unat x \<and> unat x < b + y \<longrightarrow> bytes t x = bytes s x)"
proof (cases "num = 0 \<or> sz = 0")
  case True
  then have "unat num * unat sz = 0"
    by auto
  then show ?thesis
    using True st by (auto simp: calloc_def spec_malloc_def)
next
  case False
  have un: "unat (num * sz) = unat num * unat sz"
    using n by (simp add: unat_word_ariths)
  from malloc_refines [OF st, of "num * sz"] n obtain r s1 k' h' where
    m: "malloc sbrk (num * sz) (s, k) = ret (r, s1, k')"
    "spec_malloc limit (unat num * unat sz) (h, the_brk k) = (unat r, h', the_brk k')"
    "heap_state lo (s1, k') h'" "headers_only h' s s1"
    unfolding un by blast
  note d = heap_stateD [OF m(3)]
  have guard: "\<not> sz > (- 1) div num"
    using calloc_guard [of num sz] False n by auto
  show ?thesis
  proof (cases "r = 0")
    case True
    then have "h' = h"
      using spec_malloc_null [OF m(2) [unfolded True, simplified]] by simp
    then show ?thesis
      using True m False guard payload_kept [OF m(4) d(2)] by (auto simp: calloc_def)
  next
    case nz: False
    from malloc_block [OF m(2) nz m(3)] obtain a bz where
      b: "unat r = a + 32" "unat num * unat sz + 32 \<le> bz" "(a, bz, unat num * unat sz) \<in> set (allocs h')"
      "set (allocs h') = insert (a, bz, unat num * unat sz) (set (allocs h))" "a + bz < limit"
      "(a, bz, unat num * unat sz) \<notin> set (allocs h)" .
    let ?m = "memset (bytes s1) r 0 (num * sz)"
    have fits: "unat r + unat (num * sz) \<le> 2 ^ 64"
      using b(1,2,5) limit_bound un by simp
    have po: "payload_only a bz (bytes s1) ?m"
      using memset_frame [OF fits] b(1,2) un by (auto simp: payload_only_def)
    note kept = fresh_payload_kept [OF m(4) d(2) b(3,4,6) po]
    have "calloc sbrk num sz (s, k) = ret (r, s1\<lparr>bytes := ?m\<rparr>, k')"
      using False guard m(1) nz by (auto simp: calloc_def)
    moreover have "heap_state lo (s1\<lparr>bytes := ?m\<rparr>, k') h'"
      using m(3) payload_write_represents [OF d(1,2) b(3) po] by (simp add: heap_state_def)
    moreover have "\<forall>i. unat i < unat num * unat sz \<longrightarrow> ?m (r + i) = 0"
      by (simp add: memset_filled filled_def word_less_nat_alt un)
    ultimately show ?thesis
      using m(2) kept by auto
  qed
qed

lemma realloc_null: "realloc sbrk 0 sz (s, k) = malloc sbrk sz (s, k)"
  by (simp add: realloc_def)

lemma realloc_zero:
  "ptr \<noteq> 0 \<Longrightarrow> realloc sbrk ptr 0 (s, k) = bindo (lift_option (free ptr s)) (\<lambda>s1. ret (0, s1, k))"
  by (simp add: realloc_def)

lemma realloc_refines:
  assumes st: "heap_state lo (s, k) h" and sz: "0 < unat sz" "unat sz \<le> 2 ^ 62"
    and blk: "(a, z, n) \<in> set (allocs h)" and ptr: "unat ptr = a + 32"
  shows "\<exists>r t k' h'. realloc sbrk ptr sz (s, k) = ret (r, t, k') \<and>
    spec_malloc limit (unat sz) (h, the_brk k) = (unat r, h', the_brk k') \<and>
    heap_state lo (t, k') (if r = 0 then h else spec_free (a + 32) h') \<and>
    (r \<noteq> 0 \<longrightarrow> (\<forall>i. unat i < min (z - 32) (unat sz) \<longrightarrow> bytes t (r + i) = bytes s (ptr + i))) \<and>
    (\<forall>(b, y, j)\<in>set (allocs h). b \<noteq> a \<or> r = 0 \<longrightarrow>
       (\<forall>x. b + 32 \<le> unat x \<and> unat x < b + y \<longrightarrow> bytes t x = bytes s x))"
proof -
  from malloc_refines [OF st sz(2)] obtain r s1 k' h' where
    m: "malloc sbrk sz (s, k) = ret (r, s1, k')"
    "spec_malloc limit (unat sz) (h, the_brk k) = (unat r, h', the_brk k')"
    "heap_state lo (s1, k') h'" "headers_only h' s s1"
    by blast
  note d = heap_stateD [OF m(3)]
  have p0: "ptr \<noteq> 0" "sz \<noteq> 0"
    using ptr sz(1) by auto
  show ?thesis
  proof (cases "r = 0")
    case True
    then have "h' = h"
      using spec_malloc_null [OF m(2) [unfolded True, simplified]] by simp
    then show ?thesis
      using True m p0 payload_kept [OF m(4) d(2)] by (auto simp: realloc_def)
  next
    case nz: False
    from malloc_block [OF m(2) nz m(3)] obtain b bz where
      b: "unat r = b + 32" "unat sz + 32 \<le> bz" "(b, bz, unat sz) \<in> set (allocs h')"
      "set (allocs h') = insert (b, bz, unat sz) (set (allocs h))" "b + bz < limit"
      "(b, bz, unat sz) \<notin> set (allocs h)" .
    have blk': "(a, z, n) \<in> set (allocs h')"
      using blk b(4) by simp
    let ?new = "if get_field s1 (ptr - HEADER) Size < sz then get_field s1 (ptr - HEADER) Size else sz"
    let ?m = "memcpy (bytes s1) r ptr ?new"
    have "unat (ptr - HEADER) = a"
      using ptr by (simp add: HEADER_def unat_sub word_le_nat_alt)
    then have us: "unat (get_field s1 (ptr - HEADER) Size) = z"
      using represents_alloc_fields(1) [OF d(1) blk'] by simp
    then have un: "unat ?new = min z (unat sz)"
      by (auto simp: word_less_nat_alt)
    have "a \<noteq> b"
      using fresh_payload_kept(2) [OF m(4) d(2) b(3,4,6) _ blk, of "bytes s1"] by (simp add: payload_only_def)
    note cp = realloc_copy [OF d(2,8) b(3) blk' this b(1) ptr un b(2), where m = "bytes s1"]
    let ?s2 = "s1\<lparr>bytes := ?m\<rparr>"
    have rep2: "represents ?s2 h'"
      by (rule payload_write_represents [OF d(1,2) b(3) cp(1)])
    from free_refines [OF rep2 d(2,6,8) blk' ptr] obtain t where
      t: "free ptr ?s2 = Some t" "represents t (spec_free (a + 32) h')" "headers_only h' ?s2 t"
      by blast
    have "realloc sbrk ptr sz (s, k) = ret (r, t, k')"
      using p0 m(1) nz t(1) by (simp add: realloc_def Let_def)
    moreover have "heap_state lo (t, k') (spec_free (a + 32) h')"
      using m(3) t(2) spec_free_wf(1) [OF d(2)] by (simp add: heap_state_def spec_ok_def)
    moreover have "bytes t (r + i) = bytes s (ptr + i)" if i: "unat i < min (z - 32) (unat sz)" for i
    proof -
      have "z \<le> 2 ^ 63" "a + z \<le> 2 ^ 63"
        using alloc_block_ok [OF d(2) blk'] d(8) by (auto simp: block_ok_def)
      then have "unat (r + i) = b + 32 + unat i" "unat (ptr + i) = a + 32 + unat i"
        using i b(1,2,5) ptr limit_bound by (simp_all add: unat_word_ariths)
      then show ?thesis
        using payload_kept [OF t(3) d(2) b(3), of "r + i"] payload_kept [OF m(4) d(2) blk', of "ptr + i"]
          cp(2) [OF i] i b(2) by simp
    qed
    moreover have "bytes t x = bytes s x"
      if "(c, y, j) \<in> set (allocs h)" "c + 32 \<le> unat x" "unat x < c + y" for c y j x
      using fresh_payload_kept(1) [OF m(4) d(2) b(3,4,6) cp(1) that] that b(4)
        payload_kept [OF t(3) d(2), of c y j x] by simp
    ultimately show ?thesis
      using m(2) nz by auto
  qed
qed

end

end
