(* ===== verification/Heap_Info.thy ===== *)
theory Heap_Info
  imports Malloc
begin

text \<open>
  \<open>heap_info\<close> of \<^verbatim>\<open>uspace/malloc.c\<close>: the scan of the free list, the two arrays it allocates for the
  sizes and the addresses of the live blocks, and the loop that fills them. The report is compared
  with the abstract heap of the theory \<open>Alloc_Spec\<close>: the counts (\<open>totals\<close>), the contents of the arrays
  (\<open>reports\<close>) and the allocations the call itself makes (\<open>spec_heap_info\<close>).
\<close>

section \<open>The report of heap_info\<close>

record heap_info_struct =
  num_allocs :: u32
  size_array :: u64
  ptr_array :: u64
  free_space :: u32
  largest_free_chunk :: u32

partial_function (option) scan_free :: "heap \<Rightarrow> u64 \<Rightarrow> heap_info_struct \<Rightarrow> heap_info_struct option" where
  "scan_free s f1 info =
     (if f1 = 0 then Some info
      else
        let size = ucast (get_field s f1 Size);
            info1 = info\<lparr>free_space := free_space info + size\<rparr>;
            info2 = (if sint (size :: u32) \<ge> sint (largest_free_chunk info1)
                     then info1\<lparr>largest_free_chunk := size\<rparr> else info1)
        in scan_free s (get_field s f1 Next) info2)"

partial_function (option) fill_arrays :: "u64 \<Rightarrow> u64 \<Rightarrow> u64 \<Rightarrow> u32 \<Rightarrow> heap \<Rightarrow> heap option" where
  "fill_arrays sizes ptrs x1 i s =
     (if x1 = 0 then Some s
      else if x1 \<noteq> sizes - HEADER \<and> x1 \<noteq> ptrs - HEADER then
        let s1 = s\<lparr>bytes := store64 (bytes s) (sizes + 8 * scast i) (get_field s x1 Alloc_bytes)\<rparr>;
            s2 = s1\<lparr>bytes := store64 (bytes s1) (ptrs + 8 * scast i) (x1 + HEADER)\<rparr>
        in fill_arrays sizes ptrs (get_field s2 x1 Next) (i + 1) s2
      else fill_arrays sizes ptrs (get_field s x1 Next) i s)"

definition heap_info ::
  "('k \<Rightarrow> u64 \<Rightarrow> (u64 \<times> 'k) outcome) \<Rightarrow> heap_info_struct \<Rightarrow> heap \<times> 'k \<Rightarrow>
     (u32 \<times> heap_info_struct \<times> heap \<times> 'k) outcome" where
  "heap_info sbrk info0 = (\<lambda>(s, k).
     bindo (lift_option (scan_free s (free_head s)
              (info0\<lparr>num_allocs := alloc_list_size s, free_space := 0, largest_free_chunk := 0\<rparr>))) (\<lambda>info.
       if num_allocs info = 0 then ret (0, info\<lparr>size_array := 0, ptr_array := 0\<rparr>, s, k)
       else bindo (malloc sbrk (scast (num_allocs info) * 8) (s, k)) (\<lambda>(sizes, s1, k1).
         if sizes = 0 then ret (- 1, info, s1, k1)
         else bindo (malloc sbrk (scast (num_allocs info) * 8) (s1, k1)) (\<lambda>(ptrs, s2, k2).
           if ptrs = 0 then ret (- 1, info, s2, k2)
           else bindo (lift_option (fill_arrays sizes ptrs (alloc_head s2) 0 s2)) (\<lambda>s3.
             ret (0, info\<lparr>size_array := sizes, ptr_array := ptrs\<rparr>, s3, k2))))))"

section \<open>Scanning the free list\<close>

lemma layout_total: "layout lo hi bs \<Longrightarrow> card (covered bs) = sum_list (map snd bs)"
proof (induction bs)
  case (Cons b bs)
  have "covered bs \<inter> {fst b..<fst b + snd b} = {}"
    using Cons.prems by (auto simp: layout_Cons covered_def separate_def)
  moreover have "finite (covered bs)"
    by (simp add: covered_def)
  ultimately show ?case
    using Cons by (simp add: layout_Cons card_Un_disjoint Int_commute)
qed simp

lemma layout_fits: "layout lo hi bs \<Longrightarrow> sum_list (map snd bs) \<le> hi"
proof -
  assume lay: "layout lo hi bs"
  then have "covered bs \<subseteq> {..<hi}"
    by (fastforce simp: layout_def covered_def block_ok_def)
  then show ?thesis
    using layout_total [OF lay] card_mono [of "{..<hi}" "covered bs"] by simp
qed

lemma scan_free_stops:
  assumes "dseg (\<lambda>a. get_field s a Next) pv q F 0" and "0 \<notin> set F"
    and "unat (free_space info) + (\<Sum>a\<leftarrow>F. unat (get_field s a Size)) < 2 ^ 31"
    and "unat (largest_free_chunk info) < 2 ^ 31"
  shows "\<exists>t l. scan_free s (hd (F @ [0])) info = Some (info\<lparr>free_space := t, largest_free_chunk := l\<rparr>) \<and>
    unat t = unat (free_space info) + (\<Sum>a\<leftarrow>F. unat (get_field s a Size)) \<and>
    unat l = foldl max (unat (largest_free_chunk info)) (map (\<lambda>a. unat (get_field s a Size)) F)"
  using assms
proof (induction F arbitrary: q info)
  case Nil
  then show ?case
    by (intro exI [of _ "free_space info"] exI [of _ "largest_free_chunk info"]) (simp add: scan_free.simps)
next
  case (Cons a F)
  let ?z = "unat (get_field s a Size)" and ?size = "ucast (get_field s a Size) :: u32"
  let ?f = "free_space info + ?size"
  have z: "unat ?size = ?z"
    using Cons.prems(3) by (simp add: unsigned_ucast_eq take_bit_eq_mod)
  let ?l = "if sint ?size \<ge> sint (largest_free_chunk info) then ?size else largest_free_chunk info"
  have f: "unat ?f = unat (free_space info) + ?z"
    using Cons.prems(3) by (simp add: unat_word_ariths z)
  have "unat ?size < 2 ^ 31"
    using Cons.prems(3) z by simp
  then have le: "sint ?size \<ge> sint (largest_free_chunk info) \<longleftrightarrow> unat (largest_free_chunk info) \<le> ?z"
    using Cons.prems(4) z by (metis sint_small of_nat_le_iff)
  have l: "unat ?l = max (unat (largest_free_chunk info)) ?z"
    using le by (auto simp: z max_def)
  have "\<exists>t l. scan_free s (hd (F @ [0])) (info\<lparr>free_space := ?f, largest_free_chunk := ?l\<rparr>)
      = Some (info\<lparr>free_space := t, largest_free_chunk := l\<rparr>) \<and>
    unat t = unat ?f + (\<Sum>a\<leftarrow>F. unat (get_field s a Size)) \<and>
    unat l = foldl max (unat ?l) (map (\<lambda>a. unat (get_field s a Size)) F)"
    using Cons.IH [of a "info\<lparr>free_space := ?f, largest_free_chunk := ?l\<rparr>"] Cons.prems
    unfolding f l by (simp add: f l)
  moreover have "scan_free s (hd ((a # F) @ [0])) info
      = scan_free s (hd (F @ [0])) (info\<lparr>free_space := ?f, largest_free_chunk := ?l\<rparr>)"
    using Cons.prems(1,2) by (subst scan_free.simps) (auto simp: Let_def)
  ultimately show ?case
    unfolding f l by (simp add: max.commute add.assoc)
qed

section \<open>Filling the arrays\<close>

definition slot :: "u64 \<Rightarrow> nat \<Rightarrow> u64" where
  "slot a i = a + 8 * of_nat i"

definition outside :: "u64 \<Rightarrow> nat \<Rightarrow> u64 \<Rightarrow> bool" where
  "outside a N x \<longleftrightarrow> unat x < unat a \<or> unat a + 8 * N \<le> unat x"

text \<open>Two disjoint, aligned arrays of \<open>N\<close> words, and what a sequence of writes to their slots from
  index \<open>i\<close> on keeps.\<close>

definition report_arrays :: "u64 \<Rightarrow> u64 \<Rightarrow> nat \<Rightarrow> bool" where
  "report_arrays sizes ptrs N \<longleftrightarrow> aligned8 sizes \<and> aligned8 ptrs \<and> N < 2 ^ 31 \<and>
     unat sizes + 8 * N \<le> 2 ^ 63 \<and> unat ptrs + 8 * N \<le> 2 ^ 63 \<and>
     (unat sizes + 8 * N \<le> unat ptrs \<or> unat ptrs + 8 * N \<le> unat sizes)"

definition writes_slots :: "u64 \<Rightarrow> u64 \<Rightarrow> nat \<Rightarrow> nat \<Rightarrow> mem \<Rightarrow> mem \<Rightarrow> bool" where
  "writes_slots sizes ptrs N i m m' \<longleftrightarrow>
     (\<forall>x. outside sizes N x \<and> outside ptrs N x \<longrightarrow> m' x = m x) \<and>
     (\<forall>j<i. load64 m' (slot sizes j) = load64 m (slot sizes j) \<and> load64 m' (slot ptrs j) = load64 m (slot ptrs j))"

lemma slot_facts:
  assumes ra: "report_arrays sizes ptrs N" and "i < N"
  shows "unat (slot sizes i) = unat sizes + 8 * i" "unat (slot ptrs i) = unat ptrs + 8 * i"
    "aligned8 (slot sizes i)" "aligned8 (slot ptrs i)"
proof -
  have "unat (8 * of_nat i :: u64) = 8 * i"
    using assms by (simp add: report_arrays_def unat_word_ariths unat_of_nat)
  then show u: "unat (slot sizes i) = unat sizes + 8 * i" "unat (slot ptrs i) = unat ptrs + 8 * i"
    using assms by (simp_all add: report_arrays_def slot_def unat_word_ariths)
  show "aligned8 (slot sizes i)" "aligned8 (slot ptrs i)"
    using ra u by (simp_all add: report_arrays_def aligned8_def)
qed

lemma slots_differ:
  assumes ra: "report_arrays sizes ptrs N" and "i < N" and "j < N"
  shows "slot sizes i \<noteq> slot ptrs j" and "i \<noteq> j \<Longrightarrow> slot sizes i \<noteq> slot sizes j" and "i \<noteq> j \<Longrightarrow> slot ptrs i \<noteq> slot ptrs j"
  using slot_facts [OF assms(1,2)] slot_facts [OF assms(1,3)] assms by (auto simp: report_arrays_def word_unat_eq_iff)

lemma writes_slots_step:
  assumes ra: "report_arrays sizes ptrs N" and "i < N"
    and m'_def: "m' = store64 (store64 m (slot sizes i) v) (slot ptrs i) w"
  shows "writes_slots sizes ptrs N i m m'" and "load64 m' (slot sizes i) = v" and "load64 m' (slot ptrs i) = w"
proof -
  show "load64 m' (slot sizes i) = v" "load64 m' (slot ptrs i) = w"
    using slot_facts [OF assms(1,2)] slots_differ [OF assms(1,2,2)] by (simp_all add: m'_def)
  have "load64 m' (slot sizes j) = load64 m (slot sizes j)" "load64 m' (slot ptrs j) = load64 m (slot ptrs j)"
    if "j < i" for j
    using slot_facts [OF ra, of j] slot_facts [OF assms(1,2)] slots_differ [OF ra, of j i] slots_differ [OF ra, of i j] that assms(2)
    by (simp_all add: m'_def)
  moreover have "m' x = m x" if "outside sizes N x" "outside ptrs N x" for x
    using that slot_facts [OF assms(1,2)] assms(2) by (auto simp: m'_def outside_def intro!: store64_frame [THEN trans])
  ultimately show "writes_slots sizes ptrs N i m m'"
    by (simp add: writes_slots_def)
qed

lemma writes_slots_trans:
  "writes_slots sizes ptrs N i m m1 \<Longrightarrow> writes_slots sizes ptrs N (Suc i) m1 m2 \<Longrightarrow>
   writes_slots sizes ptrs N i m m2"
  by (simp add: writes_slots_def)

abbreviation foreign :: "u64 \<Rightarrow> u64 \<Rightarrow> u64 list \<Rightarrow> u64 list" where
  "foreign sizes ptrs \<equiv> filter (\<lambda>p. p \<noteq> sizes - HEADER \<and> p \<noteq> ptrs - HEADER)"

lemma fill_arrays_stops:
  assumes "dseg (\<lambda>a. get_field s a Next) (\<lambda>a. get_field s a Prev) q xs 0" and "0 \<notin> set xs"
    and "report_arrays sizes ptrs N" and "\<And>p. p \<in> set xs \<Longrightarrow> node_ok p"
    and "\<And>p x. p \<in> set xs \<Longrightarrow> x \<in> header_bytes p \<Longrightarrow> outside sizes N x \<and> outside ptrs N x"
    and "i + length (foreign sizes ptrs xs) \<le> N"
  shows "\<exists>m. fill_arrays sizes ptrs (hd (xs @ [0])) (of_nat i) s = Some (s\<lparr>bytes := m\<rparr>) \<and>
    writes_slots sizes ptrs N i (bytes s) m \<and>
    (\<forall>j<length (foreign sizes ptrs xs).
       load64 m (slot sizes (i + j)) = get_field s (foreign sizes ptrs xs ! j) Alloc_bytes \<and>
       load64 m (slot ptrs (i + j)) = foreign sizes ptrs xs ! j + HEADER)"
  using assms
proof (induction xs arbitrary: q i s)
  case Nil
  then show ?case
    by (intro exI [of _ "bytes s"]) (simp add: fill_arrays.simps writes_slots_def)
next
  case (Cons a xs)
  show ?case
  proof (cases "a \<noteq> sizes - HEADER \<and> a \<noteq> ptrs - HEADER")
    case False
    then have "fill_arrays sizes ptrs (hd ((a # xs) @ [0])) (of_nat i) s
        = fill_arrays sizes ptrs (hd (xs @ [0])) (of_nat i) s"
      using Cons.prems(1,2) by (subst fill_arrays.simps) (auto simp: Let_def)
    then show ?thesis
      using Cons.IH [of s a i] Cons.prems False by auto
  next
    case True
    then have i: "i < N"
      using Cons.prems(6) by simp
    define m where "m = store64 (store64 (bytes s) (slot sizes i) (get_field s a Alloc_bytes)) (slot ptrs i) (a + HEADER)"
    let ?s = "s\<lparr>bytes := m\<rparr>"
    note step = writes_slots_step [OF Cons.prems(3) i m_def]
    have same: "get_field ?s p f = get_field s p f" if "p \<in> set (a # xs)" for p f
      using Cons.prems(4,5) that step(1) by (intro get_field_outside) (auto simp: writes_slots_def)
    have "(scast (of_nat i :: u32) :: u64) = of_nat i"
      using i Cons.prems(3) by (intro index_word) (simp add: report_arrays_def)
    then have eq: "fill_arrays sizes ptrs (hd ((a # xs) @ [0])) (of_nat i) s
        = fill_arrays sizes ptrs (hd (xs @ [0])) (of_nat (Suc i)) ?s"
      using Cons.prems(1,2) True same [of a Next]
      by (subst fill_arrays.simps) (simp add: Let_def slot_def add.commute m_def)
    have "dseg (\<lambda>a. get_field ?s a Next) (\<lambda>a. get_field ?s a Prev) a xs 0"
      using Cons.prems(1) same by (subst dseg_cong) auto
    then obtain m' where m': "fill_arrays sizes ptrs (hd (xs @ [0])) (of_nat (Suc i)) ?s = Some (s\<lparr>bytes := m'\<rparr>)"
      "writes_slots sizes ptrs N (Suc i) m m'"
      "\<forall>j<length (foreign sizes ptrs xs).
       load64 m' (slot sizes (Suc i + j)) = get_field s (foreign sizes ptrs xs ! j) Alloc_bytes \<and>
       load64 m' (slot ptrs (Suc i + j)) = foreign sizes ptrs xs ! j + HEADER"
      using Cons.IH [of ?s a "Suc i"] Cons.prems True same nth_mem [of _ "foreign sizes ptrs xs"]
      by auto
    have "load64 m' (slot sizes (i + j)) = get_field s (foreign sizes ptrs (a # xs) ! j) Alloc_bytes \<and>
       load64 m' (slot ptrs (i + j)) = foreign sizes ptrs (a # xs) ! j + HEADER"
      if "j < length (foreign sizes ptrs (a # xs))" for j
      using that m'(2,3) step(2,3) True by (cases j) (auto simp: writes_slots_def)
    then show ?thesis
      using m'(1) eq writes_slots_trans [OF step(1) m'(2)] by (intro exI [of _ m']) simp
  qed
qed

section \<open>Refinement\<close>

lemma scan_free_refines:
  assumes "represents s h" and "wf_heap lo hi h" and "hi < 2 ^ 31"
    and "free_space info = 0" and "largest_free_chunk info = 0"
  shows "\<exists>f l. scan_free s (free_head s) info = Some (info\<lparr>free_space := f, largest_free_chunk := l\<rparr>) \<and>
    unat f = sum_list (map snd (frees h)) \<and> unat l = Max (set (0 # map snd (frees h)))"
proof -
  from assms(1) obtain F A where hl: "heap_lists s F A" and h: "h = abs_heap s F A"
    by (auto simp: represents_def)
  have frees: "map snd (frees h) = map (\<lambda>a. unat (get_field s a Size)) F"
    by (simp add: h free_block_def)
  have "layout lo hi (frees h)"
    using assms(2) by (auto simp: wf_heap_def blocks_def layout_def pairwise_def)
  then have "sum_list (map snd (frees h)) < 2 ^ 31"
    using layout_fits [of lo hi "frees h"] assms(3) by simp
  then obtain f l where fl: "scan_free s (hd (F @ [0])) info = Some (info\<lparr>free_space := f, largest_free_chunk := l\<rparr>)"
    "unat f = sum_list (map snd (frees h))" "unat l = foldl max 0 (map snd (frees h))"
    using scan_free_stops [of s "\<lambda>a. get_field s a Prev" 0 F info] hl assms(4,5)
    by (auto simp: frees heap_lists_def links_def apart_def)
  have "foldl max 0 (map snd (frees h)) = Max (set (0 # map snd (frees h)))"
    unfolding Max.set_eq_fold foldl_conv_fold by (simp add: max.commute fun_eq_iff cong: fold_cong)
  then show ?thesis
    using fl hl by (auto simp: heap_lists_def)
qed

lemma header_outside:
  assumes "wf_heap lo hi h" and "(a, z, j) \<in> set (allocs h)" and "unat arr = a + 32" and "8 * n + 32 \<le> z"
    and "unat p \<in> starts h" and "x \<in> header_bytes p"
  shows "outside arr n x"
proof (rule ccontr)
  assume "\<not> outside arr n x"
  then have "a + 32 \<le> unat x" "unat x < a + z"
    using assms(3,4) by (auto simp: outside_def)
  then have "unat x < unat p \<or> unat p + 32 \<le> unat x"
    using payload_not_header [of lo hi "blocks h" a z "unat x" "unat p"] assms(1,5) alloc_in_blocks [OF assms(2)]
    by (auto simp: wf_heap_def starts_def)
  then show False
    using assms(6) notin_header_bytes by blast
qed

text \<open>The nodes of the allocated list other than the two arrays.\<close>

definition others :: "nat \<Rightarrow> nat \<Rightarrow> (nat \<times> nat \<times> nat) list \<Rightarrow> (nat \<times> nat \<times> nat) list" where
  "others a b = filter (\<lambda>c. fst c \<noteq> a \<and> fst c \<noteq> b)"

lemma others_blocks:
  assumes "unat sizes = a + 32" and "unat ptrs = b + 32"
  shows "others a b (map (alloc_block s) A) = map (alloc_block s) (foreign sizes ptrs A)"
proof -
  have "unat (sizes - HEADER) = a" "unat (ptrs - HEADER) = b"
    using assms by (simp_all add: HEADER_def unat_sub word_le_nat_alt)
  then show ?thesis
    by (auto simp: others_def filter_map comp_def alloc_block_def word_unat_eq_iff)
qed

lemma fill_arrays_refines:
  assumes rep: "represents s h" and wf: "wf_heap lo hi h" and hi: "hi < 2 ^ 31"
    and a: "(a, z, j) \<in> set (allocs h)" "unat sizes = a + 32" "8 * n + 32 \<le> z"
    and b: "(b, y, i) \<in> set (allocs h)" "unat ptrs = b + 32" "8 * n + 32 \<le> y"
    and ab: "a \<noteq> b" and len: "length (others a b (allocs h)) \<le> n"
  shows "\<exists>m. fill_arrays sizes ptrs (alloc_head s) 0 s = Some (s\<lparr>bytes := m\<rparr>) \<and>
    represents (s\<lparr>bytes := m\<rparr>) h \<and> (\<forall>x. outside sizes n x \<and> outside ptrs n x \<longrightarrow> m x = bytes s x) \<and>
    (\<forall>q<length (others a b (allocs h)).
       load64 m (slot sizes q) = of_nat (snd (snd (others a b (allocs h) ! q))) \<and>
       load64 m (slot ptrs q) = of_nat (fst (others a b (allocs h) ! q) + 32))"
proof -
  from rep obtain F A where hl: "heap_lists s F A" and h: "h = abs_heap s F A"
    by (auto simp: represents_def)
  note ok = alloc_block_ok [OF wf a(1)] alloc_block_ok [OF wf b(1)]
  have "separate (a, z) (b, y)"
    using wf alloc_in_blocks [OF a(1)] alloc_in_blocks [OF b(1)] ab by (auto simp: wf_heap_def layout_def pairwise_def)
  then have ra: "report_arrays sizes ptrs n"
    using a(2,3) b(2,3) ok hi by (auto simp: report_arrays_def aligned8_def block_ok_def separate_def)
  have out: "outside sizes n x \<and> outside ptrs n x" if "p \<in> set (F @ A)" "x \<in> header_bytes p" for p x
    using header_outside [OF wf a _ that(2)] header_outside [OF wf b _ that(2)] that(1) by (simp add: h starts_abs_heap)
  have oth: "others a b (allocs h) = map (alloc_block s) (foreign sizes ptrs A)"
    using others_blocks [OF a(2) b(2)] by (simp add: h)
  obtain m where m: "fill_arrays sizes ptrs (hd (A @ [0])) (of_nat 0) s = Some (s\<lparr>bytes := m\<rparr>)"
    "writes_slots sizes ptrs n 0 (bytes s) m"
    "\<forall>q<length (foreign sizes ptrs A).
       load64 m (slot sizes (0 + q)) = get_field s (foreign sizes ptrs A ! q) Alloc_bytes \<and>
       load64 m (slot ptrs (0 + q)) = foreign sizes ptrs A ! q + HEADER"
    using fill_arrays_stops [of s 0 A sizes ptrs n 0] hl ra out len apart_node_ok [of "F @ A"]
    by (auto simp: heap_lists_def links_def apart_def oth)
  have "represents (s\<lparr>bytes := m\<rparr>) h"
    using heap_lists_frame(1,2) [OF hl, of m] m(2) out unfolding represents_def h writes_slots_def by metis
  moreover have "load64 m (slot sizes q) = of_nat (snd (snd (others a b (allocs h) ! q))) \<and>
       load64 m (slot ptrs q) = of_nat (fst (others a b (allocs h) ! q) + 32)"
    if "q < length (others a b (allocs h))" for q
    using that m(3) by (simp add: oth alloc_block_def HEADER_def)
  ultimately show ?thesis
    using m(1,2) hl by (auto simp: heap_lists_def writes_slots_def)
qed

lemma filter_insert_where: "\<not> P b \<Longrightarrow> filter P (insert_where Q b xs) = filter P xs"
  by (simp add: insert_where_def) (metis filter_append takeWhile_dropWhile_id)

lemma others_inserted:
  assumes "\<forall>c\<in>set as. fst c \<noteq> fst x \<and> fst c \<noteq> fst y"
  shows "others (fst x) (fst y) (ins_alloc y (ins_alloc x as)) = as"
  using assms by (simp add: others_def ins_alloc_def filter_insert_where filter_id_conv)

text \<open>The specification: the two arrays are ordinary allocations of one word per live block. When
  only the first one succeeds it stays allocated.\<close>

definition spec_heap_info :: "nat \<Rightarrow> aheap \<times> nat \<Rightarrow> bool \<times> aheap \<times> nat" where
  "spec_heap_info limit = (\<lambda>(h, brk).
     if allocs h = [] then (True, h, brk)
     else case spec_malloc limit (8 * length (allocs h)) (h, brk) of (sizes, h1, brk1) \<Rightarrow>
       if sizes = 0 then (False, h1, brk1)
       else case spec_malloc limit (8 * length (allocs h)) (h1, brk1) of (ptrs, h2, brk2) \<Rightarrow> (ptrs \<noteq> 0, h2, brk2))"

text \<open>\<open>reports s info h\<close>: the arrays of \<open>info\<close> list the live blocks of \<open>h\<close> in the order of the list.\<close>

definition reports :: "heap \<Rightarrow> heap_info_struct \<Rightarrow> aheap \<Rightarrow> bool" where
  "reports s info h \<longleftrightarrow>
     (\<forall>i<length (allocs h).
        load64 (bytes s) (size_array info + 8 * of_nat i) = of_nat (snd (snd (allocs h ! i))) \<and>
        load64 (bytes s) (ptr_array info + 8 * of_nat i) = of_nat (fst (allocs h ! i) + 32))"

definition totals :: "heap_info_struct \<Rightarrow> aheap \<Rightarrow> bool" where
  "totals info h \<longleftrightarrow> unat (num_allocs info) = length (allocs h) \<and>
     unat (free_space info) = sum_list (map snd (frees h)) \<and>
     unat (largest_free_chunk info) = Max (set (0 # map snd (frees h)))"

definition contents_kept :: "aheap \<Rightarrow> heap \<Rightarrow> heap \<Rightarrow> bool" where
  "contents_kept h s t \<longleftrightarrow>
     (\<forall>(b, y, j)\<in>set (allocs h). \<forall>x. b + 32 \<le> unat x \<and> unat x < b + y \<longrightarrow> bytes t x = bytes s x)"

lemma allocs_count: "wf_heap lo hi h \<Longrightarrow> 32 * length (allocs h) \<le> hi"
proof -
  assume wf: "wf_heap lo hi h"
  have "32 * length bs \<le> sum_list (map snd bs)" if "\<forall>b\<in>set bs. 32 \<le> snd b" for bs :: "block list"
    using that by (induction bs) auto
  from this [of "blocks h"] have "32 * length (blocks h) \<le> hi"
    using layout_fits [of lo hi "blocks h"] wf by (auto simp: wf_heap_def layout_def block_ok_def)
  then show ?thesis
    by (simp add: blocks_def)
qed

lemma allocs_distinct:
  assumes "wf_heap lo hi h" and "mset (allocs h) = mset bs"
  shows "distinct (map fst bs)"
proof -
  have "distinct (map fst (map (\<lambda>(a, sz, n). (a, sz)) (allocs h)))"
    using layout_distinct_fst [of lo hi "blocks h"] assms(1) by (simp add: wf_heap_def blocks_def)
  moreover have "map fst (map (\<lambda>(a, sz, n). (a, sz)) (allocs h)) = map fst (allocs h)"
    by (auto simp: case_prod_unfold)
  ultimately have "distinct (map fst (allocs h))"
    by argo
  then show ?thesis
    using mset_eq_imp_distinct_iff [of "map fst (allocs h)" "map fst bs"] assms(2) by simp
qed

lemma contents_kept_headers:
  assumes "headers_only h' s t" and "wf_heap lo hi h'" and "set (allocs h) \<subseteq> set (allocs h')"
  shows "contents_kept h s t"
  using payload_kept [OF assms(1,2)] assms(3) by (auto simp: contents_kept_def)

lemma contents_kept_trans: "contents_kept h s t \<Longrightarrow> contents_kept h t u \<Longrightarrow> contents_kept h s u"
  by (fastforce simp: contents_kept_def)

lemma payload_outside:
  assumes "wf_heap lo hi h" and "(a, z, j) \<in> set (allocs h)" and "unat arr = a + 32" and "8 * n + 32 \<le> z"
    and "(b, y, i) \<in> set (allocs h)" and "b \<noteq> a" and "b + 32 \<le> unat x" and "unat x < b + y"
  shows "outside arr n x"
proof -
  have "separate (a, z) (b, y)"
    using assms(1,6) alloc_in_blocks [OF assms(2)] alloc_in_blocks [OF assms(5)]
    by (auto simp: wf_heap_def layout_def pairwise_def)
  then show ?thesis
    using assms by (auto simp: separate_def outside_def)
qed

context sbrk_provider
begin

lemma heap_info_start:
  assumes st: "heap_state lo (s, k) h"
  shows "\<exists>f l. lift_option (scan_free s (free_head s)
      (info0\<lparr>num_allocs := alloc_list_size s, free_space := 0, largest_free_chunk := 0\<rparr>)) =
    ret (info0\<lparr>num_allocs := of_nat (length (allocs h)), free_space := f, largest_free_chunk := l\<rparr>) \<and>
    totals (info0\<lparr>num_allocs := of_nat (length (allocs h)), free_space := f, largest_free_chunk := l\<rparr>) h"
    and "length (allocs h) < 2 ^ 26"
proof -
  note d = heap_stateD [OF st]
  have hi: "the_brk k < 2 ^ 31"
    using d(7) limit_bound by simp
  show n: "length (allocs h) < 2 ^ 26"
    using allocs_count [OF d(2)] hi by simp
  have "alloc_list_size s = of_nat (length (allocs h))"
    using d(1) by (auto simp: represents_def heap_lists_def)
  then show "\<exists>f l. lift_option (scan_free s (free_head s)
      (info0\<lparr>num_allocs := alloc_list_size s, free_space := 0, largest_free_chunk := 0\<rparr>)) =
    ret (info0\<lparr>num_allocs := of_nat (length (allocs h)), free_space := f, largest_free_chunk := l\<rparr>) \<and>
    totals (info0\<lparr>num_allocs := of_nat (length (allocs h)), free_space := f, largest_free_chunk := l\<rparr>) h"
    using scan_free_refines [OF d(1,2) hi, of "info0\<lparr>num_allocs := of_nat (length (allocs h)), free_space := 0, largest_free_chunk := 0\<rparr>"] n
    by (fastforce simp: totals_def unat_of_nat)
qed

lemma heap_info_filled:
  assumes st: "heap_state lo (s, k) h2" and al: "allocs h2 = ins_alloc (b, y, j) (ins_alloc (a, z, i) (allocs h))"
    and a: "unat sizes = a + 32" "8 * length (allocs h) + 32 \<le> z"
    and b: "unat ptrs = b + 32" "8 * length (allocs h) + 32 \<le> y"
  shows "\<exists>m. fill_arrays sizes ptrs (alloc_head s) 0 s = Some (s\<lparr>bytes := m\<rparr>) \<and>
    heap_state lo (s\<lparr>bytes := m\<rparr>, k) h2 \<and> contents_kept h s (s\<lparr>bytes := m\<rparr>) \<and>
    reports (s\<lparr>bytes := m\<rparr>) (info\<lparr>size_array := sizes, ptr_array := ptrs\<rparr>) h"
proof -
  note d = heap_stateD [OF st]
  have dist: "distinct (map fst ((b, y, j) # (a, z, i) # allocs h))"
    by (rule allocs_distinct [OF d(2)]) (simp add: al)
  have fresh: "\<forall>c\<in>set (allocs h). fst c \<noteq> a \<and> fst c \<noteq> b"
    using dist by force
  then have oth: "others a b (allocs h2) = allocs h"
    using others_inserted [of "allocs h" "(a, z, i)" "(b, y, j)"] by (simp add: al)
  have mem: "(a, z, i) \<in> set (allocs h2)" "(b, y, j) \<in> set (allocs h2)" and ab: "a \<noteq> b"
    using dist by (auto simp: al)
  have hi: "the_brk k < 2 ^ 31"
    using d(7) limit_bound by simp
  from fill_arrays_refines [OF d(1,2) hi mem(1) a mem(2) b ab] oth obtain m where
    m: "fill_arrays sizes ptrs (alloc_head s) 0 s = Some (s\<lparr>bytes := m\<rparr>)" "represents (s\<lparr>bytes := m\<rparr>) h2"
    "\<forall>x. outside sizes (length (allocs h)) x \<and> outside ptrs (length (allocs h)) x \<longrightarrow> m x = bytes s x"
    "\<forall>q<length (allocs h). load64 m (slot sizes q) = of_nat (snd (snd (allocs h ! q))) \<and>
       load64 m (slot ptrs q) = of_nat (fst (allocs h ! q) + 32)"
    by auto
  have "contents_kept h s (s\<lparr>bytes := m\<rparr>)"
    using payload_outside [OF d(2) mem(1) a] payload_outside [OF d(2) mem(2) b] fresh m(3)
    by (fastforce simp: contents_kept_def al)
  then show ?thesis
    using m st by (auto simp: heap_state_def reports_def slot_def)
qed

lemma heap_info_refines:
  assumes st: "heap_state lo (s, k) h"
  shows "\<exists>r info t k' h'. heap_info sbrk info0 (s, k) = ret (r, info, t, k') \<and>
    spec_heap_info limit (h, the_brk k) = (r = 0, h', the_brk k') \<and> (r = 0 \<or> r = - 1) \<and>
    heap_state lo (t, k') h' \<and> totals info h \<and> (r = 0 \<longrightarrow> reports t info h) \<and> contents_kept h s t"
proof -
  let ?n = "length (allocs h)" and ?w = "scast (of_nat (length (allocs h)) :: u32) * 8 :: u64"
  from heap_info_start(1) [OF st, of info0] obtain f l where
    scan: "lift_option (scan_free s (free_head s)
      (info0\<lparr>num_allocs := alloc_list_size s, free_space := 0, largest_free_chunk := 0\<rparr>)) =
    ret (info0\<lparr>num_allocs := of_nat ?n, free_space := f, largest_free_chunk := l\<rparr>)"
    and tot: "totals (info0\<lparr>num_allocs := of_nat ?n, free_space := f, largest_free_chunk := l\<rparr>) h"
    by blast
  let ?info = "info0\<lparr>num_allocs := of_nat ?n, free_space := f, largest_free_chunk := l\<rparr>"
  have n: "?n < 2 ^ 26"
    by (rule heap_info_start(2) [OF st])
  then have w: "unat ?w = 8 * ?n" "unat ?w \<le> 2 ^ 62"
    by (simp_all add: index_word unat_word_ariths unat_of_nat)
  have zero: "(of_nat ?n :: u32) = 0 \<longleftrightarrow> allocs h = []"
    using n by (auto simp: word_unat_eq_iff unat_of_nat)
  show ?thesis
  proof (cases "allocs h = []")
    case True
    then show ?thesis
      using st scan tot zero
      by (auto simp: heap_info_def spec_heap_info_def totals_def reports_def contents_kept_def)
  next
    case False
    from malloc_refines [OF st w(2)] obtain r1 s1 k1 h1 where
      m1: "malloc sbrk ?w (s, k) = ret (r1, s1, k1)"
      and sp1: "spec_malloc limit (8 * ?n) (h, the_brk k) = (unat r1, h1, the_brk k1)"
      and st1: "heap_state lo (s1, k1) h1" and ho1: "headers_only h1 s s1"
      unfolding w by blast
    show ?thesis
    proof (cases "r1 = 0")
      case True
      then have "h1 = h"
        using spec_malloc_null sp1 by fastforce
      then show ?thesis
        using True False scan tot zero m1 sp1 st1 contents_kept_headers [OF ho1 heap_stateD(2) [OF st1]]
        by (auto simp: heap_info_def spec_heap_info_def)
    next
      case r1: False
      from malloc_refines [OF st1 w(2)] obtain r2 s2 k2 h2 where
        m2: "malloc sbrk ?w (s1, k1) = ret (r2, s2, k2)"
        and sp2: "spec_malloc limit (8 * ?n) (h1, the_brk k1) = (unat r2, h2, the_brk k2)"
        and st2: "heap_state lo (s2, k2) h2" and ho2: "headers_only h2 s1 s2"
        unfolding w by blast
      from spec_malloc_result [OF sp1] r1 obtain a z where
        a: "unat r1 = a + 32" "8 * ?n + 32 \<le> z" and al1: "allocs h1 = ins_alloc (a, z, 8 * ?n) (allocs h)"
        by (auto simp: unat_eq_0)
      have kept1: "contents_kept h s s1"
        using contents_kept_headers [OF ho1 heap_stateD(2) [OF st1]] al1 by auto
      show ?thesis
      proof (cases "r2 = 0")
        case True
        then have "h2 = h1"
          using spec_malloc_null sp2 by fastforce
        then show ?thesis
          using True r1 False scan tot zero m1 sp1 m2 sp2 st2
            contents_kept_trans [OF kept1 contents_kept_headers [OF ho2 heap_stateD(2) [OF st2]]] al1
          by (auto simp: heap_info_def spec_heap_info_def unat_eq_0)
      next
        case r2: False
        then obtain b y where b: "unat r2 = b + 32" "8 * ?n + 32 \<le> y" "allocs h2 = ins_alloc (b, y, 8 * ?n) (allocs h1)"
          using spec_malloc_result [OF sp2] by (auto simp: unat_eq_0)
        from heap_info_filled [OF st2 b(3) [unfolded al1] a b(1,2), of ?info] obtain m where
          m: "fill_arrays r1 r2 (alloc_head s2) 0 s2 = Some (s2\<lparr>bytes := m\<rparr>)"
          "heap_state lo (s2\<lparr>bytes := m\<rparr>, k2) h2" "contents_kept h s2 (s2\<lparr>bytes := m\<rparr>)"
          "reports (s2\<lparr>bytes := m\<rparr>) (?info\<lparr>size_array := r1, ptr_array := r2\<rparr>) h"
          by blast
        have "contents_kept h s1 s2"
          using contents_kept_headers [OF ho2 heap_stateD(2) [OF st2]] b(3) al1 by auto
        then have "contents_kept h s (s2\<lparr>bytes := m\<rparr>)"
          using kept1 m(3) contents_kept_trans by blast
        then show ?thesis
          using r1 r2 False scan tot zero m1 sp1 m2 sp2 m(1,2,4)
          by (auto simp: heap_info_def spec_heap_info_def unat_eq_0 unat_gt_0 totals_def)
      qed
    qed
  qed
qed

end

end
