(* ===== verification/Process_Memory.thy ===== *)
theory Process_Memory
  imports Kernel_State Heap_Info
begin

text \<open>
  The system calls that manage the memory of a process (\<^verbatim>\<open>kernel/kernel.c\<close>): \<open>sbrk\<close> and \<open>brk\<close>,
  and the part of the page fault handler that gives a process the pages of its heap. The kernel's
  \<open>sbrk\<close> meets the contract \<open>sbrk_provider\<close> on which the allocator relies; the interpretation at the
  end instantiates the allocator's theorems with the kernel.
\<close>

section \<open>sbrk and brk\<close>

text \<open>\<open>pageinfo[pn].refcount--\<close> and the change of owner when the count reaches zero.\<close>

definition drop_reference :: "u32 \<Rightarrow> physical_pageinfo list \<Rightarrow> physical_pageinfo list outcome" where
  "drop_reference pn pi =
     (if \<not> in_pageinfo pn then fail Out_of_range
      else let i = nat (sint pn); r = refcount (pi ! i) - 1;
               entry = (pi ! i)\<lparr>refcount := r\<rparr>
           in ret (pi[i := (if r = 0 then entry\<lparr>pg_owner := PO_FREE\<rparr> else entry)]))"

text \<open>The body and the loop of the shrinking case of \<open>sbrk\<close>.\<close>

definition unmap_page ::
  "u64 \<Rightarrow> u64 \<Rightarrow> physical_pageinfo list \<times> mem \<Rightarrow> (physical_pageinfo list \<times> mem) outcome" where
  "unmap_page pagetable i = (\<lambda>(pi, m).
     let vmap = virtual_memory_lookup m pagetable i
     in if vam_pn vmap \<noteq> - 1 then
          bindo (drop_reference (vam_pn vmap) pi) (\<lambda>pi'.
          bindo (virtual_memory_map pagetable i (vam_pa vmap) PAGESIZE (ucast (PTE_W OR PTE_U)) m) (\<lambda>(_, m').
            ret (pi', m')))
        else ret (pi, m))"

partial_function (option) unmap_down ::
  "u64 \<Rightarrow> u64 \<Rightarrow> u64 \<Rightarrow> physical_pageinfo list \<times> mem \<Rightarrow> (physical_pageinfo list \<times> mem) outcome" where
  "unmap_down pagetable lowest i s =
     (if i \<ge> lowest then
        bindo (unmap_page pagetable i s) (\<lambda>s'. unmap_down pagetable lowest (i - PAGESIZE) s')
      else ret s)"

text \<open>\<open>sbrk(p, difference)\<close> for the process with index \<open>i\<close>; the result is a C \<open>int\<close>.\<close>

definition sbrk :: "nat \<Rightarrow> u64 \<Rightarrow> kstate \<Rightarrow> (u32 \<times> kstate) outcome" where
  "sbrk i difference k =
     (let p = the_proc k i;
          new_break = program_break p + difference;
          old_break = program_break p
      in if new_break \<ge> MEMSIZE_VIRTUAL - PAGESIZE \<or> new_break < original_break p then ret (- 1, k)
         else
           bindo (if sint difference < 0
                  then unmap_down (p_pagetable p) (ROUNDDOWN new_break PAGESIZE) (ROUNDUP old_break PAGESIZE)
                         (pageinfo k, phys k)
                  else ret (pageinfo k, phys k)) (\<lambda>(pi, m).
             ret (ucast old_break,
                  upd_proc i (\<lambda>p. p\<lparr>program_break := new_break\<rparr>) (k\<lparr>pageinfo := pi, phys := m\<rparr>))))"

definition brk :: "nat \<Rightarrow> u64 \<Rightarrow> kstate \<Rightarrow> (u32 \<times> kstate) outcome" where
  "brk i new_address k =
     (let difference = new_address - program_break (the_proc k i)
      in bindo (sbrk i difference k) (\<lambda>(r, k'). if r = - 1 then ret (- 1, k') else ret (0, k')))"

text \<open>What a process sees of the system call: the stub of \<^verbatim>\<open>uspace/process.h\<close> returns \<open>rax\<close>, which
  the kernel sets to the sign-extended result.\<close>

definition sys_sbrk :: "kstate \<Rightarrow> u64 \<Rightarrow> (u64 \<times> kstate) outcome" where
  "sys_sbrk k increment = bindo (sbrk (current k) increment k) (\<lambda>(r, k'). ret (scast r, k'))"

section \<open>Growing\<close>

text \<open>The break of a process is inside the heap range of its address space.\<close>

definition break_ok :: "kstate \<Rightarrow> nat \<Rightarrow> bool" where
  "break_ok k i \<longleftrightarrow> i < length (processes k) \<and>
     original_break (the_proc k i) \<le> program_break (the_proc k i) \<and>
     program_break (the_proc k i) < MEMSIZE_VIRTUAL - PAGESIZE"

definition BREAK_LIMIT :: nat where
  "BREAK_LIMIT = 0x2FF000"

lemma unat_break_limit [simp]: "unat (MEMSIZE_VIRTUAL - PAGESIZE) = BREAK_LIMIT"
  by (simp add: MEMSIZE_VIRTUAL_def PAGESIZE_def BREAK_LIMIT_def)

lemma sint_negative_iff: "sint (d :: u64) < 0 \<longleftrightarrow> 2 ^ 63 \<le> unat d"
proof -
  have "sint d < 0 \<longleftrightarrow> bit d 63"
    using bit_last_iff [of d] by simp
  also have "\<dots> \<longleftrightarrow> bit (unat d) 63"
    by (simp add: bit_unsigned_iff)
  also have "\<dots> \<longleftrightarrow> odd (unat d div 2 ^ 63)"
    by (simp add: bit_iff_odd)
  also have "\<dots> \<longleftrightarrow> 2 ^ 63 \<le> unat d"
  proof -
    have "unat d div 2 ^ 63 < 2"
      using unat_less_2p64 [of d] by simp
    then have "odd (unat d div 2 ^ 63) \<longleftrightarrow> 0 < unat d div 2 ^ 63"
      by (cases "unat d div 2 ^ 63 = 0"; cases "unat d div 2 ^ 63 = 1") auto
    then show ?thesis
      by (simp add: div_greater_zero_iff)
  qed
  finally show ?thesis .
qed

lemma sbrk_grow:
  assumes ok: "break_ok k i" and d: "unat d < 2 ^ 63"
    and room: "unat (program_break (the_proc k i)) + unat d < BREAK_LIMIT"
  shows "sbrk i d k = ret (ucast (program_break (the_proc k i)),
           upd_proc i (\<lambda>p. p\<lparr>program_break := program_break p + d\<rparr>) k)"
proof -
  let ?p = "the_proc k i"
  have u: "unat (program_break ?p + d) = unat (program_break ?p) + unat d"
    using room by (simp add: unat_word_ariths BREAK_LIMIT_def)
  have "\<not> program_break ?p + d \<ge> MEMSIZE_VIRTUAL - PAGESIZE" "\<not> program_break ?p + d < original_break ?p"
    using ok room u by (auto simp: word_le_nat_alt word_less_nat_alt break_ok_def not_le)
  moreover have "\<not> sint d < 0"
    using d by (simp add: sint_negative_iff)
  ultimately show ?thesis
    by (simp add: sbrk_def Let_def upd_proc_def the_proc_def)
qed

lemma sbrk_refused:
  "unat (program_break (the_proc k i) + d) \<ge> BREAK_LIMIT \<or>
   program_break (the_proc k i) + d < original_break (the_proc k i) \<Longrightarrow> sbrk i d k = ret (- 1, k)"
  by (auto simp: sbrk_def Let_def word_le_nat_alt)

lemma break_int: "unat b < 2 ^ 31 \<Longrightarrow> scast (ucast (b :: u64) :: u32) = b"
proof -
  assume b: "unat b < 2 ^ 31"
  have small: "\<not> bit b n" if "31 \<le> n" for n
  proof -
    have "take_bit 31 b = b"
      using b by (simp add: word_unat_eq_iff unsigned_take_bit_eq take_bit_nat_eq_self)
    then show ?thesis
      using that by (metis bit_take_bit_iff not_le)
  qed
  then show ?thesis
    by (intro bit_word_eqI) (auto simp: bit_signed_iff bit_unsigned_iff min_def)
qed

section \<open>Shrinking\<close>

text \<open>\<open>mapped_pn m pt v\<close>: the physical page of virtual page \<open>v\<close>, -1 when there is none.\<close>

definition vpage :: "nat \<Rightarrow> u64" where
  "vpage v = of_nat (4096 * v)"

definition mapped_pn :: "mem \<Rightarrow> u64 \<Rightarrow> nat \<Rightarrow> u32" where
  "mapped_pn m pt v = vam_pn (virtual_memory_lookup m pt (vpage v))"

definition unmapped :: vamapping where
  "unmapped = \<lparr>vam_pn = - 1, vam_pa = - 1, vam_perm = 0\<rparr>"

lemma unat_vpage: "v \<le> 1024 \<Longrightarrow> unat (vpage v) = 4096 * v"
  unfolding vpage_def by (simp add: unat_of_nat del: of_nat_mult)

lemma vpage_eq: "unat i = 4096 * v \<Longrightarrow> i = vpage v"
  unfolding vpage_def by (metis of_nat_unat ucast_id)

lemma pageinfo_index:
  assumes "in_pageinfo pn" and "n < NPAGES"
  shows "pn = of_nat n \<longleftrightarrow> nat (sint pn) = n"
proof -
  have n: "sint (of_nat n :: u32) = int n"
    using assms(2) by (simp add: NPAGES_def signed_of_nat signed_take_bit_int_eq_self)
  show ?thesis
  proof
    assume "nat (sint pn) = n"
    then have "sint pn = sint (of_nat n :: u32)"
      using assms(1) n by (auto simp: in_pageinfo_def)
    then show "pn = of_nat n"
      by (rule signed_word_eqI)
  qed (simp add: n)
qed

lemma drop_reference_ok:
  assumes "in_pageinfo pn" and "length pi = NPAGES"
  shows "\<exists>pi'. drop_reference pn pi = ret pi' \<and> length pi' = NPAGES \<and>
    (\<forall>n<NPAGES. refcount (pi' ! n) = refcount (pi ! n) - (if pn = of_nat n then 1 else 0))"
proof -
  have "nat (sint pn) < NPAGES"
    using assms(1) by (auto simp: in_pageinfo_def)
  then show ?thesis
    using assms pageinfo_index [OF assms(1)] by (auto simp: drop_reference_def Let_def nth_list_update)
qed

lemma decode_unmapped: "decode e a = unmapped \<longleftrightarrow> e AND PTE_P = 0"
proof (cases "e AND PTE_P = 0")
  case False
  then have "bit (ucast (PTE_FLAGS e) :: u32) 0"
    using bit_fff [of 0] by (simp add: pte_bit PTE_FLAGS_def bit_unsigned_iff bit_and_iff)
  then have "(ucast (PTE_FLAGS e) :: u32) \<noteq> 0"
    by auto
  then show ?thesis
    using False by (simp add: decode_def unmapped_def)
qed (simp add: decode_def unmapped_def)

lemma vpage_div: "j < 1024 \<Longrightarrow> unat (vpage j) div 4096 = j" "j < 1024 \<Longrightarrow> unat (vpage j) < 0x400000"
  by (simp_all add: unat_vpage)

lemma same_page_iff: "4096 * j \<le> unat a \<and> unat a < 4096 * j + 4096 \<longleftrightarrow> unat (a :: u64) div 4096 = j"
  by (auto simp: div_nat_eqI)

lemma unmap_page_ok:
  assumes sh: "pt_shape m pt" and j: "j < 1024" and pi: "length pi = NPAGES"
    and pn: "virtual_memory_lookup m pt (vpage j) = unmapped \<or> in_pageinfo (mapped_pn m pt j)"
  shows "\<exists>pi' m'. unmap_page pt (vpage j) (pi, m) = ret (pi', m') \<and> length pi' = NPAGES \<and>
    pt_shape m' pt \<and> (\<forall>i<2. table4 m' pt i = table4 m pt i) \<and>
    (\<forall>x. \<not> in_page (table4 m pt 0) x \<and> \<not> in_page (table4 m pt 1) x \<longrightarrow> m' x = m x) \<and>
    (\<forall>a. unat a < 0x400000 \<longrightarrow> virtual_memory_lookup m' pt a =
       (if unat a div 4096 = j then unmapped else virtual_memory_lookup m pt a)) \<and>
    (\<forall>n<NPAGES. refcount (pi' ! n) = refcount (pi ! n) - (if mapped_pn m pt j = of_nat n then 1 else 0))"
  using pn
proof
  assume un: "virtual_memory_lookup m pt (vpage j) = unmapped"
  then have "virtual_memory_lookup m pt a = unmapped" if "unat a < 0x400000" "unat a div 4096 = j" for a
    using that j by (simp add: lookup_decode [OF sh] vpage_div decode_unmapped)
  moreover have "mapped_pn m pt j = - 1"
    using un by (simp add: mapped_pn_def unmapped_def)
  moreover have "(- 1 :: u32) \<noteq> of_nat n" if "n < NPAGES" for n
  proof
    assume "(- 1 :: u32) = of_nat n"
    then have "unat (- 1 :: u32) = unat (of_nat n :: u32)"
      by simp
    then show False
      using that by (simp add: NPAGES_def unat_of_nat unsigned_minus_1_eq_mask mask_eq_exp_minus_1)
  qed
  ultimately show ?thesis
    using un sh pi by (auto simp: unmap_page_def mapped_pn_def unmapped_def)
next
  assume inp: "in_pageinfo (mapped_pn m pt j)"
  let ?vam = "virtual_memory_lookup m pt (vpage j)"
  have nm: "vam_pn ?vam \<noteq> - 1"
    using inp by (auto simp: mapped_pn_def in_pageinfo_def)
  have "PAGEOFFSET (vpage j) = 0"
    using j by (simp add: word_unat_eq_iff unat_PAGEOFFSET unat_vpage)
  then have al: "page_aligned (vam_pa ?vam)"
    using nm j by (auto simp: lookup_decode [OF sh] vpage_div decode_def)
  have ok: "map_range_ok j (vam_pa ?vam) 1 6"
    using j by (simp add: map_range_ok_def pte_bits)
  have u: "unat (vpage j) = 4096 * j" "unat PAGESIZE = 4096 * 1"
    using j by (simp_all add: unat_vpage PAGESIZE_def)
  obtain m' where m': "virtual_memory_map pt (vpage j) (vam_pa ?vam) PAGESIZE 6 m = ret (0, m')"
    "pt_shape m' pt" "\<forall>i<2. table4 m' pt i = table4 m pt i"
    "\<forall>x. \<not> in_page (table4 m pt 0) x \<and> \<not> in_page (table4 m pt 1) x \<longrightarrow> m' x = m x"
    "\<And>a. unat a < 0x400000 \<Longrightarrow> virtual_memory_lookup m' pt a =
       (if unat a div 4096 = j then unmapped else virtual_memory_lookup m pt a)"
  proof -
    from virtual_memory_map_refines [OF sh u ok] obtain m' where
      m': "virtual_memory_map pt (vpage j) (vam_pa ?vam) PAGESIZE 6 m = ret (0, m')"
      "pt_shape m' pt" "\<forall>i<2. table4 m' pt i = table4 m pt i"
      "\<forall>x. \<not> in_page (table4 m pt 0) x \<and> \<not> in_page (table4 m pt 1) x \<longrightarrow> m' x = m x"
      by blast
    then show ?thesis
      using that map_lookup [OF sh u ok al m'(1)] same_page_iff [of j] u
      by (simp add: unmapped_def pte_bits)
  qed
  from drop_reference_ok [OF inp pi] obtain pi' where
    pi': "drop_reference (mapped_pn m pt j) pi = ret pi'" "length pi' = NPAGES"
    "\<forall>n<NPAGES. refcount (pi' ! n) = refcount (pi ! n) - (if mapped_pn m pt j = of_nat n then 1 else 0)"
    by blast
  have "unmap_page pt (vpage j) (pi, m) = ret (pi', m')"
    using nm pi'(1) m'(1) by (simp add: unmap_page_def mapped_pn_def pte_bits Let_def)
  then show ?thesis
    using m'(2-5) pi'(2,3) by blast
qed

text \<open>How often a physical page is mapped by the virtual pages from \<open>l\<close> below \<open>u\<close>.\<close>

definition uses_of :: "mem \<Rightarrow> u64 \<Rightarrow> nat \<Rightarrow> nat \<Rightarrow> nat \<Rightarrow> nat" where
  "uses_of m pt l u n = length (filter (\<lambda>v. mapped_pn m pt v = of_nat n) [l..<u])"

definition pages_tracked :: "mem \<Rightarrow> u64 \<Rightarrow> nat \<Rightarrow> nat \<Rightarrow> bool" where
  "pages_tracked m pt l u \<longleftrightarrow>
     (\<forall>v\<in>set [l..<u]. virtual_memory_lookup m pt (vpage v) = unmapped \<or> in_pageinfo (mapped_pn m pt v))"

lemma unmap_down_ok:
  "pt_shape m pt \<Longrightarrow> 0 < l \<Longrightarrow> l + d \<le> 1024 \<Longrightarrow> length pi = NPAGES \<Longrightarrow> pages_tracked m pt l (l + d) \<Longrightarrow>
   \<exists>pi' m'. unmap_down pt (vpage l) (vpage (l + d - 1)) (pi, m) = ret (pi', m') \<and> length pi' = NPAGES \<and>
     pt_shape m' pt \<and>
     (\<forall>x. \<not> in_page (table4 m pt 0) x \<and> \<not> in_page (table4 m pt 1) x \<longrightarrow> m' x = m x) \<and>
     (\<forall>a. unat a < 0x400000 \<longrightarrow> virtual_memory_lookup m' pt a =
        (if l \<le> unat a div 4096 \<and> unat a div 4096 < l + d then unmapped else virtual_memory_lookup m pt a)) \<and>
     (\<forall>n<NPAGES. refcount (pi' ! n) = refcount (pi ! n) - of_nat (uses_of m pt l (l + d) n))"
proof (induction d arbitrary: m pi)
  case 0
  then have "vpage (l - 1) < vpage l"
    by (simp add: word_less_nat_alt unat_vpage)
  then show ?case
    using 0 by (subst unmap_down.simps) (auto simp: uses_of_def)
next
  case (Suc d)
  let ?j = "l + d"
  have j: "?j < 1024" "vpage l \<le> vpage ?j"
    using Suc.prems by (simp_all add: word_le_nat_alt unat_vpage)
  have "virtual_memory_lookup m pt (vpage ?j) = unmapped \<or> in_pageinfo (mapped_pn m pt ?j)"
    using Suc.prems(5) by (simp add: pages_tracked_def)
  from unmap_page_ok [OF Suc.prems(1) j(1) Suc.prems(4) this] obtain pi1 m1 where
    one: "unmap_page pt (vpage ?j) (pi, m) = ret (pi1, m1)" "length pi1 = NPAGES" "pt_shape m1 pt"
    "\<forall>i<2. table4 m1 pt i = table4 m pt i"
    "\<forall>x. \<not> in_page (table4 m pt 0) x \<and> \<not> in_page (table4 m pt 1) x \<longrightarrow> m1 x = m x"
    "\<forall>a. unat a < 0x400000 \<longrightarrow> virtual_memory_lookup m1 pt a =
       (if unat a div 4096 = ?j then unmapped else virtual_memory_lookup m pt a)"
    "\<forall>n<NPAGES. refcount (pi1 ! n) = refcount (pi ! n) - (if mapped_pn m pt ?j = of_nat n then 1 else 0)"
    by blast
  have same: "virtual_memory_lookup m1 pt (vpage v) = virtual_memory_lookup m pt (vpage v)"
      "mapped_pn m1 pt v = mapped_pn m pt v" if "v < ?j" for v
    using one(6) [rule_format, of "vpage v"] that j(1) by (simp_all add: mapped_pn_def vpage_div)
  have "pages_tracked m1 pt l ?j"
    using Suc.prems(5) same by (simp add: pages_tracked_def)
  from Suc.IH [OF one(3) Suc.prems(2) _ one(2) this] Suc.prems(3) obtain pi' m' where
    rest: "unmap_down pt (vpage l) (vpage (?j - 1)) (pi1, m1) = ret (pi', m')" "length pi' = NPAGES"
    "pt_shape m' pt" "\<forall>x. \<not> in_page (table4 m1 pt 0) x \<and> \<not> in_page (table4 m1 pt 1) x \<longrightarrow> m' x = m1 x"
    "\<forall>a. unat a < 0x400000 \<longrightarrow> virtual_memory_lookup m' pt a =
        (if l \<le> unat a div 4096 \<and> unat a div 4096 < ?j then unmapped else virtual_memory_lookup m1 pt a)"
    "\<forall>n<NPAGES. refcount (pi' ! n) = refcount (pi1 ! n) - of_nat (uses_of m1 pt l ?j n)"
    by auto
  have "vpage ?j - PAGESIZE = vpage (?j - 1)"
    using j(1) Suc.prems(2)
    by (simp add: word_unat_eq_iff unat_sub word_le_nat_alt unat_vpage PAGESIZE_def)
  then have "unmap_down pt (vpage l) (vpage ?j) (pi, m) = ret (pi', m')"
    using one(1) rest(1) j(2) by (subst unmap_down.simps) simp
  moreover have "uses_of m pt l (Suc ?j) n = uses_of m1 pt l ?j n + (if mapped_pn m pt ?j = of_nat n then 1 else 0)" for n
  proof -
    have "filter (\<lambda>v. mapped_pn m1 pt v = of_nat n) [l..<?j] = filter (\<lambda>v. mapped_pn m pt v = of_nat n) [l..<?j]"
      using same(2) by (intro filter_cong) auto
    then show ?thesis
      by (simp add: uses_of_def)
  qed
  moreover have "m' x = m x" if "\<not> in_page (table4 m pt 0) x" "\<not> in_page (table4 m pt 1) x" for x
    using that rest(4) one(4,5) by simp
  ultimately show ?case
    using rest(2,3,5,6) one(6,7) by (intro exI [of _ pi'] exI [of _ m']) (auto simp: algebra_simps)
qed

lemma shrink_below:
  assumes "sint d < 0" and "unat (b + d) < BREAK_LIMIT"
  shows "unat (b + d) < unat (b :: u64)"
  using assms sint_negative_iff [of d] unat_less_2p64 [of d]
  by (simp add: unat_plus_if_size word_size BREAK_LIMIT_def split: if_splits)

lemma sbrk_shrink:
  assumes ok: "break_ok k i" and p: "p = the_proc k i" and sh: "pt_shape (phys k) (p_pagetable p)"
    and neg: "sint d < 0" and low: "0x1000 \<le> unat (original_break p)"
    and new: "original_break p \<le> program_break p + d" "program_break p + d < MEMSIZE_VIRTUAL - PAGESIZE"
    and pi: "length (pageinfo k) = NPAGES"
  defines "l \<equiv> unat (program_break p + d) div 4096"
    and "u \<equiv> round_up_nat (unat (program_break p)) 4096 div 4096 + 1"
  assumes tr: "pages_tracked (phys k) (p_pagetable p) l u"
  shows "\<exists>k'. sbrk i d k = ret (ucast (program_break p), k') \<and>
    the_proc k' i = p\<lparr>program_break := program_break p + d\<rparr> \<and>
    (\<forall>j. j \<noteq> i \<longrightarrow> the_proc k' j = the_proc k j) \<and> pt_shape (phys k') (p_pagetable p) \<and>
    (\<forall>a. unat a < 0x400000 \<longrightarrow> virtual_memory_lookup (phys k') (p_pagetable p) a =
       (if l \<le> unat a div 4096 \<and> unat a div 4096 < u then unmapped
        else virtual_memory_lookup (phys k) (p_pagetable p) a)) \<and>
    length (pageinfo k') = NPAGES \<and>
    (\<forall>n<NPAGES. refcount (pageinfo k' ! n)
       = refcount (pageinfo k ! n) - of_nat (uses_of (phys k) (p_pagetable p) l u n))"
proof -
  let ?new = "program_break p + d" and ?m = "phys k" and ?pt = "p_pagetable p"
  have old: "unat (program_break p) < BREAK_LIMIT"
    using ok p by (simp add: break_ok_def word_less_nat_alt)
  have new': "unat ?new < BREAK_LIMIT" "0x1000 \<le> unat ?new"
    using new low by (simp_all add: word_less_nat_alt word_le_nat_alt)
  have "unat ?new < unat (program_break p)"
    by (rule shrink_below [OF neg new'(1)])
  then have le: "l \<le> unat (program_break p) div 4096"
    by (simp add: l_def div_le_mono)
  have up: "unat (program_break p) \<le> round_up_nat (unat (program_break p)) 4096"
      "round_up_nat (unat (program_break p)) 4096 \<le> 0x2FF000"
    using old by (auto intro!: round_up_nat_ge round_up_nat_least simp: BREAK_LIMIT_def)
  have lu: "0 < l" "l \<le> u" "u \<le> 1024"
    using new'(2) le up div_le_mono [OF up(1), of 4096] div_le_mono [OF up(2), of 4096]
    by (auto simp: l_def u_def div_greater_zero_iff)
  have lo: "ROUNDDOWN ?new PAGESIZE = vpage l"
    by (rule vpage_eq) (simp add: unat_ROUNDDOWN PAGESIZE_def l_def)
  have hi: "ROUNDUP (program_break p) PAGESIZE = vpage (u - 1)"
  proof (rule vpage_eq)
    have "unat (ROUNDUP (program_break p) PAGESIZE) = round_up_nat (unat (program_break p)) (unat PAGESIZE)"
      using old by (intro unat_ROUNDUP) (simp_all add: PAGESIZE_def BREAK_LIMIT_def)
    moreover have "4096 dvd round_up_nat (unat (program_break p)) 4096"
      by simp
    ultimately show "unat (ROUNDUP (program_break p) PAGESIZE) = 4096 * (u - 1)"
      by (simp add: u_def PAGESIZE_def)
  qed
  from unmap_down_ok [OF sh lu(1), of "u - l" "pageinfo k"] lu pi tr obtain pi' m' where
    r: "unmap_down ?pt (vpage l) (vpage (u - 1)) (pageinfo k, ?m) = ret (pi', m')" "length pi' = NPAGES"
    "pt_shape m' ?pt"
    "\<forall>a. unat a < 0x400000 \<longrightarrow> virtual_memory_lookup m' ?pt a =
        (if l \<le> unat a div 4096 \<and> unat a div 4096 < u then unmapped else virtual_memory_lookup ?m ?pt a)"
    "\<forall>n<NPAGES. refcount (pi' ! n) = refcount (pageinfo k ! n) - of_nat (uses_of ?m ?pt l u n)"
    by auto
  let ?k' = "upd_proc i (\<lambda>p. p\<lparr>program_break := ?new\<rparr>) (k\<lparr>pageinfo := pi', phys := m'\<rparr>)"
  have "\<not> MEMSIZE_VIRTUAL - PAGESIZE \<le> ?new" "\<not> ?new < original_break p"
    using new by (simp_all add: not_le not_less)
  then have "sbrk i d k = ret (ucast (program_break p), ?k')"
    using neg r(1) by (simp add: sbrk_def Let_def p [symmetric] lo hi)
  then show ?thesis
    using r(2-5) ok p by (intro exI [of _ ?k']) (auto simp: break_ok_def the_proc_def upd_proc_def)
qed

section \<open>The allocator on this kernel\<close>

definition the_break :: "kstate \<Rightarrow> nat" where
  "the_break k = unat (program_break (the_proc k (current k)))"

definition current_ok :: "kstate \<Rightarrow> bool" where
  "current_ok k \<longleftrightarrow> break_ok k (current k)"

interpretation kernel: sbrk_provider sys_sbrk the_break current_ok BREAK_LIMIT
proof
  fix k :: kstate and d :: u64
  assume ok: "current_ok k" and d: "unat d < 2 ^ 63"
  let ?b = "program_break (the_proc k (current k))"
  have b: "unat ?b < BREAK_LIMIT"
    using ok by (simp add: current_ok_def break_ok_def word_less_nat_alt)
  show "\<exists>k'. sys_sbrk k d = ret (of_nat (the_break k), k') \<and> current_ok k' \<and>
      the_break k' = the_break k + unat d"
    if room: "the_break k + unat d < BREAK_LIMIT"
  proof -
    have u: "unat (?b + d) = unat ?b + unat d"
      using room by (simp add: unat_word_ariths BREAK_LIMIT_def the_break_def)
    have "sys_sbrk k d = ret (?b, upd_proc (current k) (\<lambda>p. p\<lparr>program_break := program_break p + d\<rparr>) k)"
      using sbrk_grow [of k "current k" d] ok d room b break_int [of ?b]
      by (simp add: sys_sbrk_def current_ok_def the_break_def BREAK_LIMIT_def)
    then show ?thesis
      using ok u room
      by (auto simp: the_break_def current_ok_def break_ok_def word_less_nat_alt word_le_nat_alt)
  qed
  show "sys_sbrk k d = ret (- 1, k)" if room: "BREAK_LIMIT \<le> the_break k + unat d"
  proof -
    have "unat (?b + d) = unat ?b + unat d"
      using b d by (simp add: unat_word_ariths BREAK_LIMIT_def)
    then show ?thesis
      using sbrk_refused [of k "current k" d] room by (simp add: sys_sbrk_def the_break_def)
  qed
next
  show "current_ok k \<Longrightarrow> the_break k < BREAK_LIMIT" for k
    by (simp add: current_ok_def break_ok_def the_break_def word_less_nat_alt)
  show "BREAK_LIMIT \<le> 2 ^ 31"
    by (simp add: BREAK_LIMIT_def)
qed

text \<open>\<open>heap_inv lo (s, k) h\<close>: the state of the running process between two calls of the allocator. Its
  memory and the variables of \<^verbatim>\<open>malloc.c\<close> implement the abstract heap \<open>h\<close>, which is well formed
  and lies between \<open>lo\<close> and the program break.\<close>

definition heap_inv :: "nat \<Rightarrow> heap \<times> kstate \<Rightarrow> aheap \<Rightarrow> bool" where
  "heap_inv lo = (\<lambda>(s, k) h. represents s h \<and> spec_ok lo (h, the_break k) \<and> current_ok k \<and> 0 < lo)"

lemma heap_inv_state: "kernel.heap_state = heap_inv"
  by (intro ext) (simp add: kernel.heap_state_def heap_inv_def)

lemmas kernel_malloc_refines = kernel.malloc_refines [unfolded heap_inv_state]
lemmas kernel_calloc_refines = kernel.calloc_refines [unfolded heap_inv_state]
lemmas kernel_realloc_refines = kernel.realloc_refines [unfolded heap_inv_state]
lemmas kernel_heap_info_refines = kernel.heap_info_refines [unfolded heap_inv_state]
lemmas kernel_malloc_block = kernel.malloc_block [unfolded heap_inv_state]
lemmas heap_invD = kernel.heap_stateD [unfolded heap_inv_state]

section \<open>Properties of sbrk and brk\<close>

text \<open>A kernel with one process, whose heap starts at \<open>0x200000\<close> and whose program break is \<open>b\<close>.\<close>

definition some_registers :: x86_64_registers where
  "some_registers = \<lparr>reg_rax = 0, reg_rcx = 0, reg_rdx = 0, reg_rbx = 0, reg_rbp = 0, reg_rsi = 0,
     reg_rdi = 0, reg_r8 = 0, reg_r9 = 0, reg_r10 = 0, reg_r11 = 0, reg_r12 = 0, reg_r13 = 0,
     reg_r14 = 0, reg_r15 = 0, reg_fs = 0, reg_gs = 0, reg_intno = 0, reg_err = 0, reg_rip = 0,
     reg_cs = 0, reg_rflags = 0, reg_rsp = 0, reg_ss = 0\<rparr>"

definition proc_with_break :: "u64 \<Rightarrow> proc" where
  "proc_with_break b = \<lparr>p_pid = 1, p_gpid = 0, program_break = b, original_break = 0x200000,
     p_registers = some_registers, p_state = P_RUNNABLE, p_pagetable = 0, display_status = 0\<rparr>"

definition kernel_with_break :: "u64 \<Rightarrow> kstate" where
  "kernel_with_break b = \<lparr>phys = (\<lambda>_. 0), kernel_pagetable = 0, cr3 = 0, pageinfo = [],
     processes = [proc_with_break b], current = 0, ticks = 0, disp_global = 1,
     console = [], cursorpos = 0, last_ticks = 0, showing = 1, hw = some_hardware\<rparr>"

definition kernel_with_table :: "mem \<Rightarrow> u64 \<Rightarrow> kstate" where
  "kernel_with_table m b = (kernel_with_break b)
     \<lparr>phys := m, pageinfo := replicate 512 \<lparr>pg_owner = 1, refcount = 1\<rparr>,
      processes := [(proc_with_break b)\<lparr>p_pagetable := 0x50000\<rparr>]\<rparr>"

text \<open>C23. Growing the heap: \<open>sbrk\<close> with a non-negative increment moves the program break by exactly that
  increment and returns the old break when the new break stays below \<open>MEMSIZE_VIRTUAL - PAGESIZE\<close>;
  otherwise it returns -1 and changes nothing. No page is mapped or unmapped in either case.\<close>

theorem sbrk_growth:
  assumes "break_ok k i" and "unat d < 2 ^ 63"
  shows "sbrk i d k =
    (if unat (program_break (the_proc k i)) + unat d < BREAK_LIMIT
     then ret (ucast (program_break (the_proc k i)),
               upd_proc i (\<lambda>p. p\<lparr>program_break := program_break p + d\<rparr>) k)
     else ret (- 1, k))"
proof (cases "unat (program_break (the_proc k i)) + unat d < BREAK_LIMIT")
  case False
  have "unat (program_break (the_proc k i)) < BREAK_LIMIT"
    using assms(1) by (simp add: break_ok_def word_less_nat_alt)
  then have "unat (program_break (the_proc k i) + d) = unat (program_break (the_proc k i)) + unat d"
    using assms(2) by (simp add: unat_word_ariths BREAK_LIMIT_def)
  then show ?thesis
    using False by (simp add: sbrk_refused)
qed (use sbrk_grow [OF assms] in simp)

theorem sbrk_growth_witness:
  "sbrk 0 0x4000 (kernel_with_break 0x200000)
     = ret (0x200000, upd_proc 0 (\<lambda>p. p\<lparr>program_break := program_break p + 0x4000\<rparr>) (kernel_with_break 0x200000))"
proof -
  have "break_ok (kernel_with_break 0x200000) 0"
    by (simp add: break_ok_def kernel_with_break_def the_proc_def proc_with_break_def MEMSIZE_VIRTUAL_def PAGESIZE_def)
  from sbrk_growth [OF this, of "0x4000"] show ?thesis
    by (simp add: kernel_with_break_def the_proc_def proc_with_break_def BREAK_LIMIT_def)
qed

text \<open>C24. Shrinking the heap to a break that is still inside the heap: the loop over the pages terminates,
  the break moves, every virtual page from the one that contains the new break up to the one at
  the rounded-up old break is unmapped, every other translation of the process is kept, and the
  reference count of a physical page drops once for every unmapped virtual page that used it.\<close>

theorem sbrk_shrinks:
  assumes "break_ok k i" and "p = the_proc k i" and "pt_shape (phys k) (p_pagetable p)"
    and "sint d < 0" and "0x1000 \<le> unat (original_break p)"
    and "original_break p \<le> program_break p + d" and "program_break p + d < MEMSIZE_VIRTUAL - PAGESIZE"
    and "length (pageinfo k) = NPAGES" and "l = unat (program_break p + d) div 4096"
    and "u = round_up_nat (unat (program_break p)) 4096 div 4096 + 1"
    and "pages_tracked (phys k) (p_pagetable p) l u"
  shows "\<exists>k'. sbrk i d k = ret (ucast (program_break p), k') \<and>
    the_proc k' i = p\<lparr>program_break := program_break p + d\<rparr> \<and>
    (\<forall>j. j \<noteq> i \<longrightarrow> the_proc k' j = the_proc k j) \<and>
    (\<forall>a. unat a < 0x400000 \<longrightarrow> virtual_memory_lookup (phys k') (p_pagetable p) a =
       (if l \<le> unat a div 4096 \<and> unat a div 4096 < u then unmapped
        else virtual_memory_lookup (phys k) (p_pagetable p) a)) \<and>
    (\<forall>n<NPAGES. refcount (pageinfo k' ! n)
       = refcount (pageinfo k ! n) - of_nat (uses_of (phys k) (p_pagetable p) l u n))"
  using sbrk_shrink [OF assms(1-8)] assms(9-11) by blast

lemma kernel_table_exists:
  "\<exists>m. pt_shape m 0x50000 \<and> (\<forall>a. 0x200000 \<le> unat a \<and> unat a < 0x400000 \<longrightarrow>
     virtual_memory_lookup m 0x50000 a = unmapped)"
  using virtual_memory_init_maps [OF some_link_map_ok] unfolding unmapped_def
  by (simp add: some_link_map_def) blast

theorem sbrk_shrinks_witness:
  "\<exists>m k'. pt_shape m 0x50000 \<and> sbrk 0 (- 0x2000) (kernel_with_table m 0x204000) = ret (0x204000, k') \<and>
     program_break (the_proc k' 0) = 0x202000"
proof -
  obtain m where m: "pt_shape m 0x50000"
    "\<forall>a. 0x200000 \<le> unat a \<and> unat a < 0x400000 \<longrightarrow> virtual_memory_lookup m 0x50000 a = unmapped"
    using kernel_table_exists by blast
  let ?k = "kernel_with_table m 0x204000" and ?p = "(proc_with_break 0x204000)\<lparr>p_pagetable := 0x50000\<rparr>"
  have p: "?p = the_proc ?k 0"
    by (simp add: the_proc_def kernel_with_table_def)
  have ok: "break_ok ?k 0"
    by (simp add: break_ok_def p [symmetric]) (simp add: kernel_with_table_def proc_with_break_def MEMSIZE_VIRTUAL_def PAGESIZE_def)
  have tr: "pages_tracked m 0x50000 0x202 0x205"
    using m(2) by (auto simp: pages_tracked_def unat_vpage)
  show ?thesis
    using sbrk_shrinks [OF ok p, of "- 0x2000" "0x202" "0x205"] m(1) tr
    by (auto simp: kernel_with_table_def proc_with_break_def MEMSIZE_VIRTUAL_def PAGESIZE_def NPAGES_def round_up_nat_def
        kernel_with_break_def)
qed



text \<open>\<open>brk\<close> to an address at or above the current break sets the break to exactly that address and
  returns 0 when the address is below \<open>MEMSIZE_VIRTUAL - PAGESIZE\<close>; an address outside
  [original break, \<open>MEMSIZE_VIRTUAL - PAGESIZE\<close>) is refused with -1 and nothing changes.\<close>

theorem brk_sets_break:
  assumes "break_ok k i"
  shows "(unat (program_break (the_proc k i)) \<le> unat a \<and> unat a < BREAK_LIMIT \<longrightarrow>
      brk i a k = ret (0, upd_proc i (\<lambda>p. p\<lparr>program_break := a\<rparr>) k)) \<and>
    (BREAK_LIMIT \<le> unat a \<or> a < original_break (the_proc k i) \<longrightarrow> brk i a k = ret (- 1, k))"
proof -
  let ?p = "the_proc k i"
  let ?d = "a - program_break ?p"
  have b: "unat (program_break ?p) < BREAK_LIMIT"
    using assms by (simp add: break_ok_def word_less_nat_alt)
  have nr: "ucast (program_break ?p) \<noteq> (- 1 :: u32)"
  proof
    assume "ucast (program_break ?p) = (- 1 :: u32)"
    then have "scast (- 1 :: u32) = program_break ?p"
      using break_int [of "program_break ?p"] b by (simp add: BREAK_LIMIT_def)
    then have "program_break ?p = - 1"
      by simp
    then show False
      using b by (simp add: BREAK_LIMIT_def unsigned_minus_1_eq_mask mask_eq_exp_minus_1)
  qed
  have up: "brk i a k = ret (0, upd_proc i (\<lambda>p. p\<lparr>program_break := a\<rparr>) k)"
    if "unat (program_break ?p) \<le> unat a" "unat a < BREAK_LIMIT"
  proof -
    have "unat ?d = unat a - unat (program_break ?p)"
      using that by (simp add: unat_sub word_le_nat_alt)
    then have "sbrk i ?d k = ret (ucast (program_break ?p), upd_proc i (\<lambda>p. p\<lparr>program_break := program_break p + ?d\<rparr>) k)"
      using that by (intro sbrk_grow [OF assms]) (simp_all add: BREAK_LIMIT_def)
    then show ?thesis
      using nr by (simp add: brk_def Let_def upd_proc_def the_proc_def)
  qed
  moreover have "brk i a k = ret (- 1, k)" if "BREAK_LIMIT \<le> unat a \<or> a < original_break ?p"
    using that sbrk_refused [of k i ?d] by (simp add: brk_def Let_def)
  ultimately show ?thesis
    by blast
qed

theorem brk_sets_break_witness:
  "brk 0 0x234567 (kernel_with_break 0x200000)
     = ret (0, upd_proc 0 (\<lambda>p. p\<lparr>program_break := 0x234567\<rparr>) (kernel_with_break 0x200000))"
proof -
  have "break_ok (kernel_with_break 0x200000) 0"
    by (simp add: break_ok_def kernel_with_break_def the_proc_def proc_with_break_def MEMSIZE_VIRTUAL_def PAGESIZE_def)
  from brk_sets_break [OF this, of "0x234567"] show ?thesis
    by (simp add: kernel_with_break_def the_proc_def proc_with_break_def BREAK_LIMIT_def)
qed

end
