(* ===== verification/Allocator_Properties.thy ===== *)
theory Allocator_Properties
  imports Process_Memory
begin

text \<open>
  The theorems about the allocator as a process on this kernel uses it: \<open>malloc\<close>, \<open>calloc\<close>,
  \<open>realloc\<close>, \<open>free\<close> and \<open>defrag\<close> of \<^verbatim>\<open>uspace/malloc.c\<close> with the system call \<open>sbrk\<close> of
  \<^verbatim>\<open>kernel/kernel.c\<close>. They instantiate the lemmas of the theory \<open>Malloc\<close> with the interpretation
  \<open>kernel\<close>.
\<close>

lemma alloc_separate:
  assumes "wf_heap lo hi h" and "(a, z, i) \<in> set (allocs h)" and "(b, y, j) \<in> set (allocs h)"
    and "(a, z, i) \<noteq> (b, y, j)"
  shows "separate (a, z) (b, y)"
proof -
  have "a \<noteq> b"
    using alloc_unique [OF assms(1), of a z i y j] assms(2-4) by auto
  then show ?thesis
    using assms(1) alloc_in_blocks [OF assms(2)] alloc_in_blocks [OF assms(3)]
    by (auto simp: wf_heap_def layout_def pairwise_def)
qed

lemma spec_free_moves:
  assumes wf: "wf_heap lo hi h" and blk: "(a, z, n) \<in> set (allocs h)"
  shows "(a, z) \<in> set (frees (spec_free (a + 32) h))"
    and "set (allocs (spec_free (a + 32) h)) = set (allocs h) - {(a, z, n)}"
proof -
  from split_list_first_prop [of "allocs h" "\<lambda>(b, y, j). b + 32 = a + 32"] blk obtain xs b y j ys where
    al: "allocs h = xs @ (b, y, j) # ys" "b = a" "\<forall>x\<in>set xs. \<not> (case x of (b, y, j) \<Rightarrow> b + 32 = a + 32)"
    by fastforce
  then have eq: "(b, y, j) = (a, z, n)"
    using alloc_unique [OF wf, of a y j z n] blk by auto
  have ex: "List.extract (\<lambda>(b, y, j). b + 32 = a + 32) (allocs h) = Some (xs, (a, z, n), ys)"
    using al eq by (intro extract_at) auto
  have "distinct (allocs h)"
    using layout_distinct_fst [of lo hi "blocks h"] wf by (auto simp: wf_heap_def blocks_def distinct_map)
  then show "set (allocs (spec_free (a + 32) h)) = set (allocs h) - {(a, z, n)}"
    using ex al(1) eq by (auto simp: spec_free_def)
  show "(a, z) \<in> set (frees (spec_free (a + 32) h))"
    using ex by (simp add: spec_free_def)
qed

section \<open>A process with a small heap\<close>

text \<open>The states in which the theorems are exercised: a process with an empty heap at \<open>0x200000\<close>,
  and the same process after a first chunk was split into an allocated block of 16 bytes and a
  free rest.\<close>

definition empty_heap :: heap where
  "empty_heap = \<lparr>bytes = (\<lambda>_. 0), free_head = 0, free_tail = 0, alloc_head = 0, alloc_tail = 0,
     free_list_size = 0, alloc_list_size = 0\<rparr>"

definition one_block_heap :: heap where
  "one_block_heap =
     put_field 0x200000 Size 48 (put_field 0x200000 Alloc_bytes 16 (put_field 0x200030 Size 16336
       \<lparr>bytes = (\<lambda>_. 0), free_head = 0x200030, free_tail = 0x200030, alloc_head = 0x200000,
        alloc_tail = 0x200000, free_list_size = 1, alloc_list_size = 1\<rparr>))"

lemma empty_heap_inv:
  "heap_inv 0x200000 (empty_heap, kernel_with_break 0x200000) \<lparr>frees = [], allocs = []\<rparr>"
proof -
  have "heap_lists empty_heap [] []"
    by (simp add: heap_lists_def empty_heap_def links_def apart_def)
  then have "represents empty_heap \<lparr>frees = [], allocs = []\<rparr>"
    unfolding represents_def by (intro exI [of _ "[]"]) (simp add: abs_heap_def)
  then show ?thesis
    by (simp add: heap_inv_def spec_ok_def wf_heap_def blocks_def the_break_def current_ok_def break_ok_def
        kernel_with_break_def the_proc_def proc_with_break_def MEMSIZE_VIRTUAL_def PAGESIZE_def)
qed

lemma one_block_sep: "node_sep 0x200000 0x200030" "node_sep 0x200030 0x200000"
  "node_sep 0x200000 0x200000" "node_sep 0x200030 0x200030"
  by (simp_all add: node_sep_def node_ok_def aligned8_def)

lemma one_block_fields:
  "get_field one_block_heap 0x200000 Size = 48" "get_field one_block_heap 0x200000 Alloc_bytes = 16"
  "get_field one_block_heap 0x200000 Prev = 0" "get_field one_block_heap 0x200000 Next = 0"
  "get_field one_block_heap 0x200030 Size = 16336"
  "get_field one_block_heap 0x200030 Prev = 0" "get_field one_block_heap 0x200030 Next = 0"
  by (simp_all add: one_block_heap_def es.get_put one_block_sep) (simp_all add: get_field_def load64_def)

lemma one_block_inv:
  "heap_inv 0x200000 (one_block_heap, kernel_with_break 0x204000)
     \<lparr>frees = [(0x200030, 16336)], allocs = [(0x200000, 48, 16)]\<rparr>"
proof -
  have "heap_lists one_block_heap [0x200030] [0x200000]"
    using one_block_sep by (simp add: heap_lists_def one_block_fields links_def apart_def) (simp add: one_block_heap_def)
  moreover have "abs_heap one_block_heap [0x200030] [0x200000]
      = \<lparr>frees = [(0x200030, 16336)], allocs = [(0x200000, 48, 16)]\<rparr>"
    by (simp add: abs_heap_def free_block_def alloc_block_def one_block_fields)
  ultimately have "represents one_block_heap \<lparr>frees = [(0x200030, 16336)], allocs = [(0x200000, 48, 16)]\<rparr>"
    unfolding represents_def by metis
  then show ?thesis
    by (simp add: heap_inv_def spec_ok_def wf_heap_def blocks_def the_break_def current_ok_def break_ok_def
        kernel_with_break_def the_proc_def proc_with_break_def MEMSIZE_VIRTUAL_def PAGESIZE_def
        layout_Cons block_ok_def separate_def)
qed

section \<open>malloc\<close>

text \<open>C1. \<open>malloc\<close> refines its specification on every well-formed heap: it returns (it neither
  loops nor faults), its result, the new heap and the new program break are those of
  \<open>spec_malloc\<close>, the heap stays well formed, and no byte outside the block headers is written.\<close>

theorem malloc_refines_spec:
  assumes "heap_inv lo (s, k) h" and "unat n \<le> 2 ^ 62"
  shows "\<exists>r t k' h'. malloc sys_sbrk n (s, k) = ret (r, t, k') \<and>
    spec_malloc BREAK_LIMIT (unat n) (h, the_break k) = (unat r, h', the_break k') \<and>
    heap_inv lo (t, k') h' \<and> headers_only h' s t"
  by (rule kernel_malloc_refines [OF assms])

theorem malloc_refines_spec_witness:
  "\<exists>r t k' h'. malloc sys_sbrk 100 (empty_heap, kernel_with_break 0x200000) = ret (r, t, k') \<and>
    spec_malloc BREAK_LIMIT 100 (\<lparr>frees = [], allocs = []\<rparr>, 0x200000) = (unat r, h', the_break k') \<and>
    heap_inv 0x200000 (t, k') h' \<and> headers_only h' empty_heap t"
  using malloc_refines_spec [OF empty_heap_inv, of 100]
  by (simp add: the_break_def kernel_with_break_def the_proc_def proc_with_break_def)

text \<open>C2. A pointer that \<open>malloc\<close> returns is safe to use: it is a multiple of 8 with \<open>n\<close> bytes inside the
  heap behind it, these bytes are disjoint from the whole block of every allocation that was live
  before the call, and all those allocations keep their contents.\<close>

theorem malloc_block_is_fresh:
  assumes "heap_inv lo (s, k) h" and "unat n \<le> 2 ^ 62"
    and "malloc sys_sbrk n (s, k) = ret (r, t, k')" and "r \<noteq> 0"
  shows "aligned8 r \<and> lo + 32 \<le> unat r \<and> unat r + unat n \<le> the_break k' \<and>
    (\<forall>(b, z, j)\<in>set (allocs h). b + z \<le> unat r - 32 \<or> unat r + unat n \<le> b) \<and>
    (\<forall>(b, z, j)\<in>set (allocs h). \<forall>x. b + 32 \<le> unat x \<and> unat x < b + z \<longrightarrow> bytes t x = bytes s x)"
proof -
  from kernel_malloc_refines [OF assms(1,2)] assms(3) obtain h' where
    sp: "spec_malloc BREAK_LIMIT (unat n) (h, the_break k) = (unat r, h', the_break k')"
    and inv: "heap_inv lo (t, k') h'" and ho: "headers_only h' s t"
    by auto
  from kernel_malloc_block [OF sp assms(4) inv] obtain a sz where
    b: "unat r = a + 32" "unat n + 32 \<le> sz" "(a, sz, unat n) \<in> set (allocs h')"
    "set (allocs h') = insert (a, sz, unat n) (set (allocs h))" "(a, sz, unat n) \<notin> set (allocs h)" .
  note d = heap_invD [OF inv]
  have ok: "block_ok lo (the_break k') (a, sz)"
    by (rule alloc_block_ok [OF d(2) b(3)])
  have sep: "c + z \<le> a \<or> a + sz \<le> c" if "(c, z, j) \<in> set (allocs h)" for c z j
    using alloc_separate [OF d(2) b(3), of c z j] that b(4,5) by (auto simp: separate_def)
  have kept: "bytes t x = bytes s x" if "(c, z, j) \<in> set (allocs h)" "c + 32 \<le> unat x" "unat x < c + z" for c z j x
    using payload_kept [OF ho d(2), of c z j x] that b(4) by simp
  have "aligned8 r" "lo + 32 \<le> unat r" "unat r + unat n \<le> the_break k'"
    using ok b(1,2) by (auto simp: block_ok_def aligned8_def)
  moreover have "\<forall>(c, z, j)\<in>set (allocs h). c + z \<le> unat r - 32 \<or> unat r + unat n \<le> c"
    using sep b(1,2) by fastforce
  ultimately show ?thesis
    using kept by blast
qed

theorem malloc_block_is_fresh_witness:
  "\<exists>r t k'. malloc sys_sbrk 100 (one_block_heap, kernel_with_break 0x204000) = ret (r, t, k') \<and> r \<noteq> 0 \<and>
     aligned8 r \<and> 0x200000 + 32 \<le> unat r \<and> unat r + 100 \<le> the_break k' \<and>
     (0x200030 \<le> unat r - 32 \<or> unat r + 100 \<le> 0x200000)"
proof -
  let ?h = "\<lparr>frees = [(0x200030, 16336)], allocs = [(0x200000, 48, 16)]\<rparr>"
  obtain r t k' h' where m: "malloc sys_sbrk 100 (one_block_heap, kernel_with_break 0x204000) = ret (r, t, k')"
    "spec_malloc BREAK_LIMIT 100 (?h, the_break (kernel_with_break 0x204000)) = (unat r, h', the_break k')"
    using kernel_malloc_refines [OF one_block_inv, of 100] by auto
  have "unat r \<noteq> 0"
    using m(2) by (simp add: spec_malloc_def spec_take_def required_size_def round_up_nat_def extract_Cons_code)
  then have "r \<noteq> 0"
    by auto
  then show ?thesis
    using malloc_block_is_fresh [OF one_block_inv _ m(1)] m(1) by auto
qed

text \<open>C3. \<open>malloc\<close> returns \<open>NULL\<close> only when it has to: for a request of zero bytes, or when no free block
  is large enough and the chunk that would have to be added does not fit below the limit of the
  program break; then the heap and the program break are unchanged.\<close>

theorem malloc_null_only_if_full:
  assumes "heap_inv lo (s, k) h" and "unat n \<le> 2 ^ 62"
    and "malloc sys_sbrk n (s, k) = ret (0, t, k')"
  shows "(n = 0 \<or> (\<forall>(a, sz)\<in>set (frees h). sz < required_size (unat n)) \<and>
           BREAK_LIMIT \<le> the_break k + chunk_size (unat n)) \<and>
    the_break k' = the_break k \<and> represents t h"
proof -
  from kernel_malloc_refines [OF assms(1,2)] assms(3) obtain h' where
    sp: "spec_malloc BREAK_LIMIT (unat n) (h, the_break k) = (0, h', the_break k')"
    and inv: "heap_inv lo (t, k') h'"
    by auto
  then show ?thesis
    using spec_malloc_null [OF sp] heap_invD(1) [OF inv] by (simp add: unat_eq_0)
qed

theorem malloc_null_only_if_full_witness:
  "\<exists>t k'. malloc sys_sbrk 0xFF000 (empty_heap, kernel_with_break 0x200000) = ret (0, t, k') \<and>
     BREAK_LIMIT \<le> the_break (kernel_with_break 0x200000) + chunk_size (unat (0xFF000 :: u64))"
proof -
  obtain r t k' h' where m: "malloc sys_sbrk 0xFF000 (empty_heap, kernel_with_break 0x200000) = ret (r, t, k')"
    "spec_malloc BREAK_LIMIT 0xFF000 (\<lparr>frees = [], allocs = []\<rparr>, the_break (kernel_with_break 0x200000))
       = (unat r, h', the_break k')"
    using kernel_malloc_refines [OF empty_heap_inv, of "0xFF000"] by auto
  have "unat r = 0"
    using m(2) by (simp add: spec_malloc_def spec_take_def required_size_def chunk_size_def round_up_nat_def
        extract_Nil_code BREAK_LIMIT_def the_break_def kernel_with_break_def the_proc_def proc_with_break_def)
  then have "r = 0"
    by (simp add: unat_eq_0)
  then show ?thesis
    using malloc_null_only_if_full [OF empty_heap_inv _ m(1) [unfolded \<open>r = 0\<close>]] m(1) by auto
qed

section \<open>free and defrag\<close>

text \<open>C4. \<open>free\<close> of a pointer that \<open>malloc\<close> returned: the call returns, the block leaves the allocated
  list and enters the free list at its place in address order, the heap stays well formed and
  covers the same bytes, and the contents of all other allocations are kept.\<close>

theorem free_refines_spec:
  assumes "heap_inv lo (s, k) h" and "(a, z, n) \<in> set (allocs h)" and "unat ptr = a + 32"
  shows "\<exists>t. free ptr s = Some t \<and> heap_inv lo (t, k) (spec_free (a + 32) h) \<and>
    (a, z) \<in> set (frees (spec_free (a + 32) h)) \<and>
    set (allocs (spec_free (a + 32) h)) = set (allocs h) - {(a, z, n)} \<and>
    covered (blocks (spec_free (a + 32) h)) = covered (blocks h) \<and>
    (\<forall>(b, y, j)\<in>set (allocs h). \<forall>x. b + 32 \<le> unat x \<and> unat x < b + y \<longrightarrow> bytes t x = bytes s x)"
proof -
  note d = heap_invD [OF assms(1)]
  from free_refines [OF d(1,2,6,8) assms(2,3)] obtain t where
    t: "free ptr s = Some t" "represents t (spec_free (a + 32) h)" "headers_only h s t"
    by blast
  have "heap_inv lo (t, k) (spec_free (a + 32) h)"
    using assms(1) t(2) spec_free_wf(1) [OF d(2)] by (simp add: heap_inv_def spec_ok_def)
  then show ?thesis
    using t spec_free_wf(2) [OF d(2)] spec_free_moves [OF d(2) assms(2)] payload_kept [OF t(3) d(2)] by auto
qed

theorem free_refines_spec_witness:
  "\<exists>t. free 0x200020 one_block_heap = Some t \<and>
    heap_inv 0x200000 (t, kernel_with_break 0x204000)
      (spec_free 0x200020 \<lparr>frees = [(0x200030, 16336)], allocs = [(0x200000, 48, 16)]\<rparr>)"
  using free_refines_spec [OF one_block_inv, of "0x200000" 48 16 "0x200020"] by auto

text \<open>C5. \<open>defrag\<close> terminates, merges every pair of adjacent free blocks, and keeps the free bytes, the
  allocated blocks, their contents and the well-formedness of the heap.\<close>

theorem defrag_coalesces:
  assumes "heap_inv lo (s, k) h"
  shows "\<exists>t h'. defrag s = Some t \<and> heap_inv lo (t, k) h' \<and>
    allocs h' = allocs h \<and> covered (frees h') = covered (frees h) \<and>
    (\<forall>b\<in>set (frees h'). \<forall>c\<in>set (frees h'). fst b + snd b \<noteq> fst c) \<and>
    (\<forall>(b, y, j)\<in>set (allocs h). \<forall>x. b + 32 \<le> unat x \<and> unat x < b + y \<longrightarrow> bytes t x = bytes s x)"
proof -
  note d = heap_invD [OF assms]
  from defrag_refines [OF d(1,2,8)] obtain t where
    t: "defrag s = Some t" "represents t (spec_defrag h)" "headers_only h s t"
    by blast
  have "heap_inv lo (t, k) (spec_defrag h)"
    using assms t(2) spec_defrag_wf(1) [OF d(2)] by (simp add: heap_inv_def spec_ok_def)
  then show ?thesis
    using t(1) spec_defrag_wf [OF d(2)] spec_defrag_maximal [OF d(2)] payload_kept [OF t(3) d(2)]
    by (intro exI [of _ t] exI [of _ "spec_defrag h"]) auto
qed

theorem defrag_coalesces_witness:
  "\<exists>t h'. defrag one_block_heap = Some t \<and> heap_inv 0x200000 (t, kernel_with_break 0x204000) h' \<and>
    allocs h' = [(0x200000, 48, 16)]"
  using defrag_coalesces [OF one_block_inv] by auto

section \<open>calloc and realloc\<close>

text \<open>C6. \<open>calloc\<close> allocates \<open>num * sz\<close> bytes like \<open>malloc\<close>, all of them zero, and keeps the contents of
  the other allocations.\<close>

theorem calloc_zeroes:
  assumes "heap_inv lo (s, k) h" and "unat num * unat sz \<le> 2 ^ 62"
  shows "\<exists>r t k' h'. calloc sys_sbrk num sz (s, k) = ret (r, t, k') \<and>
    spec_malloc BREAK_LIMIT (unat num * unat sz) (h, the_break k) = (unat r, h', the_break k') \<and>
    heap_inv lo (t, k') h' \<and>
    (r \<noteq> 0 \<longrightarrow> (\<forall>i. unat i < unat num * unat sz \<longrightarrow> bytes t (r + i) = 0)) \<and>
    (\<forall>(b, y, j)\<in>set (allocs h). \<forall>x. b + 32 \<le> unat x \<and> unat x < b + y \<longrightarrow> bytes t x = bytes s x)"
  by (rule kernel_calloc_refines [OF assms])

theorem calloc_zeroes_witness:
  "\<exists>r t k'. calloc sys_sbrk 4 8 (one_block_heap, kernel_with_break 0x204000) = ret (r, t, k') \<and>
    (r \<noteq> 0 \<longrightarrow> (\<forall>i. unat i < 32 \<longrightarrow> bytes t (r + i) = 0))"
  using calloc_zeroes [OF one_block_inv, of 4 8] by auto

text \<open>C7. \<open>calloc\<close> refuses exactly the products that overflow: its division test is equivalent to
  \<open>num * sz\<close> not fitting into 64 bits, and then it returns \<open>NULL\<close> and changes nothing.\<close>

theorem calloc_overflow_guard:
  "(sz > (- 1 :: u64) div num \<and> num \<noteq> 0 \<longleftrightarrow> 2 ^ 64 \<le> unat num * unat sz) \<and>
   (2 ^ 64 \<le> unat num * unat sz \<longrightarrow> calloc sys_sbrk num sz (s, k) = ret (0, s, k))"
  using calloc_guard [of num sz] calloc_overflow [of num sz sys_sbrk s k] by (cases "num = 0") auto

theorem calloc_overflow_guard_witness:
  "calloc sys_sbrk 0x100000000 0x100000000 (empty_heap, kernel_with_break 0x200000)
     = ret (0, empty_heap, kernel_with_break 0x200000)"
  using calloc_overflow_guard [of "0x100000000" "0x100000000" empty_heap "kernel_with_break 0x200000"] by simp



section \<open>heap_info\<close>

text \<open>C9. \<open>heap_info\<close> reports the heap truthfully: it returns, the number of live blocks, the free bytes and
  the largest free block are those of the heap before the call, and on success (result 0) the two
  arrays list the requested size and the address of every live block, in descending order of size
  and without the two arrays themselves. It answers -1 exactly when one of its two allocations
  fails; the heap stays well formed and the live blocks keep their contents.\<close>

theorem heap_info_reports:
  assumes "heap_inv lo (s, k) h"
  shows "\<exists>r info t k' h'. heap_info sys_sbrk info0 (s, k) = ret (r, info, t, k') \<and>
    spec_heap_info BREAK_LIMIT (h, the_break k) = (r = 0, h', the_break k') \<and> (r = 0 \<or> r = - 1) \<and>
    heap_inv lo (t, k') h' \<and> totals info h \<and>
    sorted_wrt (\<lambda>b c. snd (snd c) \<le> snd (snd b)) (allocs h) \<and> (r = 0 \<longrightarrow> reports t info h) \<and>
    contents_kept h s t"
  using kernel_heap_info_refines [OF assms, of info0] heap_invD(2) [OF assms] by (auto simp: wf_heap_def)

theorem heap_info_reports_witness:
  "\<exists>info t k'. heap_info sys_sbrk \<lparr>num_allocs = 0, size_array = 0, ptr_array = 0, free_space = 0, largest_free_chunk = 0\<rparr>
      (one_block_heap, kernel_with_break 0x204000) = ret (0, info, t, k') \<and>
    unat (num_allocs info) = 1 \<and> unat (free_space info) = 16336 \<and> unat (largest_free_chunk info) = 16336 \<and>
    load64 (bytes t) (size_array info) = 16 \<and> load64 (bytes t) (ptr_array info) = 0x200020"
proof -
  let ?h = "\<lparr>frees = [(0x200030, 16336)], allocs = [(0x200000, 48, 16)]\<rparr>"
  have "fst (spec_heap_info BREAK_LIMIT (?h, the_break (kernel_with_break 0x204000)))"
    by (simp add: spec_heap_info_def spec_malloc_def spec_take_def required_size_def round_up_nat_def
        extract_Cons_code ins_free_def)
  then show ?thesis
    using heap_info_reports [OF one_block_inv,
        of "\<lparr>num_allocs = 0, size_array = 0, ptr_array = 0, free_space = 0, largest_free_chunk = 0\<rparr>"]
    by (auto simp: totals_def reports_def)
qed

end
