(* ===== verification/Keyboard.thy ===== *)
theory Keyboard
  imports Page_Tables
begin

text \<open>
  The keyboard driver of \<^verbatim>\<open>kernel/k-hardware.c\<close>: \<open>keyboard_readc\<close> as a state machine over scan codes,
  and the decision \<open>check_keyboard\<close> takes for a typed character. The two bytes read from the
  controller (status and data) are inputs.
\<close>

section \<open>Tables\<close>

definition MOD_SHIFT :: u8 where "MOD_SHIFT = 1"
definition MOD_CONTROL :: u8 where "MOD_CONTROL = 2"
definition MOD_CAPSLOCK :: u8 where "MOD_CAPSLOCK = 8"

definition KEY_SHIFT :: u8 where "KEY_SHIFT = 250"
definition KEY_CONTROL :: u8 where "KEY_CONTROL = 251"
definition KEY_ALT :: u8 where "KEY_ALT = 252"
definition KEY_CAPSLOCK :: u8 where "KEY_CAPSLOCK = 253"
definition KEY_NUMLOCK :: u8 where "KEY_NUMLOCK = 254"
definition KEY_SCROLLLOCK :: u8 where "KEY_SCROLLLOCK = 255"

definition CKEY :: "u8 \<Rightarrow> u8" where "CKEY cn = 0x80 + cn"

lemmas key_defs = MOD_SHIFT_def MOD_CONTROL_def MOD_CAPSLOCK_def KEY_SHIFT_def KEY_CONTROL_def
  KEY_ALT_def KEY_CAPSLOCK_def KEY_NUMLOCK_def KEY_SCROLLLOCK_def CKEY_def

definition keymap :: "u8 list" where
  "keymap =
     [0, 27, CKEY 0, CKEY 1, CKEY 2, CKEY 3, CKEY 4, CKEY 5,
      CKEY 6, CKEY 7, CKEY 8, CKEY 9, CKEY 10, CKEY 11, 8, 9,
      113, 119, 101, 114, 116, 121, 117, 105,
      111, 112, CKEY 12, CKEY 13, CKEY 14, KEY_CONTROL, 97, 115,
      100, 102, 103, 104, 106, 107, 108, CKEY 15,
      CKEY 16, CKEY 17, KEY_SHIFT, CKEY 18, 122, 120, 99, 118,
      98, 110, 109, CKEY 19, CKEY 20, CKEY 21, KEY_SHIFT, 42,
      KEY_ALT, 32, KEY_CAPSLOCK, 0, 0, 0, 0, 0,
      0, 0, 0, 0, 0, KEY_NUMLOCK, KEY_SCROLLLOCK, 55,
      56, 57, 45, 52, 53, 54, 43, 49,
      50, 51, 48, 46, 0, 0, 0, 0, 0, 0, 0, 0, 0, 0, 0, 0,
      0, 0, 0, 0, 0, 0, 0, 0, 0, 0, 0, 0, 0, 0, 0, 0,
      0, 0, 0, 0, 0, 0, 0, 0, 0, 0, 0, 0, 0, 0, 0, 0,
      0, 0, 0, 0, 0, 0, 0, 0, 0, 0, 0, 0, 0, 0, 0, 0,
      0, 0, 0, 0, 0, 0, 0, 0, 0, 0, 0, 0, CKEY 14, KEY_CONTROL, 0, 0,
      0, 0, 0, 0, 0, 0, 0, 0, 0, 0, 0, 0, 0, 0, 0, 0,
      0, 0, 0, 0, 0, 47, 0, 0, KEY_ALT, 0, 0, 0, 0, 0, 0, 0,
      0, 0, 0, 0, 0, 0, 0, 196,
      192, 198, 0, 195, 0, 193, 0, 197,
      194, 199, 200, 201, 0, 0, 0, 0,
      0, 0, 0, 0, 0, 0, 0, 0,
      0, 0, 0, 0, 0, 0, 0, 0, 0, 0, 0, 0, 0, 0, 0, 0,
      0, 0, 0, 0, 0, 0, 0, 0, 0, 0, 0, 0, 0, 0, 0, 0]"

definition complex_keymap :: "u8 list list" where
  "complex_keymap =
     [[49, 33, 0, 0], [50, 64, 0, 0], [51, 35, 0, 0], [52, 36, 0, 0],
      [53, 37, 0, 0], [54, 94, 0, 30], [55, 38, 0, 0], [56, 42, 0, 0],
      [57, 40, 0, 0], [48, 41, 0, 0], [45, 95, 0, 31], [61, 43, 0, 0],
      [91, 123, 27, 0], [93, 125, 29, 0], [10, 10, 13, 13],
      [59, 58, 0, 0], [39, 34, 0, 0], [96, 126, 0, 0],
      [92, 124, 28, 0], [44, 60, 0, 0], [46, 62, 0, 0], [47, 63, 0, 0]]"

section \<open>Reading a character\<close>

text \<open>The static variables of \<open>keyboard_readc\<close>.\<close>

record keyboard =
  modifiers :: u8
  last_escape :: u8

text \<open>The translation of a key press; \<open>None\<close> is an access outside \<open>complex_keymap\<close>.\<close>

definition key_press :: "u8 \<Rightarrow> keyboard \<Rightarrow> (u32 \<times> keyboard) option" where
  "key_press ch kb =
     (let mods = modifiers kb
      in if 97 \<le> ch \<and> ch \<le> 122 then
           (if mods AND MOD_CONTROL \<noteq> 0 then Some (ucast ch - 0x60, kb)
            else if (mods AND MOD_SHIFT = 0) \<noteq> (mods AND MOD_CAPSLOCK = 0) then Some (ucast ch - 0x20, kb)
            else Some (ucast ch, kb))
         else if ch \<ge> KEY_CAPSLOCK then
           Some (0, kb\<lparr>modifiers := mods XOR push_bit (unat (ch - KEY_SHIFT)) 1\<rparr>)
         else if ch \<ge> KEY_SHIFT then
           Some (0, kb\<lparr>modifiers := mods OR push_bit (unat (ch - KEY_SHIFT)) 1\<rparr>)
         else if CKEY 0 \<le> ch \<and> ch \<le> CKEY 21 then
           (let i = unat (ch - CKEY 0); j = unat (mods AND 3)
            in if i < length complex_keymap \<and> j < 4 then Some (ucast (complex_keymap ! i ! j), kb) else None)
         else if ch < 0x80 \<and> mods AND MOD_CONTROL \<noteq> 0 then Some (0, kb)
         else Some (ucast ch, kb))"

definition keyboard_readc :: "u8 \<Rightarrow> u8 \<Rightarrow> keyboard \<Rightarrow> (u32 \<times> keyboard) option" where
  "keyboard_readc status data kb =
     (if status AND 1 = 0 then Some (- 1, kb)
      else
        let escape = last_escape kb; kb1 = kb\<lparr>last_escape := 0\<rparr>
        in if data = 0xE0 then Some (0, kb1\<lparr>last_escape := 0x80\<rparr>)
           else if data AND 0x80 \<noteq> 0 then
             (let ch = keymap ! unat ((data AND 0x7F) OR escape)
              in if ch \<ge> KEY_SHIFT \<and> ch < KEY_CAPSLOCK
                 then Some (0, kb1\<lparr>modifiers := modifiers kb1 AND NOT (push_bit (unat (ch - KEY_SHIFT)) 1)\<rparr>)
                 else Some (0, kb1))
           else key_press (keymap ! unat (data OR escape)) kb1)"

section \<open>Control keys\<close>

text \<open>What \<open>check_keyboard\<close> does with the character read: reboot the kernel with a command string,
  power off, or return. Before a reboot it builds a temporary page table at \<open>0x8000\<close>, whose level-3
  entry maps the first 2 MB with a large page.\<close>

definition PTE_PS :: u64 where "PTE_PS = 128"

definition reboot_pagetable :: "mem \<Rightarrow> mem" where
  "reboot_pagetable m =
     set_entry 0xA000 0 (PTE_P OR PTE_W OR PTE_U OR PTE_PS)
       (set_entry 0x9000 0 (0xA000 OR PTE_P OR PTE_W OR PTE_U)
         (set_entry 0x8000 0 (0x9000 OR PTE_P OR PTE_W OR PTE_U)
           (memset m 0x8000 0 (PAGESIZE * 3))))"

datatype keyboard_action = Reboot "u8 list" | Poweroff | No_action

definition cmd_malloc :: "u8 list" where "cmd_malloc = [109, 97, 108, 108, 111, 99]"
definition cmd_allocator :: "u8 list" where "cmd_allocator = [97, 108, 108, 111, 99, 97, 116, 111, 114]"
definition cmd_alloctests :: "u8 list" where
  "cmd_alloctests = [97, 108, 108, 111, 99, 116, 101, 115, 116, 115]"
definition cmd_test :: "u8 list" where "cmd_test = [116, 101, 115, 116]"
definition cmd_test2 :: "u8 list" where "cmd_test2 = [116, 101, 115, 116, 50]"

lemmas cmd_defs = cmd_malloc_def cmd_allocator_def cmd_alloctests_def cmd_test_def cmd_test2_def

definition keyboard_command :: "u32 \<Rightarrow> keyboard_action" where
  "keyboard_command c =
     (if c = 97 \<or> c = 109 \<or> c = 99 \<or> c = 116 \<or> c = 50 then
        Reboot (if c = 97 then cmd_allocator else if c = 99 then cmd_alloctests
                else if c = 116 then cmd_test else if c = 50 then cmd_test2 else cmd_malloc)
      else if c = 3 \<or> c = 113 then Poweroff
      else No_action)"

definition check_keyboard :: "u32 \<Rightarrow> mem \<Rightarrow> keyboard_action \<times> mem" where
  "check_keyboard c m =
     (keyboard_command c, case keyboard_command c of Reboot _ \<Rightarrow> reboot_pagetable m | _ \<Rightarrow> m)"

section \<open>Reachable keyboard states\<close>

inductive keyboard_reach :: "keyboard \<Rightarrow> bool" where
  start: "keyboard_reach \<lparr>modifiers = 0, last_escape = 0\<rparr>"
| step: "keyboard_reach kb \<Longrightarrow> keyboard_readc status data kb = Some (c, kb') \<Longrightarrow> keyboard_reach kb'"

lemma length_keymap: "length keymap = 256"
  by (simp add: keymap_def)

lemma length_complex_keymap: "length complex_keymap = 22"
  by (simp add: complex_keymap_def)

lemma and_3_less: "unat ((x :: u8) AND 3) < 4"
proof -
  have "x AND 3 = take_bit 2 x"
    by (simp add: take_bit_eq_mask mask_eq_exp_minus_1)
  then have "unat (x AND 3) = take_bit 2 (unat x)"
    by (simp only: unsigned_take_bit_eq)
  then show ?thesis
    using take_bit_nat_less_exp [of 2 "unat x"] by simp
qed

lemma u8_bound: "unat (x :: u8) < 256"
  using unsigned_less [of x] by simp

lemma unat_ucast_u8: "unat (ucast (x :: u8) :: u32) = unat x"
  using u8_bound [of x] by (simp add: unsigned_ucast_eq take_bit_nat_eq_self)

lemma letter_minus:
  fixes ch :: u8
  assumes "97 \<le> ch" and "k \<le> 96"
  shows "unat (ucast ch - of_nat k :: u32) = unat ch - k"
proof -
  have "k \<le> unat (ucast ch :: u32)"
    using assms by (simp add: unat_ucast_u8 word_le_nat_alt)
  moreover have "unat (of_nat k :: u32) = k"
    using assms(2) by (simp add: unat_of_nat)
  ultimately show ?thesis
    by (simp add: unat_sub word_le_nat_alt unat_ucast_u8)
qed

lemma key_press_total:
  "\<exists>c kb'. key_press ch kb = Some (c, kb') \<and> last_escape kb' = last_escape kb \<and> unat c < 256"
proof -
  let ?i = "unat (ch - CKEY 0)" and ?j = "unat (modifiers kb AND 3)"
  have "?i < 22" if "CKEY 0 \<le> ch" "ch \<le> CKEY 21"
    using that by (simp add: CKEY_def word_le_nat_alt unat_sub)
  moreover have "unat (ucast (x :: u8) :: u32) < 256" for x
    using u8_bound [of x] by (simp add: unat_ucast_u8)
  moreover have "unat (ucast ch - 96 :: u32) < 256" "unat (ucast ch - 32 :: u32) < 256" if "97 \<le> ch"
    using letter_minus [OF that, of 96] letter_minus [OF that, of 32] u8_bound [of ch] by simp_all
  ultimately show ?thesis
    by (simp add: key_press_def Let_def length_complex_keymap and_3_less)
qed

definition keyboard_ok :: "keyboard \<Rightarrow> bool" where
  "keyboard_ok kb \<longleftrightarrow> last_escape kb = 0 \<or> last_escape kb = 0x80"

lemma keyboard_readc_total:
  assumes "keyboard_ok kb"
  shows "\<exists>c kb'. keyboard_readc status data kb = Some (c, kb') \<and> keyboard_ok kb' \<and> (c = - 1 \<or> unat c < 256)"
  using key_press_total [of "keymap ! unat (data OR last_escape kb)" "kb\<lparr>last_escape := 0\<rparr>"] assms
  by (auto simp: keyboard_readc_def Let_def keyboard_ok_def)

lemma keyboard_reach_ok: "keyboard_reach kb \<Longrightarrow> keyboard_ok kb"
proof (induction rule: keyboard_reach.induct)
  case start
  then show ?case
    by (simp add: keyboard_ok_def)
next
  case (step kb status data c kb')
  then show ?case
    using keyboard_readc_total [OF step.IH, of status data] by auto
qed

lemma keymap_modifiers:
  "keymap ! 42 = KEY_SHIFT" "keymap ! 54 = KEY_SHIFT" "keymap ! 29 = KEY_CONTROL" "keymap ! 56 = KEY_ALT"
  "keymap ! 58 = KEY_CAPSLOCK"
  by code_simp+

lemma clear_escape: "last_escape kb = 0 \<Longrightarrow> kb\<lparr>last_escape := 0\<rparr> = kb"
  by (cases kb) simp

lemma readc_press:
  "last_escape kb = 0 \<Longrightarrow> data AND 0x80 = 0 \<Longrightarrow> data \<noteq> 0xE0 \<Longrightarrow>
   keyboard_readc 1 data kb = key_press (keymap ! unat data) kb"
  by (simp add: keyboard_readc_def clear_escape Let_def)

lemma readc_release:
  "last_escape kb = 0 \<Longrightarrow> data AND 0x80 \<noteq> 0 \<Longrightarrow> data \<noteq> 0xE0 \<Longrightarrow> keymap ! unat (data AND 0x7F) = ch \<Longrightarrow>
   KEY_SHIFT \<le> ch \<Longrightarrow> ch < KEY_CAPSLOCK \<Longrightarrow>
   keyboard_readc 1 data kb
     = Some (0, kb\<lparr>modifiers := modifiers kb AND NOT (push_bit (unat (ch - KEY_SHIFT)) 1)\<rparr>)"
  by (simp add: keyboard_readc_def clear_escape Let_def)

lemma modifier_press:
  "key_press KEY_SHIFT kb = Some (0, kb\<lparr>modifiers := modifiers kb OR 1\<rparr>)"
  "key_press KEY_CONTROL kb = Some (0, kb\<lparr>modifiers := modifiers kb OR 2\<rparr>)"
  "key_press KEY_ALT kb = Some (0, kb\<lparr>modifiers := modifiers kb OR 4\<rparr>)"
  "key_press KEY_CAPSLOCK kb = Some (0, kb\<lparr>modifiers := modifiers kb XOR 8\<rparr>)"
  by (simp_all add: key_press_def key_defs Let_def)

section \<open>Properties of the keyboard\<close>

text \<open>C28. From every state the driver can reach, every pair of bytes read from the controller is handled:
  all table accesses are in range, the result is -1 (no character) or a value below 256, -1 is
  returned only when no byte is ready, and the escape state is 0 or \<open>0x80\<close>.\<close>

theorem keyboard_readc_safe:
  assumes "keyboard_reach kb"
  shows "\<exists>c kb'. keyboard_readc status data kb = Some (c, kb') \<and> keyboard_reach kb' \<and>
    (c = - 1 \<or> unat c < 256) \<and> (c = - 1 \<longleftrightarrow> status AND 1 = 0) \<and>
    unat ((data AND 0x7F) OR last_escape kb) < length keymap \<and> unat (data OR last_escape kb) < length keymap"
proof -
  from keyboard_readc_total [OF keyboard_reach_ok [OF assms], of status data] obtain c kb' where
    r: "keyboard_readc status data kb = Some (c, kb')" "c = - 1 \<or> unat c < 256"
    by blast
  have "c = - 1 \<longleftrightarrow> status AND 1 = 0"
  proof (cases "status AND 1 = 0")
    case False
    then have "unat c < 256"
      using r(1) key_press_total [of "keymap ! unat (data OR last_escape kb)" "kb\<lparr>last_escape := 0\<rparr>"]
      by (auto simp: keyboard_readc_def Let_def split: if_splits)
    then show ?thesis
      using False by (auto simp: unsigned_minus_1_eq_mask mask_eq_exp_minus_1)
  qed (use r(1) in \<open>simp add: keyboard_readc_def\<close>)
  then show ?thesis
    using r keyboard_reach.step [OF assms r(1)] u8_bound by (auto simp: length_keymap)
qed

theorem keyboard_readc_safe_witness:
  "\<exists>c kb'. keyboard_readc 1 0x1E \<lparr>modifiers = 0, last_escape = 0\<rparr> = Some (c, kb') \<and> keyboard_reach kb'"
  using keyboard_readc_safe [OF keyboard_reach.start, of 1 "0x1E"] by blast

text \<open>Modifier keys: pressing Shift, Control or Alt returns 0 and sets exactly its modifier bit, releasing
  it clears exactly that bit, and Caps Lock toggles its bit on every press.\<close>

theorem modifier_keys:
  assumes "last_escape kb = 0" and "(code, b) \<in> {(0x2A, 0), (0x36, 0), (0x1D, 1), (0x38, 2)}"
  shows "keyboard_readc 1 code kb = Some (0, kb\<lparr>modifiers := modifiers kb OR push_bit b 1\<rparr>) \<and>
    keyboard_readc 1 (code OR 0x80) kb = Some (0, kb\<lparr>modifiers := modifiers kb AND NOT (push_bit b 1)\<rparr>) \<and>
    keyboard_readc 1 0x3A kb = Some (0, kb\<lparr>modifiers := modifiers kb XOR MOD_CAPSLOCK\<rparr>)"
proof -
  note press = readc_press [OF assms(1)] and release = readc_release [OF assms(1)]
  have caps: "keyboard_readc 1 0x3A kb = Some (0, kb\<lparr>modifiers := modifiers kb XOR MOD_CAPSLOCK\<rparr>)"
    using press [of "0x3A"] by (simp add: keymap_modifiers modifier_press MOD_CAPSLOCK_def)
  from assms(2) consider "code = 0x2A" "b = 0" | "code = 0x36" "b = 0" | "code = 0x1D" "b = 1" | "code = 0x38" "b = 2"
    by auto
  then show ?thesis
  proof cases
    case 1
    then show ?thesis
      using caps press [of "0x2A"] release [of "0xAA" KEY_SHIFT] by (simp add: keymap_modifiers modifier_press [unfolded key_defs] key_defs)
  next
    case 2
    then show ?thesis
      using caps press [of "0x36"] release [of "0xB6" KEY_SHIFT] by (simp add: keymap_modifiers modifier_press [unfolded key_defs] key_defs)
  next
    case 3
    then show ?thesis
      using caps press [of "0x1D"] release [of "0x9D" KEY_CONTROL] by (simp add: keymap_modifiers modifier_press [unfolded key_defs] key_defs)
  next
    case 4
    then show ?thesis
      using caps press [of "0x38"] release [of "0xB8" KEY_ALT] by (simp add: keymap_modifiers modifier_press [unfolded key_defs] key_defs)
  qed
qed

theorem modifier_keys_witness:
  "keyboard_readc 1 0x2A \<lparr>modifiers = 2, last_escape = 0\<rparr> = Some (0, \<lparr>modifiers = 3, last_escape = 0\<rparr>)"
  using modifier_keys [of "\<lparr>modifiers = 2, last_escape = 0\<rparr>" "0x2A" 0] by simp

end
