(* ===== verification/Kernel.thy ===== *)
theory Kernel
  imports Process_Memory Keyboard
begin

text \<open>
  The rest of \<^verbatim>\<open>kernel/kernel.c\<close>: the run-time checks of the virtual memory invariants, the memory
  display, the system calls, the exception handler, the scheduler and process start-up. The
  functions of \<^verbatim>\<open>kernel/k-vm.o\<close>, of which only the object file exists, are the fields of the record
  \<open>kvm\<close>. A kernel entry ends by resuming a process in user mode (\<open>ret k\<close>: process \<open>current k\<close> runs with
  its saved registers), by a fault, or never.
\<close>

section \<open>Parameters\<close>

text \<open>The functions of \<^verbatim>\<open>k-vm.o\<close>; a process argument is an index into \<open>processes\<close>.\<close>

record kvm =
  palloc :: "u32 \<Rightarrow> kstate \<Rightarrow> (u64 \<times> kstate) outcome"
  process_free :: "u32 \<Rightarrow> kstate \<Rightarrow> kstate outcome"
  process_config_tables :: "u32 \<Rightarrow> kstate \<Rightarrow> (u32 \<times> kstate) outcome"
  process_load :: "nat \<Rightarrow> u32 \<Rightarrow> kstate \<Rightarrow> (u32 \<times> kstate) outcome"
  process_setup_stack :: "nat \<Rightarrow> kstate \<Rightarrow> kstate outcome"
  process_fork :: "nat \<Rightarrow> kstate \<Rightarrow> (u32 \<times> kstate) outcome"
  process_page_alloc :: "nat \<Rightarrow> u64 \<Rightarrow> kstate \<Rightarrow> (u32 \<times> kstate) outcome"

text \<open>What the hardware supplies during one kernel entry: the faulting address, and the characters
  that the calls of \<open>keyboard_readc\<close> return, first the one in \<open>exception\<close>, then those in \<open>schedule\<close>; also the padding
  bytes of a local variable of type \<open>vamapping\<close>, which C leaves open.\<close>

record machine =
  cr2 :: u64
  typed :: "nat \<Rightarrow> u32"
  padding :: "u32 \<times> u32"

section \<open>Colors of the memory display\<close>

definition memstate_colors :: "u16 list" where
  "memstate_colors =
     [0x0D4B, 0x0752, 0x072E, 0x0C31, 0x0A32, 0x0933, 0x0E34, 0x0F35, 0x0C36, 0x0A37, 0x0938, 0x0E39,
      0x0F41, 0x0C42, 0x0A43, 0x0944, 0x0E45, 0x0F46, 0x0053]"

definition SHARED_COLOR :: u16 where
  "SHARED_COLOR = 0x0053"

text \<open>\<open>memstate_colors[owner - PO_KERNEL]\<close> for an owner of type \<open>int\<close>.\<close>

definition owner_color :: "int \<Rightarrow> u16 outcome" where
  "owner_color owner =
     (if 0 \<le> owner + 2 \<and> owner + 2 < 19 then ret (memstate_colors ! nat (owner + 2)) else fail Out_of_range)"

definition CPOS :: "nat \<Rightarrow> nat \<Rightarrow> nat" where
  "CPOS row col = row * 80 + col"

text \<open>\<open>console_printf\<close> on the console of the kernel state; its result is not used here.\<close>

definition kprint :: "nat \<Rightarrow> u32 \<Rightarrow> u8 list \<Rightarrow> vararg list \<Rightarrow> kstate \<Rightarrow> kstate outcome" where
  "kprint cpos color format args k =
     bindo (console_printf (of_nat cpos) color format args (console k)) (\<lambda>(_, cells). ret (k\<lparr>console := cells\<rparr>))"

definition put_cell :: "nat \<Rightarrow> u16 \<Rightarrow> kstate \<Rightarrow> kstate" where
  "put_cell i v k = k\<lparr>console := (console k)[i := v]\<rparr>"

section \<open>Checks of the virtual memory invariants\<close>

text \<open>The line that \<open>check_page_table_mappings\<close> prints right before an assertion fails is left out.\<close>

partial_function (option) check_kernel_mapped :: "link_map \<Rightarrow> mem \<Rightarrow> u64 \<Rightarrow> u64 \<Rightarrow> unit outcome" where
  "check_kernel_mapped lm m pt va =
     (if va < kernel_end lm then
        let vam = virtual_memory_lookup m pt va
        in bindo (assertion (vam_pa vam = va)) (\<lambda>_.
           bindo (assertion (va \<ge> start_data lm \<longrightarrow> scast (vam_perm vam) AND PTE_W \<noteq> 0)) (\<lambda>_.
             check_kernel_mapped lm m pt (va + PAGESIZE)))
      else ret ())"

definition check_page_table_mappings :: "link_map \<Rightarrow> u64 \<Rightarrow> mem \<Rightarrow> unit outcome" where
  "check_page_table_mappings lm pt m =
     bindo (assertion (PTE_ADDR pt = pt)) (\<lambda>_.
     bindo (check_kernel_mapped lm m pt KERNEL_START_ADDR) (\<lambda>_.
       let kstack = KERNEL_STACK_TOP - PAGESIZE; vam = virtual_memory_lookup m pt kstack
       in bindo (assertion (vam_pa vam = kstack)) (\<lambda>_.
            assertion (scast (vam_perm vam) AND PTE_W \<noteq> 0))))"

text \<open>A sequence of checks; the first one that fails decides.\<close>

fun check_all :: "('a \<Rightarrow> unit outcome) \<Rightarrow> 'a list \<Rightarrow> unit outcome" where
  "check_all f [] = ret ()"
| "check_all f (x # xs) = bindo (f x) (\<lambda>_. check_all f xs)"

text \<open>\<open>check_page_table_ownership_level\<close>; \<open>levels\<close> is \<open>3 - level\<close>.\<close>

primrec check_ownership_level ::
  "nat \<Rightarrow> mem \<Rightarrow> physical_pageinfo list \<Rightarrow> u64 \<Rightarrow> int \<Rightarrow> int \<Rightarrow> unit outcome" where
  "check_ownership_level 0 m pi pt owner refs =
     bindo (assertion (sint (PAGENUMBER pt) < int NPAGES)) (\<lambda>_.
       if sint (PAGENUMBER pt) < 0 then fail Out_of_range
       else let info = pi ! nat (sint (PAGENUMBER pt))
            in bindo (assertion (sint (pg_owner info) = owner)) (\<lambda>_. assertion (sint (refcount info) = refs)))"
| "check_ownership_level (Suc levels) m pi pt owner refs =
     bindo (assertion (sint (PAGENUMBER pt) < int NPAGES)) (\<lambda>_.
       if sint (PAGENUMBER pt) < 0 then fail Out_of_range
       else let info = pi ! nat (sint (PAGENUMBER pt))
            in bindo (assertion (sint (pg_owner info) = owner)) (\<lambda>_.
               bindo (assertion (sint (refcount info) = refs)) (\<lambda>_.
                 check_all (\<lambda>index.
                     let e = entry_at m pt (of_nat index)
                     in if e \<noteq> 0 then check_ownership_level levels m pi (PTE_ADDR e) owner 1 else ret ())
                   [0..<512])))"

definition check_page_table_ownership :: "u64 \<Rightarrow> int \<Rightarrow> kstate \<Rightarrow> unit outcome" where
  "check_page_table_ownership pt pid k =
     (let is_kernel = (pt = kernel_pagetable k);
          owner = (if is_kernel then sint PO_KERNEL else pid);
          users = length (filter (\<lambda>p. p_state p \<noteq> P_FREE \<and> p_pagetable p = kernel_pagetable k) (processes k));
          expected = (if is_kernel then 1 + int users else 1)
      in check_ownership_level 3 (phys k) (pageinfo k) pt owner expected)"

definition check_virtual_memory :: "link_map \<Rightarrow> kstate \<Rightarrow> unit outcome" where
  "check_virtual_memory lm k =
     bindo (assertion (p_state (the_proc k 0) = P_FREE)) (\<lambda>_.
     bindo (check_page_table_mappings lm (kernel_pagetable k) (phys k)) (\<lambda>_.
     bindo (check_page_table_ownership (kernel_pagetable k) (- 1) k) (\<lambda>_.
     bindo (check_all (\<lambda>pid.
              let p = the_proc k pid
              in if p_state p \<noteq> P_FREE \<and> p_pagetable p \<noteq> kernel_pagetable k
                 then bindo (check_page_table_mappings lm (p_pagetable p) (phys k)) (\<lambda>_.
                        check_page_table_ownership (p_pagetable p) (int pid) k)
                 else ret ()) [0..<NPROC]) (\<lambda>_.
       check_all (\<lambda>info.
           if sint (refcount info) > 0 \<and> sint (pg_owner info) \<ge> 0
           then if sint (pg_owner info) < int NPROC
                then assertion (p_state (the_proc k (nat (sint (pg_owner info)))) \<noteq> P_FREE)
                else fail Out_of_range
           else ret ()) (pageinfo k)))))"

section \<open>The memory display\<close>

definition str_physical :: "u8 list" where
  "str_physical = [80, 72, 89, 83, 73, 67, 65, 76, 32, 77, 69, 77, 79, 82, 89]"

definition str_hex_label :: "u8 list" where
  "str_hex_label = [48, 120, 37, 48, 54, 88, 32]"

definition str_virtual :: "u8 list" where
  "str_virtual = [86, 73, 82, 84, 85, 65, 76, 32, 65, 68, 68, 82, 69, 83, 83, 32, 83, 80, 65, 67, 69, 32,
     70, 79, 82, 32, 37, 115]"

text \<open>A sequence of steps on the kernel state.\<close>

fun run_all :: "('a \<Rightarrow> kstate \<Rightarrow> kstate outcome) \<Rightarrow> 'a list \<Rightarrow> kstate \<Rightarrow> kstate outcome" where
  "run_all f [] k = ret k"
| "run_all f (x # xs) k = bindo (f x k) (\<lambda>k'. run_all f xs k')"

definition physical_color :: "link_map \<Rightarrow> physical_pageinfo \<Rightarrow> nat \<Rightarrow> u16 outcome" where
  "physical_color lm info n =
     bindo (owner_color (if refcount info = 0 then sint PO_FREE else sint (pg_owner info))) (\<lambda>color.
       ret (if sint (refcount info) > 1 \<and> n \<noteq> unat (console_addr lm) div 4096 then SHARED_COLOR OR 0x0F00 else color))"

definition memshow_physical :: "link_map \<Rightarrow> kstate \<Rightarrow> kstate outcome" where
  "memshow_physical lm k0 =
     bindo (kprint (CPOS 0 32) 0x0F00 str_physical [] k0)
       (run_all (\<lambda>n k.
          bindo (if n mod 64 = 0
                 then kprint (CPOS (1 + n div 64) 3) 0x0F00 str_hex_label [Va_word (of_nat (4096 * n))] k
                 else ret k) (\<lambda>k1.
          bindo (physical_color lm (pageinfo k1 ! n) n) (\<lambda>color.
            ret (put_cell (CPOS (1 + n div 64) (12 + n mod 64)) color k1)))) [0..<NPAGES])"

definition virtual_color :: "link_map \<Rightarrow> kstate \<Rightarrow> u64 \<Rightarrow> u64 \<Rightarrow> u16 outcome" where
  "virtual_color lm k pagetable va =
     (let vam = virtual_memory_lookup (phys k) pagetable va
      in if sint (vam_pn vam) < 0 then ret 0x20
         else
           bindo (assertion (vam_pa vam < MEMSIZE_PHYSICAL)) (\<lambda>_.
           let info = pageinfo k ! nat (sint (vam_pn vam));
               user = (scast (vam_perm vam) AND PTE_U \<noteq> 0)
           in bindo (owner_color (if refcount info = 0 then sint PO_FREE else sint (pg_owner info))) (\<lambda>color.
              let color1 = (if user then push_bit 4 (color AND 0x0F00) OR drop_bit 4 (color AND 0xF000) OR (color AND 0x00FF)
                            else color);
                  color2 = SHARED_COLOR OR (color1 AND 0xF000)
              in ret (if sint (refcount info) > 1 \<and> va \<noteq> console_addr lm
                      then if user then color2 else color2 OR 0x0F00
                      else color1))))"

definition memshow_virtual :: "link_map \<Rightarrow> u64 \<Rightarrow> u8 list \<Rightarrow> kstate \<Rightarrow> kstate outcome" where
  "memshow_virtual lm pagetable name k0 =
     bindo (assertion (pagetable = PTE_ADDR pagetable)) (\<lambda>_.
     bindo (kprint (CPOS 10 26) 0x0F00 str_virtual [Va_string name] k0)
       (run_all (\<lambda>n k.
          bindo (virtual_color lm k pagetable (of_nat (4096 * n))) (\<lambda>color.
          bindo (if n mod 64 = 0
                 then kprint (CPOS (11 + n div 64) 3) 0x0F00 str_hex_label [Va_word (of_nat (4096 * n))] k
                 else ret k) (\<lambda>k1.
            ret (put_cell (CPOS (11 + n div 64) (12 + n mod 64)) color k1)))) [0..<768]))"

function advance_showing :: "kstate \<Rightarrow> nat \<Rightarrow> nat" where
  "advance_showing k n =
     (if n \<le> 2 * NPROC \<and> p_state (the_proc k (n mod NPROC)) = P_FREE then advance_showing k (n + 1) else n)"
  by auto
termination
  by (relation "measure (\<lambda>(k, n). 2 * NPROC + 1 - n)") auto

declare advance_showing.simps [simp del]

text \<open>The name of a process in the display is what \<open>snprintf(s, 4, "%d ", showing)\<close> leaves in the buffer.\<close>

definition process_name :: "nat \<Rightarrow> u8 list outcome" where
  "process_name n =
     bindo (snprintf 0 4 [37, 100, 32] [Va_word (of_nat n)] (\<lambda>_. 0)) (\<lambda>(len, m).
       ret (map (\<lambda>i. m (of_nat i)) [0..<unat len]))"

definition memshow_virtual_animate :: "link_map \<Rightarrow> kstate \<Rightarrow> kstate outcome" where
  "memshow_virtual_animate lm k =
     (let k1 = (if last_ticks k = 0 \<or> ticks k - last_ticks k \<ge> 50
                then k\<lparr>last_ticks := ticks k, showing := showing k + 1\<rparr> else k);
          n = advance_showing k1 (showing k1) mod NPROC;
          k2 = k1\<lparr>showing := n\<rparr>;
          p = the_proc k2 n
      in if p_state p \<noteq> P_FREE \<and> display_status p \<noteq> 0
         then bindo (process_name n) (\<lambda>name. memshow_virtual lm (p_pagetable p) name k2)
         else ret k2)"

section \<open>System calls\<close>

definition syscall_fork :: "kvm \<Rightarrow> kstate \<Rightarrow> (u32 \<times> kstate) outcome" where
  "syscall_fork kv k = process_fork kv (current k) k"

definition syscall_exit :: "kvm \<Rightarrow> kstate \<Rightarrow> kstate outcome" where
  "syscall_exit kv k = process_free kv (p_pid (the_proc k (current k))) k"

definition syscall_page_alloc :: "kvm \<Rightarrow> u64 \<Rightarrow> kstate \<Rightarrow> (u32 \<times> kstate) outcome" where
  "syscall_page_alloc kv addr k = process_page_alloc kv (current k) addr k"

text \<open>A \<open>vamapping\<close> in memory: \<open>pn\<close> at 0, \<open>pa\<close> at 8, \<open>perm\<close> at 16, with four bytes of padding behind \<open>pn\<close>
  and \<open>perm\<close>; 24 bytes in all.\<close>

definition store_vamapping :: "u32 \<times> u32 \<Rightarrow> u64 \<Rightarrow> vamapping \<Rightarrow> mem \<Rightarrow> mem" where
  "store_vamapping pad a v m =
     store64 (store64 (store64 m a (ucast (vam_pn v) OR push_bit 32 (ucast (fst pad)))) (a + 8) (vam_pa v))
       (a + 16) (ucast (vam_perm v) OR push_bit 32 (ucast (snd pad)))"

definition syscall_mapping :: "machine \<Rightarrow> nat \<Rightarrow> kstate \<Rightarrow> kstate" where
  "syscall_mapping mc i k =
     (let p = the_proc k i;
          mapping_ptr = reg_rdi (p_registers p);
          ptr = reg_rsi (p_registers p);
          map = virtual_memory_lookup (phys k) (p_pagetable p) mapping_ptr
      in if scast (vam_perm map) AND (PTE_W OR PTE_U) \<noteq> PTE_W OR PTE_U then k
         else
           let endaddr = mapping_ptr + 24 - 1;
               end_map = virtual_memory_lookup (phys k) (p_pagetable p) endaddr
           in if PAGENUMBER endaddr \<noteq> PAGENUMBER ptr \<and>
                 scast (vam_perm end_map) AND (PTE_W OR PTE_P) \<noteq> PTE_W OR PTE_P then k
              else
                let ptr_lookup = virtual_memory_lookup (phys k) (p_pagetable p) ptr
                in k\<lparr>phys := store_vamapping (padding mc) (vam_pa map) ptr_lookup (phys k)\<rparr>)"

definition syscall_mem_tog :: "nat \<Rightarrow> kstate \<Rightarrow> kstate" where
  "syscall_mem_tog i k =
     (let process = the_proc k i; p = ucast (reg_rdi (p_registers process)) :: u32
      in if p = 0 then k\<lparr>disp_global := (if disp_global k = 0 then 1 else 0)\<rparr>
         else if sint p < 0 \<or> sint p > int NPROC \<or> p \<noteq> p_pid process then k
         else upd_proc i (\<lambda>q. q\<lparr>display_status := (if display_status q = 0 then 1 else 0)\<rparr>) k)"

section \<open>Running processes\<close>

definition run :: "link_map \<Rightarrow> nat \<Rightarrow> kstate \<Rightarrow> kstate outcome" where
  "run lm i k =
     (let p = the_proc k i
      in bindo (assertion (p_state p = P_RUNNABLE)) (\<lambda>_.
         let k1 = k\<lparr>current := i\<rparr>
         in bindo (owner_color (sint (p_pid p))) (\<lambda>color.
            bindo (kprint (CPOS 24 79) (ucast color) [37, 100] [Va_word (scast (p_pid p))] k1) (\<lambda>k2.
            bindo (set_pagetable lm (kernel_pagetable k2) (p_pagetable p) (phys k2)) (\<lambda>pt.
              ret (k2\<lparr>cr3 := pt\<rparr>))))))"

text \<open>\<open>check_keyboard\<close> inside the kernel: reboot and power-off do not return.\<close>

definition poll_keyboard :: "u32 \<Rightarrow> kstate \<Rightarrow> kstate outcome" where
  "poll_keyboard c k =
     (case check_keyboard c (phys k) of
        (Reboot command, m) \<Rightarrow> fail (Soft_reboot command)
      | (Poweroff, m) \<Rightarrow> fail Power_off
      | (No_action, m) \<Rightarrow> ret k)"

text \<open>\<open>schedule\<close>: the loop from process \<open>pid\<close>; \<open>typed mc n\<close> is the next character read.\<close>

partial_function (option) schedule_from :: "link_map \<Rightarrow> machine \<Rightarrow> nat \<Rightarrow> nat \<Rightarrow> kstate \<Rightarrow> kstate outcome" where
  "schedule_from lm mc n pid k =
     (let pid' = (pid + 1) mod NPROC
      in if p_state (the_proc k pid') = P_RUNNABLE then run lm pid' k
         else bindo (poll_keyboard (typed mc n) k) (\<lambda>k'. schedule_from lm mc (n + 1) pid' k'))"

definition schedule :: "link_map \<Rightarrow> machine \<Rightarrow> kstate \<Rightarrow> kstate outcome" where
  "schedule lm mc k = schedule_from lm mc 1 (unat (p_pid (the_proc k (current k)))) k"

section \<open>The exception handler\<close>

definition INT_TIMER :: u64 where "INT_TIMER = 32"
definition INT_GPF :: u64 where "INT_GPF = 13"
definition INT_PAGEFAULT :: u64 where "INT_PAGEFAULT = 14"
definition INT_SYS_PANIC :: u64 where "INT_SYS_PANIC = 48"
definition INT_SYS_GETPID :: u64 where "INT_SYS_GETPID = 49"
definition INT_SYS_YIELD :: u64 where "INT_SYS_YIELD = 50"
definition INT_SYS_PAGE_ALLOC :: u64 where "INT_SYS_PAGE_ALLOC = 51"
definition INT_SYS_FORK :: u64 where "INT_SYS_FORK = 52"
definition INT_SYS_EXIT :: u64 where "INT_SYS_EXIT = 53"
definition INT_SYS_MAPPING :: u64 where "INT_SYS_MAPPING = 54"
definition INT_SYS_MEM_TOG :: u64 where "INT_SYS_MEM_TOG = 56"
definition INT_SYS_BRK :: u64 where "INT_SYS_BRK = 57"
definition INT_SYS_SBRK :: u64 where "INT_SYS_SBRK = 58"

lemmas int_defs = INT_TIMER_def INT_GPF_def INT_PAGEFAULT_def INT_SYS_PANIC_def INT_SYS_GETPID_def
  INT_SYS_YIELD_def INT_SYS_PAGE_ALLOC_def INT_SYS_FORK_def INT_SYS_EXIT_def INT_SYS_MAPPING_def
  INT_SYS_MEM_TOG_def INT_SYS_BRK_def INT_SYS_SBRK_def

definition PFERR_PRESENT :: u64 where "PFERR_PRESENT = 1"
definition PFERR_WRITE :: u64 where "PFERR_WRITE = 2"
definition PFERR_USER :: u64 where "PFERR_USER = 4"

lemmas pferr_defs = PFERR_PRESENT_def PFERR_WRITE_def PFERR_USER_def

definition set_rax :: "u64 \<Rightarrow> kstate \<Rightarrow> kstate" where
  "set_rax v k = upd_proc (current k) (\<lambda>p. p\<lparr>p_registers := (p_registers p)\<lparr>reg_rax := v\<rparr>\<rparr>) k"

definition break_process :: "kvm \<Rightarrow> kstate \<Rightarrow> kstate outcome" where
  "break_process kv k = syscall_exit kv (upd_proc (current k) (\<lambda>p. p\<lparr>p_state := P_BROKEN\<rparr>) k)"

definition str_fault :: "u8 list" where
  "str_fault = [80, 114, 111, 99, 101, 115, 115, 32, 37, 100, 32, 112, 97, 103, 101, 32, 102, 97, 117, 108, 116,
     32, 102, 111, 114, 32, 37, 112, 32, 40, 37, 115, 32, 37, 115, 44, 32, 114, 105, 112, 61, 37, 112, 41, 33, 10]"

definition str_operation :: "u64 \<Rightarrow> u8 list" where
  "str_operation err = (if err AND PFERR_WRITE \<noteq> 0 then [119, 114, 105, 116, 101] else [114, 101, 97, 100])"

definition str_problem :: "u64 \<Rightarrow> u8 list" where
  "str_problem err =
     (if err AND PFERR_PRESENT \<noteq> 0
      then [112, 114, 111, 116, 101, 99, 116, 105, 111, 110, 32, 112, 114, 111, 98, 108, 101, 109]
      else [109, 105, 115, 115, 105, 110, 103, 32, 112, 97, 103, 101])"

definition page_fault :: "kvm \<Rightarrow> machine \<Rightarrow> x86_64_registers \<Rightarrow> kstate \<Rightarrow> kstate outcome" where
  "page_fault kv mc reg k =
     (let addr = cr2 mc; p = the_proc k (current k); err = reg_err reg
      in if err AND PFERR_PRESENT = 0 \<and> addr < program_break p \<and> addr \<ge> original_break p then
           bindo (palloc kv (p_pid p) k) (\<lambda>(pa, k1).
             if pa = 0 then break_process kv k1
             else bindo (virtual_memory_map (p_pagetable (the_proc k1 (current k1))) (ROUNDDOWN addr PAGESIZE) pa PAGESIZE
                           (ucast (PTE_W OR PTE_P OR PTE_U)) (phys k1)) (\<lambda>(r, m).
                    if r = - 1 then break_process kv (k1\<lparr>phys := m\<rparr>) else ret (k1\<lparr>phys := m\<rparr>)))
         else if err AND PFERR_USER = 0 then fail Kernel_panic
         else bindo (kprint (CPOS 24 0) 0x0C00 str_fault
                       [Va_word (scast (p_pid p)), Va_word addr, Va_string (str_operation err),
                        Va_string (str_problem err), Va_word (reg_rip reg)] k) (break_process kv))"

text \<open>The switch statement. The flag of the result says that the case ended in \<open>schedule()\<close>, which does
  not return.\<close>

definition dispatch :: "kvm \<Rightarrow> machine \<Rightarrow> x86_64_registers \<Rightarrow> kstate \<Rightarrow> (bool \<times> kstate) outcome" where
  "dispatch kv mc reg k =
     (let n = reg_intno reg; p = the_proc k (current k)
      in if n = INT_SYS_PANIC then fail Kernel_panic
         else if n = INT_SYS_GETPID then ret (False, set_rax (scast (p_pid p)) k)
         else if n = INT_SYS_FORK then
           bindo (syscall_fork kv k) (\<lambda>(r, k1). ret (False, set_rax (scast r) k1))
         else if n = INT_SYS_MAPPING then ret (False, syscall_mapping mc (current k) k)
         else if n = INT_SYS_EXIT then bindo (syscall_exit kv k) (\<lambda>k1. ret (True, k1))
         else if n = INT_SYS_YIELD then ret (True, k)
         else if n = INT_SYS_BRK then
           bindo (brk (current k) (reg_rdi (p_registers p)) k) (\<lambda>(r, k1). ret (False, set_rax (scast r) k1))
         else if n = INT_SYS_SBRK then
           bindo (sbrk (current k) (reg_rdi (p_registers p)) k) (\<lambda>(r, k1). ret (False, set_rax (scast r) k1))
         else if n = INT_SYS_PAGE_ALLOC then
           bindo (syscall_page_alloc kv (reg_rdi reg) k) (\<lambda>(r, k1). ret (False, k1))
         else if n = INT_SYS_MEM_TOG then ret (False, syscall_mem_tog (current k) k)
         else if n = INT_TIMER then ret (True, k\<lparr>ticks := ticks k + 1\<rparr>)
         else if n = INT_PAGEFAULT then bindo (page_fault kv mc reg k) (\<lambda>k1. ret (False, k1))
         else fail Kernel_panic)"

definition exception :: "link_map \<Rightarrow> kvm \<Rightarrow> machine \<Rightarrow> x86_64_registers \<Rightarrow> kstate \<Rightarrow> kstate outcome" where
  "exception lm kv mc reg k0 =
     (let k1 = upd_proc (current k0) (\<lambda>p. p\<lparr>p_registers := reg\<rparr>) k0
      in bindo (set_pagetable lm (kernel_pagetable k1) (kernel_pagetable k1) (phys k1)) (\<lambda>pt.
         let k2 = k1\<lparr>cr3 := pt, hw := console_show_cursor (cursorpos k1) (hw k1)\<rparr>
         in bindo (if reg_intno reg \<noteq> INT_PAGEFAULT \<and> reg_intno reg \<noteq> INT_GPF \<or> reg_err reg AND PFERR_USER \<noteq> 0
                   then bindo (check_virtual_memory lm k2) (\<lambda>_.
                          if disp_global k2 \<noteq> 0
                          then bindo (memshow_physical lm k2) (memshow_virtual_animate lm)
                          else ret k2)
                   else ret k2) (\<lambda>k3.
            bindo (poll_keyboard (typed mc 0) k3) (\<lambda>k4.
            bindo (dispatch kv mc reg k4) (\<lambda>(scheduled, k5).
              if \<not> scheduled \<and> p_state (the_proc k5 (current k5)) = P_RUNNABLE
              then run lm (current k5) k5 else schedule lm mc k5)))))"

section \<open>Starting the kernel\<close>

definition EFLAGS_IF :: u64 where "EFLAGS_IF = 0x200"
definition EFLAGS_IOPL_3 :: u64 where "EFLAGS_IOPL_3 = 0x3000"

definition zero_registers :: x86_64_registers where
  "zero_registers = \<lparr>reg_rax = 0, reg_rcx = 0, reg_rdx = 0, reg_rbx = 0, reg_rbp = 0, reg_rsi = 0,
     reg_rdi = 0, reg_r8 = 0, reg_r9 = 0, reg_r10 = 0, reg_r11 = 0, reg_r12 = 0, reg_r13 = 0,
     reg_r14 = 0, reg_r15 = 0, reg_fs = 0, reg_gs = 0, reg_intno = 0, reg_err = 0, reg_rip = 0,
     reg_cs = 0, reg_rflags = 0, reg_rsp = 0, reg_ss = 0\<rparr>"

definition process_init :: "u32 \<Rightarrow> proc \<Rightarrow> proc" where
  "process_init flags p =
     (let rf1 = (if flags AND 1 \<noteq> 0 then EFLAGS_IF OR EFLAGS_IOPL_3 else EFLAGS_IF);
          rf2 = (if flags AND 2 \<noteq> 0 then rf1 AND NOT EFLAGS_IF else rf1)
      in p\<lparr>p_registers := zero_registers
            \<lparr>reg_cs := ucast (SEGSEL_APP_CODE OR 3), reg_fs := SEGSEL_APP_DATA OR 3, reg_gs := SEGSEL_APP_DATA OR 3,
             reg_ss := ucast (SEGSEL_APP_DATA OR 3), reg_rflags := rf2\<rparr>,
          display_status := 1\<rparr>)"

definition process_setup :: "kvm \<Rightarrow> nat \<Rightarrow> u32 \<Rightarrow> kstate \<Rightarrow> kstate outcome" where
  "process_setup kv pid program_number k =
     (let k1 = upd_proc pid (process_init 0) k
      in bindo (process_config_tables kv (of_nat pid) k1) (\<lambda>(r, k2).
         bindo (assertion (r = 0)) (\<lambda>_.
         bindo (process_load kv pid program_number k2) (\<lambda>(r, k3).
         bindo (assertion (sint r \<ge> 0)) (\<lambda>_.
         bindo (process_setup_stack kv pid k3) (\<lambda>k4.
           ret (upd_proc pid (\<lambda>p. p\<lparr>p_state := P_RUNNABLE\<rparr>) k4)))))))"

text \<open>A process descriptor after \<open>memset(processes, 0, sizeof(processes))\<close> and the loop behind it; \<open>P_FREE\<close> is 0.\<close>

definition free_proc :: "nat \<Rightarrow> proc" where
  "free_proc i = \<lparr>p_pid = of_nat i, p_gpid = 0, program_break = 0, original_break = 0, p_registers = zero_registers,
     p_state = P_FREE, p_pagetable = 0, display_status = 0\<rparr>"

definition hardware_init :: "link_map \<Rightarrow> hw_symbols \<Rightarrow> kstate \<Rightarrow> kstate outcome" where
  "hardware_init lm hs k =
     (let h = interrupt_init (segments_init lm hs (hw k))
      in bindo (virtual_memory_init lm (phys k)) (\<lambda>(m, pt).
           ret (k\<lparr>hw := h, phys := m, cr3 := pt, kernel_pagetable := kernel_pagetables lm\<rparr>)))"

text \<open>The processes that a boot command starts, with their program numbers; the tests by \<open>strcmp\<close> are
  equalities of strings, and \<open>None\<close> is the null pointer.\<close>

definition boot_programs :: "u8 list option \<Rightarrow> (nat \<times> u32) list" where
  "boot_programs command =
     (if command = Some cmd_malloc then [(1, 1)]
      else if command = Some cmd_alloctests then [(1, 2)]
      else if command = Some cmd_test then [(1, 3)]
      else if command = Some cmd_test2 then [(1, 3), (2, 3)]
      else [(1, 0)])"

definition kernel :: "link_map \<Rightarrow> hw_symbols \<Rightarrow> kvm \<Rightarrow> u8 list option \<Rightarrow> kstate \<Rightarrow> kstate outcome" where
  "kernel lm hs kv command k0 =
     bindo (hardware_init lm hs k0) (\<lambda>k1.
     let k2 = k1\<lparr>pageinfo := pageinfo_init (kernel_end lm) (pageinfo k1)\<rparr>;
         (cells, cpos) = console_clear (console k2);
         k3 = k2\<lparr>console := cells, cursorpos := cpos\<rparr>;
         k4 = k3\<lparr>hw := timer_init 100 (hw k3)\<rparr>;
         k5 = k4\<lparr>processes := map free_proc [0..<NPROC]\<rparr>
     in bindo (run_all (\<lambda>(pid, program_number). process_setup kv pid program_number) (boot_programs command) k5)
          (run lm 1))"

end
