(* ===== verification/Elf.thy ===== *)
theory Elf
  imports Byte_Memory
begin

text \<open>
  The structures of ELF executables (\<^verbatim>\<open>shared/elf.h\<close>) as the boot loader and the program loader read them
  from memory, and the fact that reading them depends on their own bytes only.
\<close>

section \<open>Structures\<close>

definition ELF_MAGIC :: u32 where "ELF_MAGIC = 0x464C457F"
definition ELF_PTYPE_LOAD :: u32 where "ELF_PTYPE_LOAD = 1"
definition ELF_PFLAG_WRITE :: u32 where "ELF_PFLAG_WRITE = 2"

record elf_header =
  e_magic :: u32
  e_elf :: "u8 list"
  e_type :: u16
  e_machine :: u16
  e_version :: u32
  e_entry :: u64
  e_phoff :: u64
  e_shoff :: u64
  e_flags :: u32
  e_ehsize :: u16
  e_phentsize :: u16
  e_phnum :: u16
  e_shentsize :: u16
  e_shnum :: u16
  e_shstrndx :: u16

record elf_program =
  p_type :: u32
  p_flags :: u32
  p_offset :: u64
  p_va :: u64
  p_pa :: u64
  p_filesz :: u64
  p_memsz :: u64
  p_align :: u64

definition read_elf_header :: "mem \<Rightarrow> u64 \<Rightarrow> elf_header" where
  "read_elf_header m eh = \<lparr>e_magic = load32 m eh, e_elf = map (\<lambda>i. m (eh + of_nat i)) [4..<16],
     e_type = load16 m (eh + 0x10), e_machine = load16 m (eh + 0x12), e_version = load32 m (eh + 0x14),
     e_entry = load64 m (eh + 0x18), e_phoff = load64 m (eh + 0x20), e_shoff = load64 m (eh + 0x28),
     e_flags = load32 m (eh + 0x30), e_ehsize = load16 m (eh + 0x34), e_phentsize = load16 m (eh + 0x36),
     e_phnum = load16 m (eh + 0x38), e_shentsize = load16 m (eh + 0x3A), e_shnum = load16 m (eh + 0x3C),
     e_shstrndx = load16 m (eh + 0x3E)\<rparr>"

definition read_elf_program :: "mem \<Rightarrow> u64 \<Rightarrow> elf_program" where
  "read_elf_program m ph = \<lparr>p_type = load32 m ph, p_flags = load32 m (ph + 4), p_offset = load64 m (ph + 8),
     p_va = load64 m (ph + 0x10), p_pa = load64 m (ph + 0x18), p_filesz = load64 m (ph + 0x20),
     p_memsz = load64 m (ph + 0x28), p_align = load64 m (ph + 0x30)\<rparr>"

definition SIZEOF_ELF_PROGRAM :: u64 where "SIZEOF_ELF_PROGRAM = 56"

section \<open>Reading\<close>

lemma loads_agree:
  assumes "\<forall>j<N. m (a + of_nat j) = m' (a + of_nat j)"
  shows "d + 1 < N \<Longrightarrow> load16 m (a + of_nat d) = load16 m' (a + of_nat d)"
    and "d + 3 < N \<Longrightarrow> load32 m (a + of_nat d) = load32 m' (a + of_nat d)"
    and "d + 7 < N \<Longrightarrow> load64 m (a + of_nat d) = load64 m' (a + of_nat d)"
proof -
  have b: "m (a + of_nat d + of_nat j) = m' (a + of_nat d + of_nat j)" if "d + j < N" for j
    using assms [rule_format, OF that] by (simp add: add.assoc)
  show "d + 1 < N \<Longrightarrow> load16 m (a + of_nat d) = load16 m' (a + of_nat d)"
    using b [of 0] b [of 1] by (simp add: load16_def)
  show "d + 3 < N \<Longrightarrow> load32 m (a + of_nat d) = load32 m' (a + of_nat d)"
    using b [of 0] b [of 1] b [of 2] b [of 3] by (simp add: load32_def)
  show "d + 7 < N \<Longrightarrow> load64 m (a + of_nat d) = load64 m' (a + of_nat d)"
    using b [of 0] b [of 1] b [of 2] b [of 3] b [of 4] b [of 5] b [of 6] b [of 7] by (simp add: load64_def)
qed

lemma read_elf_header_cong:
  assumes "\<forall>j<64. m (eh + of_nat j) = m' (eh + of_nat j)"
  shows "read_elf_header m eh = read_elf_header m' eh"
proof -
  have "map (\<lambda>i. m (eh + of_nat i)) [4..<16] = map (\<lambda>i. m' (eh + of_nat i)) [4..<16]"
    using assms by (auto simp del: upt_rec_numeral)
  then show ?thesis
    using loads_agree(2) [OF assms, of 0] loads_agree(2) [OF assms, of 20] loads_agree(2) [OF assms, of 48]
      loads_agree(3) [OF assms, of 24] loads_agree(3) [OF assms, of 32] loads_agree(3) [OF assms, of 40]
      loads_agree(1) [OF assms, of 16] loads_agree(1) [OF assms, of 18] loads_agree(1) [OF assms, of 52]
      loads_agree(1) [OF assms, of 54] loads_agree(1) [OF assms, of 56] loads_agree(1) [OF assms, of 58]
      loads_agree(1) [OF assms, of 60] loads_agree(1) [OF assms, of 62]
    by (simp add: read_elf_header_def del: upt_rec_numeral)
qed

lemma read_elf_program_cong:
  assumes "\<forall>j<56. m (ph + of_nat j) = m' (ph + of_nat j)"
  shows "read_elf_program m ph = read_elf_program m' ph"
  using loads_agree(2) [OF assms, of 0] loads_agree(2) [OF assms, of 4] loads_agree(3) [OF assms, of 8]
    loads_agree(3) [OF assms, of 16] loads_agree(3) [OF assms, of 24] loads_agree(3) [OF assms, of 32]
    loads_agree(3) [OF assms, of 40] loads_agree(3) [OF assms, of 48]
  by (simp add: read_elf_program_def)

end
