(* ===== verification/C_Strings.thy ===== *)
theory C_Strings
  imports Byte_Memory
begin

text \<open>
  NUL-terminated strings in memory and the pseudo-random numbers of \<^verbatim>\<open>shared/lib.c\<close>: \<open>strlen\<close>,
  \<open>strnlen\<close>, \<open>strcpy\<close>, \<open>strcmp\<close>, \<open>strchr\<close>, \<open>rand\<close> and \<open>srand\<close>. A loop that runs past the end of an
  unterminated string need not end, so the results are options. \<open>c_string m s cs\<close> says that the
  characters \<open>cs\<close> and a NUL are stored at \<open>s\<close>.
\<close>

section \<open>Functions\<close>

partial_function (option) strlen_from :: "mem \<Rightarrow> u64 \<Rightarrow> u64 \<Rightarrow> u64 option" where
  "strlen_from m s n = (if m s \<noteq> 0 then strlen_from m (s + 1) (n + 1) else Some n)"

definition strlen :: "mem \<Rightarrow> u64 \<Rightarrow> u64 option" where
  "strlen m s = strlen_from m s 0"

partial_function (option) strnlen_from :: "mem \<Rightarrow> u64 \<Rightarrow> u64 \<Rightarrow> u64 \<Rightarrow> u64 option" where
  "strnlen_from m maxlen s n =
     (if n \<noteq> maxlen \<and> m s \<noteq> 0 then strnlen_from m maxlen (s + 1) (n + 1) else Some n)"

definition strnlen :: "mem \<Rightarrow> u64 \<Rightarrow> u64 \<Rightarrow> u64 option" where
  "strnlen m s maxlen = strnlen_from m maxlen s 0"

partial_function (option) strcpy :: "u64 \<Rightarrow> u64 \<Rightarrow> mem \<Rightarrow> mem option" where
  "strcpy d src m =
     (let m' = m(d := m src)
      in if m' d \<noteq> 0 then strcpy (d + 1) (src + 1) m' else Some m')"

partial_function (option) strcmp :: "mem \<Rightarrow> u64 \<Rightarrow> u64 \<Rightarrow> int option" where
  "strcmp m a b =
     (if m a \<noteq> 0 \<and> m b \<noteq> 0 \<and> m a = m b then strcmp m (a + 1) (b + 1)
      else Some ((if m a > m b then 1 else 0) - (if m a < m b then 1 else 0)))"

partial_function (option) strchr_end :: "mem \<Rightarrow> u64 \<Rightarrow> u8 \<Rightarrow> u64 option" where
  "strchr_end m s c = (if m s \<noteq> 0 \<and> m s \<noteq> c then strchr_end m (s + 1) c else Some s)"

definition strchr :: "mem \<Rightarrow> u64 \<Rightarrow> u32 \<Rightarrow> u64 option" where
  "strchr m s c =
     map_option (\<lambda>p. if m p = ucast c then p else 0) (strchr_end m s (ucast c))"

record rand_state =
  rand_seed_set :: bool
  rand_seed :: u32

definition srand :: "u32 \<Rightarrow> rand_state \<Rightarrow> rand_state" where
  "srand seed r = r\<lparr>rand_seed := seed, rand_seed_set := True\<rparr>"

definition rand :: "rand_state \<Rightarrow> u32 \<times> rand_state" where
  "rand r0 =
     (let r1 = (if rand_seed_set r0 then r0 else srand 819234718 r0);
          r2 = r1\<lparr>rand_seed := rand_seed r1 * 1664525 + 1013904223\<rparr>
      in (rand_seed r2 AND 0x7FFFFFFF, r2))"

section \<open>Strings in memory\<close>

fun c_string :: "mem \<Rightarrow> u64 \<Rightarrow> u8 list \<Rightarrow> bool" where
  "c_string m s [] = (m s = 0)"
| "c_string m s (c # cs) = (c \<noteq> 0 \<and> m s = c \<and> c_string m (s + 1) cs)"

lemma strlen_from_string: "c_string m s cs \<Longrightarrow> strlen_from m s n = Some (n + of_nat (length cs))"
proof (induction cs arbitrary: s n)
  case Nil
  then show ?case
    by (subst strlen_from.simps) simp
next
  case (Cons c cs)
  then show ?case
    by (subst strlen_from.simps) (simp add: add.assoc)
qed

lemma strnlen_from_string:
  "c_string m s cs \<Longrightarrow> unat n + l = unat maxlen \<Longrightarrow>
   strnlen_from m maxlen s n = Some (n + of_nat (min (length cs) l))"
proof (induction cs arbitrary: s n l)
  case Nil
  then show ?case
    by (subst strnlen_from.simps) simp
next
  case (Cons c cs)
  show ?case
  proof (cases l)
    case 0
    then have "n = maxlen"
      using Cons.prems(2) by (simp add: word_unat_eq_iff)
    then show ?thesis
      using 0 by (subst strnlen_from.simps) simp
  next
    case (Suc k)
    then have "unat n < unat maxlen"
      using Cons.prems(2) by simp
    then have "n \<noteq> maxlen" "unat (n + 1) = unat n + 1"
      using unat_less_2p64 [of maxlen] by (auto simp: unat_word_ariths)
    then show ?thesis
      using Cons.IH [of "s + 1" "n + 1" k] Cons.prems Suc
      by (subst strnlen_from.simps) (simp add: add.assoc)
  qed
qed

text \<open>Lexicographic order of strings of unsigned characters.\<close>

fun string_less :: "u8 list \<Rightarrow> u8 list \<Rightarrow> bool" where
  "string_less [] bs = (bs \<noteq> [])"
| "string_less (a # as) [] = False"
| "string_less (a # as) (b # bs) = (a < b \<or> a = b \<and> string_less as bs)"

lemma strcmp_string:
  "c_string m a as \<Longrightarrow> c_string m b bs \<Longrightarrow>
   strcmp m a b = Some (if as = bs then 0 else if string_less as bs then - 1 else 1)"
proof (induction as arbitrary: a b bs)
  case Nil
  then show ?case
    by (cases bs; subst strcmp.simps) (auto simp: word_gt_0)
next
  case (Cons c as)
  have a: "m a = c" "c \<noteq> 0" "c_string m (a + 1) as"
    using Cons.prems(1) by auto
  show ?case
  proof (cases bs)
    case Nil
    then show ?thesis
      using a Cons.prems(2) by (subst strcmp.simps) (simp add: word_gt_0)
  next
    case (Cons d ds)
    then have b: "m b = d" "d \<noteq> 0" "c_string m (b + 1) ds"
      using Cons.prems(2) by auto
    show ?thesis
    proof (cases "c = d")
      case True
      then show ?thesis
        using a b Cons Cons.IH [OF a(3) b(3)] by (subst strcmp.simps) simp
    next
      case False
      then show ?thesis
        using a(1) b(1) Cons by (subst strcmp.simps) auto
    qed
  qed
qed

lemma strchr_end_string:
  "c_string m s cs \<Longrightarrow> strchr_end m s c = Some (s + of_nat (length (takeWhile (\<lambda>d. d \<noteq> c) cs)))"
proof (induction cs arbitrary: s)
  case Nil
  then show ?case
    by (subst strchr_end.simps) simp
next
  case (Cons d cs)
  then show ?case
    by (subst strchr_end.simps) (auto simp: add.assoc)
qed

lemma c_string_nth:
  "c_string m s cs \<Longrightarrow> i < length cs \<Longrightarrow> m (s + of_nat i) = cs ! i"
proof (induction cs arbitrary: s i)
  case (Cons c cs)
  then show ?case
    by (cases i) (simp_all add: add.assoc [symmetric])
qed simp

lemma c_string_end: "c_string m s cs \<Longrightarrow> m (s + of_nat (length cs)) = 0"
  by (induction cs arbitrary: s) (simp_all add: add.assoc [symmetric])

lemma c_string_frame:
  "c_string m s cs \<Longrightarrow> (\<And>i. i \<le> length cs \<Longrightarrow> m' (s + of_nat i) = m (s + of_nat i)) \<Longrightarrow> c_string m' s cs"
proof (induction cs arbitrary: s)
  case Nil
  then show ?case
    using Nil(2) [of 0] by simp
next
  case (Cons c cs)
  have "m' (s + 1 + of_nat i) = m (s + 1 + of_nat i)" if "i \<le> length cs" for i
    using Cons.prems(2) [of "Suc i"] that by (simp add: add.assoc)
  then show ?case
    using Cons.prems Cons.IH [of "s + 1"] Cons.prems(2) [of 0] by simp
qed

text \<open>Copying to a destination that does not overlap the source: byte \<open>i\<close> of either range is at \<open>s + i\<close>.\<close>

definition ranges_disjoint :: "u64 \<Rightarrow> u64 \<Rightarrow> nat \<Rightarrow> bool" where
  "ranges_disjoint d s n \<longleftrightarrow> (\<forall>i<n. \<forall>j<n. d + of_nat i \<noteq> s + of_nat j)"

lemma strcpy_string:
  "c_string m s cs \<Longrightarrow> ranges_disjoint d s (length cs + 1) \<Longrightarrow> length cs < 2 ^ 64 \<Longrightarrow>
   \<exists>m'. strcpy d s m = Some m' \<and> c_string m' d cs \<and>
     (\<forall>x. (\<forall>i\<le>length cs. x \<noteq> d + of_nat i) \<longrightarrow> m' x = m x)"
proof (induction cs arbitrary: s d m)
  case Nil
  then show ?case
    by (subst strcpy.simps) (auto simp: Let_def)
next
  case (Cons c cs)
  let ?m = "m(d := m s)"
  have ne: "s + of_nat i \<noteq> d" if "i \<le> length (c # cs)" for i
  proof -
    have "0 < length (c # cs) + 1" "i < length (c # cs) + 1"
      using that by auto
    then have "d + of_nat 0 \<noteq> s + of_nat i"
      using Cons.prems(2) unfolding ranges_disjoint_def by blast
    then show ?thesis
      by auto
  qed
  have cs: "c_string ?m (s + 1) cs"
  proof (rule c_string_frame)
    show "c_string m (s + 1) cs"
      using Cons.prems(1) by simp
    show "?m (s + 1 + of_nat i) = m (s + 1 + of_nat i)" if "i \<le> length cs" for i
      using ne [of "Suc i"] that by (simp add: add.assoc)
  qed
  have rd: "ranges_disjoint (d + 1) (s + 1) (length cs + 1)"
  proof -
    have "d + of_nat (Suc i) \<noteq> s + of_nat (Suc j)" if "i < length cs + 1" "j < length cs + 1" for i j
      using Cons.prems(2) that unfolding ranges_disjoint_def by (metis add_less_cancel_right length_Cons Suc_eq_plus1)
    then show ?thesis
      by (simp add: ranges_disjoint_def add.assoc)
  qed
  have "length cs < 2 ^ 64"
    using Cons.prems(3) by simp
  from Cons.IH [OF cs rd this] obtain m' where m': "strcpy (d + 1) (s + 1) ?m = Some m'" "c_string m' (d + 1) cs"
    "\<forall>x. (\<forall>i\<le>length cs. x \<noteq> d + 1 + of_nat i) \<longrightarrow> m' x = ?m x"
    by blast
  have "d \<noteq> d + 1 + of_nat i" if "i \<le> length cs" for i
  proof
    assume "d = d + 1 + of_nat i"
    then have "unat (of_nat (Suc i) :: u64) = 0"
      by (simp add: add.assoc)
    then show False
      using that Cons.prems(3) by (simp add: unat_of_nat del: of_nat_Suc)
  qed
  then have "m' d = c"
    using m'(3) Cons.prems(1) by simp
  moreover have "strcpy d s m = Some m'"
    using m'(1) Cons.prems(1) by (subst strcpy.simps) (simp add: Let_def)
  moreover have "m' x = m x" if x: "\<forall>i\<le>length (c # cs). x \<noteq> d + of_nat i" for x
  proof -
    have "x \<noteq> d"
      using x [rule_format, of 0] by simp
    moreover have "x \<noteq> d + 1 + of_nat i" if "i \<le> length cs" for i
      using x [rule_format, of "Suc i"] that by (simp add: add.assoc)
    ultimately show ?thesis
      using m'(3) by simp
  qed
  ultimately show ?case
    using m'(2) Cons.prems(1) by auto
qed

section \<open>Properties of the string functions\<close>

text \<open>On a NUL-terminated string the string functions return: \<open>strlen\<close> the number of characters before
  the NUL, \<open>strnlen\<close> that number cut at its bound, and \<open>strchr\<close> a pointer to the first occurrence of
  the character, to the NUL when that is searched, and \<open>NULL\<close> when there is none.\<close>

theorem string_scans:
  assumes "c_string m s cs" and "length cs < 2 ^ 64"
  shows "strlen m s = Some (of_nat (length cs)) \<and>
    strnlen m s n = Some (of_nat (min (length cs) (unat n))) \<and>
    strchr m s c =
      (if ucast c \<in> set cs then Some (s + of_nat (length (takeWhile (\<lambda>d. d \<noteq> ucast c) cs)))
       else if ucast c = (0 :: u8) then Some (s + of_nat (length cs)) else Some 0)"
proof -
  have "strlen m s = Some (of_nat (length cs))"
    using strlen_from_string [OF assms(1), of 0] by (simp add: strlen_def)
  moreover have "strnlen m s n = Some (of_nat (min (length cs) (unat n)))"
    using strnlen_from_string [OF assms(1), of 0 "unat n" n] by (simp add: strnlen_def)
  moreover have "strchr m s c =
      (if ucast c \<in> set cs then Some (s + of_nat (length (takeWhile (\<lambda>d. d \<noteq> ucast c) cs)))
       else if ucast c = (0 :: u8) then Some (s + of_nat (length cs)) else Some 0)"
  proof (cases "ucast c \<in> set cs")
    case True
    let ?i = "length (takeWhile (\<lambda>d. d \<noteq> ucast c) cs)"
    have "?i < length cs"
      using True by (induction cs) auto
    then have "m (s + of_nat ?i) = ucast c"
      using c_string_nth [OF assms(1)] nth_length_takeWhile [of "\<lambda>d. d \<noteq> ucast c" cs] by simp
    then show ?thesis
      using True strchr_end_string [OF assms(1), of "ucast c"] by (simp add: strchr_def)
  next
    case False
    then have "takeWhile (\<lambda>d. d \<noteq> ucast c) cs = cs"
      by (auto simp: takeWhile_eq_all_conv)
    then have "strchr_end m s (ucast c) = Some (s + of_nat (length cs))"
      using strchr_end_string [OF assms(1), of "ucast c"] by presburger
    then show ?thesis
      using False c_string_end [OF assms(1)] by (auto simp: strchr_def)
  qed
  ultimately show ?thesis
    by blast
qed

definition memory_hi :: mem where
  "memory_hi = (\<lambda>_. 0)(0x1000 := 104, 0x1001 := 105)"

theorem string_scans_witness:
  "strlen memory_hi 0x1000 = Some 2 \<and> strchr memory_hi 0x1000 105 = Some 0x1001"
proof -
  have "c_string memory_hi 0x1000 [104, 105]"
    by (simp add: memory_hi_def)
  from string_scans [OF this, of 7 105] show ?thesis
    by simp
qed

text \<open>\<open>strcmp\<close> returns 0 exactly for equal strings, -1 when the first is smaller in the lexicographic
  order of unsigned characters, and 1 otherwise.\<close>

theorem strcmp_lexicographic:
  assumes "c_string m a as" and "c_string m b bs"
  shows "strcmp m a b = Some (if as = bs then 0 else if string_less as bs then - 1 else 1)"
  by (rule strcmp_string [OF assms])

theorem strcmp_lexicographic_witness:
  "strcmp memory_hi 0x1000 0x1001 = Some (- 1)"
proof -
  have "c_string memory_hi 0x1000 [104, 105]" "c_string memory_hi 0x1001 [105]"
    by (simp_all add: memory_hi_def)
  from strcmp_lexicographic [OF this] show ?thesis
    by simp
qed

text \<open>\<open>strcpy\<close> to a destination that does not overlap the string returns, leaves the string at the
  destination and changes no other byte.\<close>

theorem strcpy_copies:
  assumes "c_string m s cs" and "ranges_disjoint d s (length cs + 1)" and "length cs < 2 ^ 64"
  shows "\<exists>m'. strcpy d s m = Some m' \<and> c_string m' d cs \<and>
     (\<forall>x. (\<forall>i\<le>length cs. x \<noteq> d + of_nat i) \<longrightarrow> m' x = m x)"
  by (rule strcpy_string [OF assms])

theorem strcpy_copies_witness:
  "\<exists>m'. strcpy 0x2000 0x1000 memory_hi = Some m' \<and> c_string m' 0x2000 [104, 105]"
proof -
  have "c_string memory_hi 0x1000 [104, 105]"
    by (simp add: memory_hi_def)
  moreover have "ranges_disjoint 0x2000 0x1000 (length [104, 105 :: u8] + 1)"
    by (simp add: ranges_disjoint_def All_less_Suc)
  ultimately show ?thesis
    using strcpy_copies [of memory_hi "0x1000" "[104, 105]" "0x2000"] by auto
qed

text \<open>\<open>rand\<close> returns values from 0 to \<open>RAND_MAX\<close>, and the sequence depends only on the seed: after
  \<open>srand(seed)\<close> the next value is that of the linear congruential generator, and an unseeded
  generator behaves as one seeded with 819234718.\<close>

theorem rand_sequence:
  "unat (fst (rand r)) \<le> 0x7FFFFFFF \<and>
   fst (rand (srand seed r)) = (seed * 1664525 + 1013904223) AND 0x7FFFFFFF \<and>
   rand_seed (snd (rand (srand seed r))) = seed * 1664525 + 1013904223 \<and>
   rand_seed_set (snd (rand r)) \<and> (rand_seed_set r \<or> rand r = rand (srand 819234718 r))"
proof -
  have "unat (x AND 0x7FFFFFFF) \<le> 0x7FFFFFFF" for x :: u32
  proof -
    have "x AND 0x7FFFFFFF = take_bit 31 x"
      by (simp add: take_bit_eq_mask mask_eq_exp_minus_1)
    then have "unat (x AND 0x7FFFFFFF) = take_bit 31 (unat x)"
      by (simp only: unsigned_take_bit_eq)
    moreover have "take_bit 31 (unat x) < 2 ^ 31"
      by (rule take_bit_nat_less_exp)
    ultimately show ?thesis
      by simp
  qed
  then show ?thesis
    by (simp add: rand_def srand_def Let_def)
qed

end
