(* ===== verification/Trap_Entry.thy ===== *)
theory Trap_Entry
  imports Kernel Elf C_Strings
begin

text \<open>
  The assembly of \<^verbatim>\<open>kernel/k-exception.S\<close>: the interrupt handlers, \<open>generic_exception_handler\<close>,
  \<open>exception_return\<close> and \<open>entry_from_boot\<close>. A handler is the list of its instructions, run on the record
  \<open>cpu\<close>; the part the processor plays itself (the interrupt gate, the switch of the stack, the words it pushes,
  \<open>iretq\<close>) is modelled as the manuals of the processor describe it. The theory connects the registers of an
  interrupted process with the \<open>x86_64_registers\<close> that \<open>exception\<close> takes and that \<open>run\<close> returns to.
\<close>

section \<open>The processor\<close>

datatype register = RAX | RCX | RDX | RBX | RBP | RSI | RDI | R8 | R9 | R10 | R11 | R12 | R13 | R14 | R15 | RSP

datatype segment = CS | SS | FS | GS

record cpu =
  gpr :: "register \<Rightarrow> u64"
  seg :: "segment \<Rightarrow> u16"
  rip :: u64
  rflags :: u64
  ram :: mem

text \<open>Of the bits of \<open>rflags\<close> the processor lets privileged code change those that \<^verbatim>\<open>shared/x86-64.h\<close> names, but not
  \<open>EFLAGS_VM\<close> (there is no virtual 8086 mode below a 64-bit kernel). Bit 1 is always set, the others are always clear.\<close>

definition EFLAGS_RF :: u64 where "EFLAGS_RF = 0x10000"
definition EFLAGS_LOADABLE :: u64 where
  "EFLAGS_LOADABLE = 0x1 OR 0x4 OR 0x10 OR 0x40 OR 0x80 OR 0x100 OR 0x200 OR 0x400 OR 0x800 OR 0x3000 OR 0x4000
     OR EFLAGS_RF OR 0x40000 OR 0x80000 OR 0x100000 OR 0x200000"

definition loaded_flags :: "u64 \<Rightarrow> u64" where
  "loaded_flags v = (v AND EFLAGS_LOADABLE) OR 2"

definition push64 :: "u64 \<Rightarrow> cpu \<Rightarrow> cpu" where
  "push64 v c = c\<lparr>gpr := (gpr c)(RSP := gpr c RSP - 8), ram := store64 (ram c) (gpr c RSP - 8) v\<rparr>"

definition pop64 :: "cpu \<Rightarrow> u64 \<times> cpu" where
  "pop64 c = (load64 (ram c) (gpr c RSP), c\<lparr>gpr := (gpr c)(RSP := gpr c RSP + 8)\<rparr>)"

text \<open>The instructions of the handlers, with the operands in the order of the source. A segment register is
  pushed with zeros above its 16 bits, and loaded from the low 16 bits. The status flags that \<open>addq\<close> sets are left
  out: \<open>iretq\<close> loads all flags right after it.\<close>

datatype instr =
    Pushq_imm u64
  | Pushq register
  | Pushq_seg segment
  | Popq register
  | Popq_seg segment
  | Movq register register
  | Addq u64 register
  | Iretq

fun exec :: "instr \<Rightarrow> cpu \<Rightarrow> cpu" where
  "exec (Pushq_imm v) c = push64 v c"
| "exec (Pushq r) c = push64 (gpr c r) c"
| "exec (Pushq_seg s) c = push64 (ucast (seg c s)) c"
| "exec (Popq r) c = (case pop64 c of (v, c1) \<Rightarrow> c1\<lparr>gpr := (gpr c1)(r := v)\<rparr>)"
| "exec (Popq_seg s) c = (case pop64 c of (v, c1) \<Rightarrow> c1\<lparr>seg := (seg c1)(s := ucast v)\<rparr>)"
| "exec (Movq r1 r2) c = c\<lparr>gpr := (gpr c)(r2 := gpr c r1)\<rparr>"
| "exec (Addq v r) c = c\<lparr>gpr := (gpr c)(r := gpr c r + v)\<rparr>"
| "exec Iretq c =
     (case pop64 c of (new_rip, c1) \<Rightarrow> case pop64 c1 of (new_cs, c2) \<Rightarrow> case pop64 c2 of (fl, c3) \<Rightarrow>
      case pop64 c3 of (new_rsp, c4) \<Rightarrow> case pop64 c4 of (new_ss, c5) \<Rightarrow>
        c5\<lparr>rip := new_rip, seg := (seg c5)(CS := ucast new_cs, SS := ucast new_ss), rflags := loaded_flags fl,
           gpr := (gpr c5)(RSP := new_rsp)\<rparr>)"

definition execute :: "instr list \<Rightarrow> cpu \<Rightarrow> cpu" where
  "execute = fold exec"

section \<open>The handlers\<close>

datatype handler = Gpf_handler | Pagefault_handler | Timer_handler | Sys_handler nat | Default_handler

text \<open>What each handler pushes before it jumps to \<open>generic_exception_handler\<close>; \<open>Sys_handler n\<close> is the handler of
  vector \<open>n\<close>, from 48 to 63.\<close>

fun handler_code :: "handler \<Rightarrow> instr list" where
  "handler_code Gpf_handler = [Pushq_imm 13]"
| "handler_code Pagefault_handler = [Pushq_imm 14]"
| "handler_code Timer_handler = [Pushq_imm 0, Pushq_imm 32]"
| "handler_code (Sys_handler n) = [Pushq_imm 0, Pushq_imm (of_nat n)]"
| "handler_code Default_handler = [Pushq_imm 0]"

text \<open>Up to the call of \<open>exception\<close>.\<close>

definition generic_exception_handler :: "instr list" where
  "generic_exception_handler =
     [Pushq_seg GS, Pushq_seg FS, Pushq R15, Pushq R14, Pushq R13, Pushq R12, Pushq R11, Pushq R10, Pushq R9, Pushq R8,
      Pushq RDI, Pushq RSI, Pushq RBP, Pushq RBX, Pushq RDX, Pushq RCX, Pushq RAX, Movq RSP RDI]"

definition exception_return :: "instr list" where
  "exception_return =
     [Movq RDI RSP, Popq RAX, Popq RCX, Popq RDX, Popq RBX, Popq RBP, Popq RSI, Popq RDI, Popq R8, Popq R9, Popq R10,
      Popq R11, Popq R12, Popq R13, Popq R14, Popq R15, Popq_seg FS, Popq_seg GS, Addq 16 RSP, Iretq]"

text \<open>The handler that the linker has put at an address.\<close>

definition handler_at :: "link_map \<Rightarrow> hw_symbols \<Rightarrow> u64 \<Rightarrow> handler option" where
  "handler_at lm hs a =
     (if a = gpf_int_handler hs then Some Gpf_handler
      else if a = pagefault_int_handler hs then Some Pagefault_handler
      else if a = timer_int_handler hs then Some Timer_handler
      else case find (\<lambda>i. a = sys_int_handlers hs i) [0..<16] of
             Some i \<Rightarrow> Some (Sys_handler (48 + i))
           | None \<Rightarrow> if a = default_int_handler lm then Some Default_handler else None)"

section \<open>Interrupts\<close>

text \<open>An interrupt: its vector, whether the \<open>int\<close> instruction raised it, the error code that the processor pushes
  for some exceptions, and whether it sets the resume flag in the saved flags, as it does for faults.\<close>

record interrupt =
  vector :: nat
  software :: bool
  error_code :: "u64 option"
  resume_flag :: bool

definition cpl :: "cpu \<Rightarrow> u16" where
  "cpl c = seg c CS AND 3"

definition saved_flags :: "interrupt \<Rightarrow> cpu \<Rightarrow> u64" where
  "saved_flags ev c = (if resume_flag ev then rflags c OR EFLAGS_RF else rflags c)"

text \<open>The delivery through an interrupt gate: an interrupt of user code switches to the stack of the task state
  segment; the interrupted context is pushed; \<open>IF\<close>, \<open>TF\<close>, \<open>NT\<close>, \<open>RF\<close> and \<open>VM\<close> are cleared.\<close>

definition deliver :: "hardware \<Rightarrow> x86_64_gatedescriptor \<Rightarrow> interrupt \<Rightarrow> cpu \<Rightarrow> cpu" where
  "deliver h g ev c =
     (let base = (if cpl c = 0 then gpr c RSP else ts_rsp0 h) AND NOT 0xF;
          c1 = fold push64 ([ucast (seg c SS), gpr c RSP, saved_flags ev c, ucast (seg c CS), rip c] @
                 (case error_code ev of None \<Rightarrow> [] | Some e \<Rightarrow> [e]))
                 (c\<lparr>gpr := (gpr c)(RSP := base)\<rparr>)
      in c1\<lparr>rip := gate_function g, rflags := rflags c AND NOT 0x34300,
            seg := (seg c)(CS := ucast (gate_selector g), SS := if cpl c = 0 then seg c SS else 0)\<rparr>)"

text \<open>From the interrupt to the call of \<open>exception\<close>. There is no result when the gate is absent, when user code
  may not use it, or when no handler is at its address.\<close>

definition take_interrupt :: "link_map \<Rightarrow> hw_symbols \<Rightarrow> hardware \<Rightarrow> interrupt \<Rightarrow> cpu \<Rightarrow> cpu option" where
  "take_interrupt lm hs h ev c =
     (if vector ev < length (interrupt_descriptors h)
      then let g = interrupt_descriptors h ! vector ev
           in if gate_present g \<and> gate_type g = 0xE \<and> (software ev \<longrightarrow> ucast (cpl c) \<le> gate_dpl g)
              then map_option (\<lambda>ha. execute (handler_code ha @ generic_exception_handler) (deliver h g ev c))
                     (handler_at lm hs (gate_function g))
              else None
      else None)"

text \<open>The structure \<open>x86_64_registers\<close> in memory.\<close>

definition read_registers :: "mem \<Rightarrow> u64 \<Rightarrow> x86_64_registers" where
  "read_registers m a = \<lparr>reg_rax = load64 m a, reg_rcx = load64 m (a + 8), reg_rdx = load64 m (a + 16),
     reg_rbx = load64 m (a + 24), reg_rbp = load64 m (a + 32), reg_rsi = load64 m (a + 40), reg_rdi = load64 m (a + 48),
     reg_r8 = load64 m (a + 56), reg_r9 = load64 m (a + 64), reg_r10 = load64 m (a + 72), reg_r11 = load64 m (a + 80),
     reg_r12 = load64 m (a + 88), reg_r13 = load64 m (a + 96), reg_r14 = load64 m (a + 104), reg_r15 = load64 m (a + 112),
     reg_fs = load64 m (a + 120), reg_gs = load64 m (a + 128), reg_intno = load64 m (a + 136), reg_err = load64 m (a + 144),
     reg_rip = load64 m (a + 152), reg_cs = load16 m (a + 160), reg_rflags = load64 m (a + 168), reg_rsp = load64 m (a + 176),
     reg_ss = load16 m (a + 184)\<rparr>"

section \<open>Words on the stack\<close>

text \<open>The words of a stack from its lowest address on.\<close>

primrec stacked :: "mem \<Rightarrow> u64 \<Rightarrow> u64 list \<Rightarrow> bool" where
  "stacked m a [] \<longleftrightarrow> True"
| "stacked m a (w # ws) \<longleftrightarrow> load64 m a = w \<and> stacked m (a + 8) ws"

lemma load16_load64: "load16 m a = ucast (load64 m a)"
  by (rule bit_word_eqI) (auto simp: load16_def load64_def bit_simps)


text \<open>Everything between \<open>rsp\<close> and \<open>base\<close> has been pushed since memory was \<open>m\<close>.\<close>

definition pushed :: "mem \<Rightarrow> u64 \<Rightarrow> u64 list \<Rightarrow> cpu \<Rightarrow> bool" where
  "pushed m base ws c \<longleftrightarrow> aligned8 base \<and> unat (gpr c RSP) + 8 * length ws = unat base \<and>
     stacked (ram c) (gpr c RSP) ws \<and>
     (\<forall>x. unat x < unat (gpr c RSP) \<or> unat base \<le> unat x \<longrightarrow> ram c x = m x)"

lemma pushed_cong: "gpr c RSP = gpr c' RSP \<Longrightarrow> ram c = ram c' \<Longrightarrow> pushed m base ws c = pushed m base ws c'"
  by (simp add: pushed_def)

lemma stacked_store:
  assumes "aligned8 a" and "aligned8 b" and "unat b < unat a" and "unat a + 8 * length ws < 2 ^ 64"
  shows "stacked (store64 m b v) a ws = stacked m a ws"
  using assms(1,3,4)
proof (induction ws arbitrary: a)
  case (Cons w ws)
  have a8: "unat (a + 8) = unat a + 8"
    using Cons.prems(3) by (simp add: unat_word_ariths)
  then have "aligned8 (a + 8)"
    using Cons.prems(1) by (simp add: aligned8_def)
  moreover have "b \<noteq> a"
    using Cons.prems(2) by auto
  ultimately show ?case
    using Cons.IH [of "a + 8"] Cons.prems assms(2) a8 by simp
qed simp

lemma pushed_push:
  assumes "pushed m base ws c" and "8 * Suc (length ws) \<le> unat base"
  shows "pushed m base (v # ws) (push64 v c)"
proof -
  let ?a = "gpr c RSP" and ?b = "gpr c RSP - 8"
  have p: "aligned8 base" "unat ?a + 8 * length ws = unat base" "stacked (ram c) ?a ws"
    and frame: "\<And>x. unat x < unat ?a \<or> unat base \<le> unat x \<Longrightarrow> ram c x = m x"
    using assms(1) by (auto simp: pushed_def)
  have b: "unat ?b + 8 = unat ?a"
    using assms(2) p(2) by (simp add: unat_sub_if')
  have al: "aligned8 ?a" "aligned8 ?b"
    using p(1,2) b unfolding aligned8_def by presburger+
  have "stacked (store64 (ram c) ?b v) ?a ws"
    using stacked_store [OF al, of ws "ram c" v] p(2,3) b unat_less_2p64 [of base] by simp
  moreover have "store64 (ram c) ?b v x = m x" if "unat x < unat ?b \<or> unat base \<le> unat x" for x
    using store64_frame [OF al(2), of x "ram c" v] frame [of x] that b p(2) by auto
  ultimately show ?thesis
    using p(1,2) b by (simp add: pushed_def push64_def)
qed

lemma pushed_fold:
  assumes "pushed m base ws c" and "8 * (length ws + length vs) \<le> unat base"
  shows "pushed m base (rev vs @ ws) (fold push64 vs c)"
  using assms
proof (induction vs arbitrary: ws c)
  case (Cons v vs)
  then show ?case
    using pushed_push [of m base ws c v] Cons.IH [of "v # ws" "push64 v c"] by simp
qed simp

lemma push64_simps [simp]:
  "seg (push64 v c) = seg c" "rip (push64 v c) = rip c" "rflags (push64 v c) = rflags c"
  "r \<noteq> RSP \<Longrightarrow> gpr (push64 v c) r = gpr c r"
  by (simp_all add: push64_def)

lemma fold_push64_simps [simp]:
  "seg (fold push64 vs c) = seg c" "rip (fold push64 vs c) = rip c" "rflags (fold push64 vs c) = rflags c"
  "r \<noteq> RSP \<Longrightarrow> gpr (fold push64 vs c) r = gpr c r"
  by (induction vs arbitrary: c) simp_all

text \<open>The registers that \<open>generic_exception_handler\<close> pushes, from the lowest address on.\<close>

definition register_words :: "cpu \<Rightarrow> u64 list" where
  "register_words c = map (gpr c) [RAX, RCX, RDX, RBX, RBP, RSI, RDI, R8, R9, R10, R11, R12, R13, R14, R15] @
     [ucast (seg c FS), ucast (seg c GS)]"

lemma register_words_fold [simp]: "register_words (fold push64 vs c) = register_words c"
  by (simp add: register_words_def)

lemma generic_exception_handler_pushes:
  "execute generic_exception_handler c =
     (let c1 = fold push64 (rev (register_words c)) c in c1\<lparr>gpr := (gpr c1)(RDI := gpr c1 RSP)\<rparr>)"
  by (simp add: execute_def generic_exception_handler_def register_words_def Let_def)

text \<open>What a handler pushes.\<close>

fun handler_words :: "handler \<Rightarrow> u64 list" where
  "handler_words Gpf_handler = [13]"
| "handler_words Pagefault_handler = [14]"
| "handler_words Timer_handler = [32, 0]"
| "handler_words (Sys_handler n) = [of_nat n, 0]"
| "handler_words Default_handler = [0]"

lemma handler_code_pushes: "execute (handler_code ha) c = fold push64 (rev (handler_words ha)) c"
  by (cases ha) (simp_all add: execute_def)

lemma execute_append: "execute (is @ js) c = execute js (execute is c)"
  by (simp add: execute_def)

text \<open>What the processor pushes.\<close>

definition processor_words :: "interrupt \<Rightarrow> cpu \<Rightarrow> u64 list" where
  "processor_words ev c = (case error_code ev of None \<Rightarrow> [] | Some e \<Rightarrow> [e]) @
     [rip c, ucast (seg c CS), saved_flags ev c, gpr c RSP, ucast (seg c SS)]"

lemma deliver_pushes:
  assumes "cpl c \<noteq> 0" and "ts_rsp0 h = 0x80000"
  shows "pushed (ram c) 0x80000 (processor_words ev c) (deliver h g ev c)"
    and "register_words (deliver h g ev c) = register_words c"
proof -
  let ?c0 = "c\<lparr>gpr := (gpr c)(RSP := 0x80000)\<rparr>"
  let ?vs = "rev (processor_words ev c)"
  have d: "gpr (deliver h g ev c) = gpr (fold push64 ?vs ?c0)" "ram (deliver h g ev c) = ram (fold push64 ?vs ?c0)"
    using assms by (simp_all add: deliver_def processor_words_def Let_def split: option.splits)
  have "pushed (ram c) 0x80000 [] ?c0"
    by (simp add: pushed_def aligned8_def)
  then have "pushed (ram c) 0x80000 (processor_words ev c) (fold push64 ?vs ?c0)"
    using pushed_fold [of "ram c" "0x80000" "[]" ?c0 ?vs] by (simp add: processor_words_def split: option.splits)
  then show "pushed (ram c) 0x80000 (processor_words ev c) (deliver h g ev c)"
    by (subst pushed_cong [of _ "fold push64 ?vs ?c0"]) (simp_all only: d)
  show "register_words (deliver h g ev c) = register_words c"
    unfolding register_words_def d by (simp add: deliver_def Let_def)
qed

lemma handler_pushes:
  assumes "cpl c \<noteq> 0" and "ts_rsp0 h = 0x80000"
    and "c' = execute (handler_code ha @ generic_exception_handler) (deliver h g ev c)"
  shows "pushed (ram c) 0x80000 (register_words c @ handler_words ha @ processor_words ev c) c'"
    and "gpr c' RDI = gpr c' RSP"
proof -
  let ?d = "deliver h g ev c" and ?vs = "rev (register_words c @ handler_words ha)"
  have len: "length (processor_words ev c) \<le> 6" "length (handler_words ha) \<le> 2" "length (register_words c) = 17"
    by (cases ha; simp add: processor_words_def register_words_def split: option.splits)+
  have c': "c' = (let c1 = fold push64 ?vs ?d in c1\<lparr>gpr := (gpr c1)(RDI := gpr c1 RSP)\<rparr>)"
    by (simp add: assms(3) execute_append handler_code_pushes generic_exception_handler_pushes
        deliver_pushes(2) [OF assms(1,2)])
  have "pushed (ram c) 0x80000 (rev ?vs @ processor_words ev c) (fold push64 ?vs ?d)"
    using deliver_pushes(1) [OF assms(1,2)] by (rule pushed_fold) (use len in simp)
  then show "pushed (ram c) 0x80000 (register_words c @ handler_words ha @ processor_words ev c) c'"
    by (subst pushed_cong [of _ "fold push64 ?vs ?d"]) (simp_all add: c' Let_def)
  show "gpr c' RDI = gpr c' RSP"
    by (simp add: c' Let_def)
qed


section \<open>The tables of the processor\<close>

text \<open>The tables that \<open>segments_init\<close> builds.\<close>

definition traps_set :: "link_map \<Rightarrow> hw_symbols \<Rightarrow> hardware \<Rightarrow> bool" where
  "traps_set lm hs h \<longleftrightarrow> interrupt_descriptors h = init_gates lm hs \<and> ts_rsp0 h = 0x80000"

definition same_traps :: "hardware \<Rightarrow> hardware \<Rightarrow> bool" where
  "same_traps h h' \<longleftrightarrow> interrupt_descriptors h' = interrupt_descriptors h \<and> ts_rsp0 h' = ts_rsp0 h"

lemma same_traps_trans: "same_traps h h1 \<Longrightarrow> same_traps h1 h2 \<Longrightarrow> same_traps h h2"
  by (simp add: same_traps_def)

lemma traps_set_same: "same_traps h h' \<Longrightarrow> traps_set lm hs h' = traps_set lm hs h"
  by (simp add: same_traps_def traps_set_def)

lemma out_bytes_traps [simp]:
  "interrupt_descriptors (out_bytes ws h) = interrupt_descriptors h" "ts_rsp0 (out_bytes ws h) = ts_rsp0 h"
  by (induction ws arbitrary: h) (auto simp: out_bytes_def port_defs)

lemma traps_set_init:
  "traps_set lm hs (timer_init r (interrupt_init (segments_init lm hs h)))"
  by (simp add: traps_set_def timer_init_def interrupt_init_def interrupt_mask_def segments_init_def port_defs Let_def)

lemma console_show_cursor_traps: "same_traps h (console_show_cursor cpos h)"
  by (simp add: same_traps_def console_show_cursor_def port_defs Let_def)

section \<open>Entering the kernel\<close>

text \<open>The handlers are different routines, so the linker gives them different addresses.\<close>

definition distinct_handlers :: "link_map \<Rightarrow> hw_symbols \<Rightarrow> bool" where
  "distinct_handlers lm hs \<longleftrightarrow>
     distinct ([gpf_int_handler hs, pagefault_int_handler hs, timer_int_handler hs, default_int_handler lm] @
       map (sys_int_handlers hs) [0..<16])"

definition handler_for :: "nat \<Rightarrow> handler" where
  "handler_for v = (if v = 13 then Gpf_handler else if v = 14 then Pagefault_handler else if v = 32 then Timer_handler
     else if 48 \<le> v \<and> v < 64 then Sys_handler v else Default_handler)"

lemma handler_at_handler_of:
  assumes "distinct_handlers lm hs"
  shows "handler_at lm hs (handler_of lm hs v) = Some (handler_for v)"
proof -
  have d: "distinct [gpf_int_handler hs, pagefault_int_handler hs, timer_int_handler hs, default_int_handler lm]"
    "inj_on (sys_int_handlers hs) {..<16}"
    "\<And>i. i < 16 \<Longrightarrow> gpf_int_handler hs \<noteq> sys_int_handlers hs i \<and> pagefault_int_handler hs \<noteq> sys_int_handlers hs i \<and>
       timer_int_handler hs \<noteq> sys_int_handlers hs i \<and> default_int_handler lm \<noteq> sys_int_handlers hs i"
    using assms unfolding distinct_handlers_def distinct_append distinct_map by (auto simp: lessThan_atLeast0 image_iff)
  have found: "find (\<lambda>i. sys_int_handlers hs j = sys_int_handlers hs i) [0..<16] = Some j" if j: "j < 16" for j
    unfolding find_Some_iff using inj_onD [OF d(2), of j] j
    by (intro exI [of _ j]) (fastforce simp del: upt_rec_numeral)
  have none: "find (\<lambda>i. default_int_handler lm = sys_int_handlers hs i) [0..<16] = None"
    unfolding find_None_iff using d(3) by (auto simp del: upt_rec_numeral)
  show ?thesis
  proof (cases "48 \<le> v \<and> v < 64")
    case True
    then obtain i where i: "v = 48 + i" "i < 16"
      by (intro that [of "v - 48"]) auto
    then have "sys_int_handlers hs i \<noteq> gpf_int_handler hs" "sys_int_handlers hs i \<noteq> pagefault_int_handler hs"
      "sys_int_handlers hs i \<noteq> timer_int_handler hs"
      using d(3) by metis+
    then show ?thesis
      using found [OF i(2)] i by (simp add: handler_at_def handler_of_def handler_for_def del: upt_rec_numeral)
  next
    case False
    then show ?thesis
      using d(1) none by (auto simp: handler_at_def handler_of_def handler_for_def)
  qed
qed

text \<open>The vectors with a present gate, and among them those that the \<open>int\<close> instruction of a process may use.\<close>

definition deliverable :: "interrupt \<Rightarrow> bool" where
  "deliverable ev \<longleftrightarrow> vector ev < 256 \<and> (vector ev = 13 \<or> vector ev = 14 \<or> 16 \<le> vector ev) \<and>
     (software ev \<longrightarrow> 48 \<le> vector ev \<and> vector ev < 64)"

lemma take_interrupt_handler:
  assumes "traps_set lm hs h" and "distinct_handlers lm hs" and "cpl c = 3" and "deliverable ev"
  obtains g where "take_interrupt lm hs h ev c =
    Some (execute (handler_code (handler_for (vector ev)) @ generic_exception_handler) (deliver h g ev c))"
    and "gate_selector g = SEGSEL_KERN_CODE"
proof -
  let ?v = "vector ev" and ?dpl = "if 48 \<le> vector ev \<and> vector ev < 64 then 3 else 0 :: u64"
  let ?g = "set_gate X86GATE_INTERRUPT ?dpl (handler_of lm hs ?v)"
  have v: "?v < 256" "16 \<le> ?v \<or> ?v = 13 \<or> ?v = 14"
    using assms(4) by (auto simp: deliverable_def)
  have "length (interrupt_descriptors h) = 256" and gate: "interrupt_descriptors h ! ?v = ?g"
    using assms(1) init_gates_nth [OF v(1), of lm hs] v(2)
    by (simp_all add: traps_set_def init_gates_def Let_def set_gates_nth)
  moreover have "?dpl AND mask 2 = ?dpl"
    by (simp add: mask_eq_exp_minus_1)
  note g = set_gate_decodes [OF this, of "handler_of lm hs ?v"]
  moreover have "software ev \<longrightarrow> ucast (cpl c) \<le> ?dpl"
    using assms(3,4) by (auto simp: deliverable_def)
  ultimately have "take_interrupt lm hs h ev c =
      Some (execute (handler_code (handler_for ?v) @ generic_exception_handler) (deliver h ?g ev c))"
    using v(1) handler_at_handler_of [OF assms(2)]
    by (simp only: take_interrupt_def Let_def gate if_P option.map simp_thms)
  then show thesis
    using g(2) by (rule that)
qed

text \<open>The registers of an interrupted process, as \<open>exception\<close> should find them.\<close>

definition interrupted_registers :: "interrupt \<Rightarrow> cpu \<Rightarrow> x86_64_registers" where
  "interrupted_registers ev c = \<lparr>reg_rax = gpr c RAX, reg_rcx = gpr c RCX, reg_rdx = gpr c RDX, reg_rbx = gpr c RBX,
     reg_rbp = gpr c RBP, reg_rsi = gpr c RSI, reg_rdi = gpr c RDI, reg_r8 = gpr c R8, reg_r9 = gpr c R9,
     reg_r10 = gpr c R10, reg_r11 = gpr c R11, reg_r12 = gpr c R12, reg_r13 = gpr c R13, reg_r14 = gpr c R14,
     reg_r15 = gpr c R15, reg_fs = ucast (seg c FS), reg_gs = ucast (seg c GS),
     reg_intno = of_nat (vector ev), reg_err = (case error_code ev of None \<Rightarrow> 0 | Some e \<Rightarrow> e),
     reg_rip = rip c, reg_cs = seg c CS, reg_rflags = saved_flags ev c, reg_rsp = gpr c RSP, reg_ss = seg c SS\<rparr>"

text \<open>The vectors with a handler of their own; the processor pushes an error code for the two exceptions only.\<close>

definition handled :: "interrupt \<Rightarrow> bool" where
  "handled ev \<longleftrightarrow> (case error_code ev of
       Some e \<Rightarrow> vector ev = 13 \<or> vector ev = 14
     | None \<Rightarrow> vector ev = 32 \<or> 48 \<le> vector ev \<and> vector ev < 64) \<and>
     (software ev \<longrightarrow> 48 \<le> vector ev \<and> vector ev < 64)"

lemma ucast_u16_u64 [simp]: "ucast (ucast (w :: u16) :: u64) = w"
  by (rule bit_word_eqI) (auto simp: bit_simps)

lemma execute_pushes_simps:
  "seg (execute (handler_code ha @ generic_exception_handler) c) = seg c"
  "rflags (execute (handler_code ha @ generic_exception_handler) c) = rflags c"
  by (simp_all add: execute_append handler_code_pushes generic_exception_handler_pushes Let_def)

lemma entered_frame:
  assumes "traps_set lm hs h" and "distinct_handlers lm hs" and "cpl c = 3" and "deliverable ev"
    and "ws = register_words c @ handler_words (handler_for (vector ev)) @ processor_words ev c"
  obtains c' where "take_interrupt lm hs h ev c = Some c'" and "cpl c' = 0" and "rflags c' AND EFLAGS_IF = 0"
    and "unat (gpr c' RDI) + 8 * length ws = 0x80000" and "stacked (ram c') (gpr c' RDI) ws"
    and "\<And>x. unat x < unat (gpr c' RDI) \<or> 0x80000 \<le> unat x \<Longrightarrow> ram c' x = ram c x"
proof -
  obtain g where t: "take_interrupt lm hs h ev c =
      Some (execute (handler_code (handler_for (vector ev)) @ generic_exception_handler) (deliver h g ev c))"
    and g: "gate_selector g = SEGSEL_KERN_CODE"
    using take_interrupt_handler [OF assms(1-4)] .
  define c' where "c' = execute (handler_code (handler_for (vector ev)) @ generic_exception_handler) (deliver h g ev c)"
  have p: "pushed (ram c) 0x80000 ws c'" "gpr c' RDI = gpr c' RSP"
    using handler_pushes [OF _ _ c'_def] assms(1,3,5) by (simp_all add: traps_set_def)
  have "cpl c' = 0" "rflags c' AND EFLAGS_IF = 0"
    by (simp_all add: c'_def execute_pushes_simps cpl_def deliver_def Let_def g SEGSEL_KERN_CODE_def EFLAGS_IF_def and.assoc)
  then show thesis
    using t p by (intro that [of c']) (auto simp: c'_def [symmetric] pushed_def)
qed

lemma handled_frame:
  assumes "traps_set lm hs h" and "distinct_handlers lm hs" and "cpl c = 3" and "handled ev"
  obtains c' where "take_interrupt lm hs h ev c = Some c'" and "cpl c' = 0" and "rflags c' AND EFLAGS_IF = 0"
    and "gpr c' RDI = 0x7FF40" and "read_registers (ram c') 0x7FF40 = interrupted_registers ev c"
    and "\<And>x. unat x < 0x7FF40 \<or> 0x80000 \<le> unat x \<Longrightarrow> ram c' x = ram c x"
proof -
  let ?ws = "register_words c @ handler_words (handler_for (vector ev)) @ processor_words ev c"
  have "deliverable ev"
    using assms(4) by (auto simp: deliverable_def handled_def split: option.splits)
  then obtain c' where c': "take_interrupt lm hs h ev c = Some c'" "cpl c' = 0" "rflags c' AND EFLAGS_IF = 0"
    "unat (gpr c' RDI) + 8 * length ?ws = 0x80000" "stacked (ram c') (gpr c' RDI) ?ws"
    "\<And>x. unat x < unat (gpr c' RDI) \<or> 0x80000 \<le> unat x \<Longrightarrow> ram c' x = ram c x"
    using entered_frame [OF assms(1-3) _ refl] by blast
  have ws: "?ws = register_words c @ [of_nat (vector ev), case error_code ev of None \<Rightarrow> 0 | Some e \<Rightarrow> e] @
      [rip c, ucast (seg c CS), saved_flags ev c, gpr c RSP, ucast (seg c SS)]"
    using assms(4) by (auto simp: handled_def handler_for_def processor_words_def split: option.splits)
  then have rdi: "gpr c' RDI = 0x7FF40"
    using c'(4) by (simp add: register_words_def word_unat_eq_iff)
  have "read_registers (ram c') 0x7FF40 = interrupted_registers ev c"
    using c'(5) unfolding ws rdi
    by (simp add: register_words_def read_registers_def interrupted_registers_def load16_load64)
  then show thesis
    using c' rdi by (intro that [of c']) auto
qed

section \<open>Returning to a process\<close>

text \<open>The processor with the registers of a process.\<close>

fun general_register :: "x86_64_registers \<Rightarrow> register \<Rightarrow> u64" where
  "general_register reg RAX = reg_rax reg"
| "general_register reg RCX = reg_rcx reg"
| "general_register reg RDX = reg_rdx reg"
| "general_register reg RBX = reg_rbx reg"
| "general_register reg RBP = reg_rbp reg"
| "general_register reg RSI = reg_rsi reg"
| "general_register reg RDI = reg_rdi reg"
| "general_register reg R8 = reg_r8 reg"
| "general_register reg R9 = reg_r9 reg"
| "general_register reg R10 = reg_r10 reg"
| "general_register reg R11 = reg_r11 reg"
| "general_register reg R12 = reg_r12 reg"
| "general_register reg R13 = reg_r13 reg"
| "general_register reg R14 = reg_r14 reg"
| "general_register reg R15 = reg_r15 reg"
| "general_register reg RSP = reg_rsp reg"

fun segment_register :: "x86_64_registers \<Rightarrow> segment \<Rightarrow> u16" where
  "segment_register reg CS = reg_cs reg"
| "segment_register reg SS = reg_ss reg"
| "segment_register reg FS = ucast (reg_fs reg)"
| "segment_register reg GS = ucast (reg_gs reg)"

definition running :: "x86_64_registers \<Rightarrow> mem \<Rightarrow> cpu" where
  "running reg m = \<lparr>gpr = general_register reg, seg = segment_register reg, rip = reg_rip reg,
     rflags = loaded_flags (reg_rflags reg), ram = m\<rparr>"

lemma exception_return_loads:
  "execute exception_return c = running (read_registers (ram c) (gpr c RDI)) (ram c)"
proof -
  let ?reg = "read_registers (ram c) (gpr c RDI)" and ?c = "execute exception_return c"
  have "gpr ?c = general_register ?reg"
  proof
    fix r show "gpr ?c r = general_register ?reg r"
      by (cases r) (simp_all add: execute_def exception_return_def pop64_def read_registers_def add.commute)
  qed
  moreover have "seg ?c = segment_register ?reg"
  proof
    fix r show "seg ?c r = segment_register ?reg r"
      by (cases r) (simp_all add: execute_def exception_return_def pop64_def read_registers_def load16_load64 add.commute)
  qed
  moreover have "rip ?c = reg_rip ?reg" "rflags ?c = loaded_flags (reg_rflags ?reg)" "ram ?c = ram c"
    by (simp_all add: execute_def exception_return_def pop64_def read_registers_def add.commute)
  ultimately show ?thesis
    by (simp add: running_def)
qed

lemma loaded_saved_flags:
  assumes "loaded_flags (rflags c) = rflags c"
  shows "loaded_flags (saved_flags ev c) = saved_flags ev c"
proof -
  have "EFLAGS_RF AND EFLAGS_LOADABLE = EFLAGS_RF"
    by (simp add: EFLAGS_RF_def EFLAGS_LOADABLE_def)
  then have "loaded_flags (rflags c OR EFLAGS_RF) = loaded_flags (rflags c) OR EFLAGS_RF"
    by (simp add: loaded_flags_def bit.conj_disj_distrib2 or.assoc or.left_commute or.commute)
  then show ?thesis
    using assms by (simp add: saved_flags_def)
qed

lemma running_interrupted:
  assumes "loaded_flags (rflags c) = rflags c"
  shows "running (interrupted_registers ev c) m = c\<lparr>rflags := saved_flags ev c, ram := m\<rparr>"
proof -
  have "general_register (interrupted_registers ev c) = gpr c"
  proof
    fix r show "general_register (interrupted_registers ev c) r = gpr c r"
      by (cases r) (simp_all add: interrupted_registers_def)
  qed
  moreover have "segment_register (interrupted_registers ev c) = seg c"
  proof
    fix r show "segment_register (interrupted_registers ev c) r = seg c r"
      by (cases r) (simp_all add: interrupted_registers_def)
  qed
  ultimately show ?thesis
    using loaded_saved_flags [OF assms] by (simp add: running_def interrupted_registers_def)
qed


lemma running_set_rax: "running (reg\<lparr>reg_rax := v\<rparr>) m = (running reg m)\<lparr>gpr := (gpr (running reg m))(RAX := v)\<rparr>"
proof -
  have "general_register (reg\<lparr>reg_rax := v\<rparr>) r = ((general_register reg)(RAX := v)) r" for r
    by (cases r) simp_all
  moreover have "segment_register (reg\<lparr>reg_rax := v\<rparr>) r = segment_register reg r" for r
    by (cases r) simp_all
  ultimately show ?thesis
    by (simp add: running_def fun_eq_iff)
qed

section \<open>Starting and restarting the kernel\<close>

text \<open>The entry point of the kernel, up to the jump to \<open>kernel\<close>, with the argument of \<open>kernel\<close> in \<open>rdi\<close>. The status flags
  of the comparisons are left out.\<close>

definition entry_from_boot :: "cpu \<Rightarrow> cpu" where
  "entry_from_boot c =
     (let c1 = push64 0 (c\<lparr>gpr := (gpr c)(RSP := 0x80000, RBP := 0x80000)\<rparr>);
          (v, c2) = pop64 c1;
          c3 = c2\<lparr>rflags := loaded_flags v\<rparr>
      in if ucast (gpr c3 RAX) = (0x2BADB002 :: u32) \<and> load32 (ram c3) (gpr c3 RBX) AND 4 \<noteq> 0
         then c3\<lparr>gpr := (gpr c3)(RDI := ucast (load32 (ram c3) (gpr c3 RBX + 16)))\<rparr>
         else c3\<lparr>gpr := (gpr c3)(RDI := 0)\<rparr>)"

text \<open>The soft reboot at the end of \<open>check_keyboard\<close>: \<open>info\<close> is the address of the array \<open>multiboot_info\<close> on the kernel
  stack, \<open>argument_ptr\<close> the address of the string literal.\<close>

definition soft_reboot :: "u64 \<Rightarrow> u64 \<Rightarrow> cpu \<Rightarrow> cpu outcome" where
  "soft_reboot info argument_ptr c =
     (let m1 = store32 (ram c) info 4
      in bindo (assertion (argument_ptr < 0x100000000)) (\<lambda>_.
         let m2 = store32 m1 (info + 16) (ucast argument_ptr)
         in ret (entry_from_boot (c\<lparr>ram := m2, gpr := (gpr c)(RAX := 0x2BADB002, RBX := info)\<rparr>))))"

lemma load32_store64_above:
  assumes "aligned8 b" and "unat a + 4 \<le> unat b"
  shows "load32 (store64 m b v) a = load32 m a"
proof -
  have "unat (a + 1) = unat a + 1" "unat (a + 2) = unat a + 2" "unat (a + 3) = unat a + 3"
    using assms(2) unat_less_2p64 [of b] by (simp_all add: unat_word_ariths)
  then show ?thesis
    using assms by (simp add: load32_def store64_frame)
qed

lemma reboot_pagetable_frame:
  assumes "unat x < 0x8000 \<or> 0xB000 \<le> unat x"
  shows "reboot_pagetable m x = m x"
proof -
  have "memset m 0x8000 0 (PAGESIZE * 3) x = m x"
    using assms by (intro memset_frame) (auto simp: PAGESIZE_def)
  then show ?thesis
    using assms unfolding reboot_pagetable_def set_entry_def
    by (subst store64_frame, simp add: aligned8_def, fastforce)+ simp
qed

end
