(* ===== verification/Kernel_Properties.thy ===== *)
theory Kernel_Properties
  imports Kernel
begin

text \<open>
  Properties of \<^verbatim>\<open>kernel/kernel.c\<close>: page faults, system calls, the scheduler and the run-time checks
  of the virtual memory invariants.
\<close>

section \<open>Messages of the kernel are always printed\<close>

definition returns_on :: "u32 \<Rightarrow> u8 list \<Rightarrow> vararg list \<Rightarrow> bool" where
  "returns_on color f args \<longleftrightarrow>
     (\<forall>s :: console \<times> nat. \<exists>s'. printer_vprintf console_putc color f args s = ret s')"

lemma returns_on_nil [simp]: "returns_on color [] args"
  by (simp add: returns_on_def printer_vprintf.simps)

lemma returns_on_char: "c \<noteq> 37 \<Longrightarrow> returns_on color cs args \<Longrightarrow> returns_on color (c # cs) args"
  by (simp add: returns_on_def printer_vprintf.simps [of _ _ "c # cs"] del: split_paired_All split_paired_Ex)

lemmas format_steps = printer_vprintf.simps [of _ _ "37 # _"] flag_of_def parse_width_def parse_precision_def
  convert_def signed_arg_def va_word_def va_string_def Let_def

lemma returns_on_word:
  "c = 100 \<or> c = 112 \<Longrightarrow> returns_on color cs args \<Longrightarrow> returns_on color (37 # c # cs) (Va_word w # args)"
  by (auto simp add: returns_on_def format_steps simp del: split_paired_All split_paired_Ex)

lemma returns_on_string:
  "returns_on color cs args \<Longrightarrow> returns_on color (37 # 115 # cs) (Va_string t # args)"
  by (auto simp add: returns_on_def format_steps simp del: split_paired_All split_paired_Ex)

fun format_ok :: "u8 list \<Rightarrow> vararg list \<Rightarrow> bool" where
  "format_ok [] args = True"
| "format_ok (c # cs) args =
     (if c \<noteq> 37 then format_ok cs args
      else case (cs, args) of
             (d # ds, Va_word w # rest) \<Rightarrow> (d = 100 \<or> d = 112) \<and> format_ok ds rest
           | (d # ds, Va_string t # rest) \<Rightarrow> d = 115 \<and> format_ok ds rest
           | _ \<Rightarrow> False)"

lemma format_ok_returns: "format_ok f args \<Longrightarrow> returns_on color f args"
proof (induction f args rule: format_ok.induct)
  case (2 c cs args)
  then show ?case
    by (auto intro: returns_on_char returns_on_word returns_on_string split: if_splits list.splits vararg.splits)
qed simp

lemma kprint_ret:
  assumes "kprint cpos color f args k = ret k'"
  shows "\<exists>cells. k' = k\<lparr>console := cells\<rparr> \<and> (length (console k) = CONSOLE_CELLS \<longrightarrow> length cells = CONSOLE_CELLS)"
  using assms console_vprintf_ok(1) by (fastforce simp: kprint_def console_printf_def bindo_eq_ret)

lemma kprint_returns:
  assumes "format_ok f args"
  shows "\<exists>cells. kprint cpos color f args k = ret (k\<lparr>console := cells\<rparr>) \<and>
    (length (console k) = CONSOLE_CELLS \<longrightarrow> length cells = CONSOLE_CELLS)"
proof -
  define start where "start = (if sint (of_nat cpos :: u32) < 0 \<or> sint (of_nat cpos :: u32) \<ge> int CONSOLE_CELLS
    then 0 else unat (of_nat cpos :: u32))"
  obtain s' where "printer_vprintf console_putc color f args (console k, start) = ret s'"
    using format_ok_returns [OF assms] unfolding returns_on_def by blast
  then obtain k' where "kprint cpos color f args k = ret k'"
    by (cases s') (auto simp: kprint_def console_printf_def console_vprintf_def Let_def start_def)
  then show ?thesis
    using kprint_ret by blast
qed

section \<open>The scheduler\<close>

text \<open>The process the loop of \<open>schedule\<close> looks at in its \<open>d\<close>-th iteration, counted from 0.\<close>

definition nth_candidate :: "kstate \<Rightarrow> nat \<Rightarrow> nat" where
  "nth_candidate k d = (unat (p_pid (the_proc k (current k))) + 1 + d) mod NPROC"

definition runnable :: "kstate \<Rightarrow> nat \<Rightarrow> bool" where
  "runnable k i \<longleftrightarrow> p_state (the_proc k i) = P_RUNNABLE"

lemma poll_keyboard_idle: "keyboard_command c = No_action \<Longrightarrow> poll_keyboard c k = ret k"
  by (simp add: poll_keyboard_def check_keyboard_def)

lemma schedule_from_skip:
  assumes "\<And>n. keyboard_command (typed mc n) = No_action"
  shows "(\<forall>e<d. \<not> runnable k ((pid + 1 + e) mod NPROC)) \<Longrightarrow>
    schedule_from lm mc n pid k = schedule_from lm mc (n + d) ((pid + d) mod NPROC) k \<or> d = 0"
proof (induction d arbitrary: n pid)
  case (Suc d)
  have nr: "p_state (the_proc k ((pid + 1) mod NPROC)) \<noteq> P_RUNNABLE"
    using Suc.prems [rule_format, of 0] by (simp add: runnable_def)
  have step: "schedule_from lm mc n pid k = schedule_from lm mc (n + 1) ((pid + 1) mod NPROC) k"
    using nr assms by (subst schedule_from.simps) (simp add: Let_def poll_keyboard_idle)
  show ?case
  proof (cases "d = 0")
    case False
    have "\<forall>e<d. \<not> runnable k (((pid + 1) mod NPROC + 1 + e) mod NPROC)"
    proof (intro allI impI)
      fix e assume "e < d"
      then show "\<not> runnable k (((pid + 1) mod NPROC + 1 + e) mod NPROC)"
        using Suc.prems [rule_format, of "e + 1"] mod_add_left_eq [of "pid + 1" NPROC "1 + e"]
        by (simp only: add.assoc add_less_mono1 Suc_eq_plus1 simp_thms add.commute [of e 1])
    qed
    then show ?thesis
      using Suc.IH [of "(pid + 1) mod NPROC" "n + 1"] False step by (simp add: mod_simps add.commute add.left_commute)
  qed (use step in simp)
qed simp

lemma schedule_from_finds:
  assumes "\<And>n. keyboard_command (typed mc n) = No_action"
    and "\<forall>e<d. \<not> runnable k ((pid + 1 + e) mod NPROC)" and "runnable k ((pid + 1 + d) mod NPROC)"
  shows "schedule_from lm mc n pid k = run lm ((pid + 1 + d) mod NPROC) k"
proof -
  have base: "schedule_from lm mc n' q k = run lm ((q + 1) mod NPROC) k" if "runnable k ((q + 1) mod NPROC)" for n' q
    using that by (subst schedule_from.simps) (simp add: Let_def runnable_def)
  show ?thesis
    using schedule_from_skip [OF assms(1,2), of lm n] base [of "(pid + d) mod NPROC" "n + d"] base [of pid n] assms(3)
    by (auto simp: mod_simps add.commute add.left_commute)
qed

definition may_stop :: "machine \<Rightarrow> kstate \<Rightarrow> bool" where
  "may_stop mc k \<longleftrightarrow> (\<exists>i<NPROC. runnable k i) \<or> (\<exists>n. keyboard_command (typed mc n) \<noteq> No_action)"

lemma schedule_from_returns:
  assumes "schedule_from lm mc n pid k = Some r"
  shows "may_stop mc k"
proof (rule schedule_from.raw_induct [where P = "\<lambda>lm mc n pid k r. may_stop mc k", OF _ assms])
  fix f :: "link_map \<Rightarrow> machine \<Rightarrow> nat \<Rightarrow> nat \<Rightarrow> kstate \<Rightarrow> kstate outcome" and lm mc n pid k r
  assume IH: "\<And>lm mc n pid k r. f lm mc n pid k = Some r \<Longrightarrow> may_stop mc k"
    and body: "(let pid' = (pid + 1) mod NPROC
      in if p_state (the_proc k pid') = P_RUNNABLE then run lm pid' k
         else bindo (poll_keyboard (typed mc n) k) (\<lambda>k'. f lm mc (n + 1) pid' k')) = Some r"
  show "may_stop mc k"
  proof (cases "p_state (the_proc k ((pid + 1) mod NPROC)) = P_RUNNABLE \<or> keyboard_command (typed mc n) \<noteq> No_action")
    case True
    have "(pid + 1) mod NPROC < NPROC"
      by (simp add: NPROC_def)
    then show ?thesis
      using True unfolding may_stop_def runnable_def by blast
  next
    case False
    then have "f lm mc (n + 1) ((pid + 1) mod NPROC) k = Some r"
      using body by (simp add: Let_def poll_keyboard_idle)
    then show ?thesis
      by (rule IH)
  qed
qed

lemma candidate_exists:
  assumes "i < NPROC"
  shows "\<exists>d<NPROC. nth_candidate k d = i"
proof -
  define p where "p = (unat (p_pid (the_proc k (current k))) + 1) mod NPROC"
  let ?d = "(NPROC - p + i) mod NPROC"
  have p: "p < NPROC"
    by (simp add: NPROC_def p_def)
  have "(p + ?d) mod NPROC = (p + (NPROC - p + i)) mod NPROC"
    by (rule mod_add_right_eq)
  also have "\<dots> = i"
    using assms p by simp
  finally have "nth_candidate k ?d = i"
    unfolding nth_candidate_def p_def by (simp only: mod_add_left_eq)
  moreover have "?d < NPROC"
    by (simp add: NPROC_def)
  ultimately show ?thesis
    by blast
qed

text \<open>A kernel whose three processes have the given states; process 1 has just given up the processor.\<close>

definition kernel_with_states :: "procstate list \<Rightarrow> kstate" where
  "kernel_with_states ps = (kernel_with_break 0x200000)
     \<lparr>processes := map (\<lambda>(i, st). (proc_with_break 0x200000)\<lparr>p_pid := of_nat i, p_state := st\<rparr>) (enumerate 0 ps),
      current := 1\<rparr>"

definition silent_machine :: machine where
  "silent_machine = \<lparr>cr2 = 0, typed = (\<lambda>_. - 1), padding = (0, 0)\<rparr>"

text \<open>C29. While no control key is typed, \<open>schedule\<close> is round robin: it runs the first runnable process behind
  the current one in cyclic order, finds one within 16 steps if there is one, and otherwise never
  returns.\<close>

theorem schedule_round_robin:
  assumes "\<forall>n. keyboard_command (typed mc n) = No_action"
  shows "(\<forall>d. runnable k (nth_candidate k d) \<and> (\<forall>e<d. \<not> runnable k (nth_candidate k e)) \<longrightarrow>
      schedule lm mc k = run lm (nth_candidate k d) k) \<and>
    ((\<exists>i<NPROC. runnable k i) \<longrightarrow>
      (\<exists>d<NPROC. runnable k (nth_candidate k d) \<and> schedule lm mc k = run lm (nth_candidate k d) k)) \<and>
    ((\<forall>i<NPROC. \<not> runnable k i) \<longrightarrow> schedule lm mc k = None)"
proof -
  have first: "schedule lm mc k = run lm (nth_candidate k d) k"
    if "runnable k (nth_candidate k d)" "\<forall>e<d. \<not> runnable k (nth_candidate k e)" for d
    using schedule_from_finds [of mc d k "unat (p_pid (the_proc k (current k)))"] assms that
    unfolding schedule_def nth_candidate_def by blast
  have some: "\<exists>d<NPROC. runnable k (nth_candidate k d) \<and> schedule lm mc k = run lm (nth_candidate k d) k"
    if "\<exists>i<NPROC. runnable k i"
  proof -
    from that candidate_exists obtain c where c: "c < NPROC" "runnable k (nth_candidate k c)"
      by metis
    let ?d = "LEAST d. runnable k (nth_candidate k d)"
    have "runnable k (nth_candidate k ?d)" "?d \<le> c" "\<forall>e<?d. \<not> runnable k (nth_candidate k e)"
      using LeastI [of "\<lambda>d. runnable k (nth_candidate k d)", OF c(2)] Least_le [of "\<lambda>d. runnable k (nth_candidate k d)", OF c(2)]
        not_less_Least by blast+
    then show ?thesis
      using first c(1) order_le_less_trans by blast
  qed
  have none: "schedule lm mc k = None" if "\<forall>i<NPROC. \<not> runnable k i"
  proof (rule ccontr)
    assume "schedule lm mc k \<noteq> None"
    then have "may_stop mc k"
      using schedule_from_returns unfolding schedule_def by blast
    then show False
      using that assms by (auto simp: may_stop_def)
  qed
  show ?thesis
    using first some none by blast
qed

theorem schedule_round_robin_witness:
  "schedule some_link_map silent_machine (kernel_with_states [P_RUNNABLE, P_FREE, P_BROKEN, P_RUNNABLE])
     = run some_link_map 3 (kernel_with_states [P_RUNNABLE, P_FREE, P_BROKEN, P_RUNNABLE])"
proof -
  let ?k = "kernel_with_states [P_RUNNABLE, P_FREE, P_BROKEN, P_RUNNABLE]"
  have idle: "\<forall>n. keyboard_command (typed silent_machine n) = No_action"
    by (simp add: silent_machine_def keyboard_command_def)
  have c: "nth_candidate ?k 0 = 2" "nth_candidate ?k 1 = 3"
    by (simp_all add: nth_candidate_def kernel_with_states_def the_proc_def NPROC_def)
  have "runnable ?k 3" "\<not> runnable ?k 2"
    by (simp_all add: runnable_def kernel_with_states_def the_proc_def)
  then have "runnable ?k (nth_candidate ?k 1)" "\<forall>e<1. \<not> runnable ?k (nth_candidate ?k e)"
    using c by simp_all
  then show ?thesis
    using schedule_round_robin [OF idle, of ?k some_link_map] c(2) by metis
qed

section \<open>Running a process\<close>

lemma owner_color_ok: "- 2 \<le> owner \<Longrightarrow> owner < 17 \<Longrightarrow> owner_color owner = ret (memstate_colors ! nat (owner + 2))"
  by (simp add: owner_color_def)

text \<open>\<open>run\<close> on a runnable process whose page table passes the checks of \<open>set_pagetable\<close> makes it the current
  process, loads its page table and resumes it with its saved registers; besides these the console
  is all that changes. On a process that is not runnable it is an assertion failure.\<close>

theorem run_resumes:
  assumes "- 2 \<le> sint (p_pid (the_proc k i))" and "sint (p_pid (the_proc k i)) < 17"
  shows "(runnable k i \<and> set_pagetable lm (kernel_pagetable k) (p_pagetable (the_proc k i)) (phys k) = ret pt \<longrightarrow>
      (\<exists>cells. run lm i k = ret (k\<lparr>current := i, console := cells, cr3 := p_pagetable (the_proc k i)\<rparr>) \<and>
        (length (console k) = CONSOLE_CELLS \<longrightarrow> length cells = CONSOLE_CELLS))) \<and>
    (\<not> runnable k i \<longrightarrow> run lm i k = fail Assert_fail)"
proof -
  let ?p = "the_proc k i"
  have "\<exists>cells. run lm i k = ret (k\<lparr>current := i, console := cells, cr3 := p_pagetable ?p\<rparr>) \<and>
        (length (console k) = CONSOLE_CELLS \<longrightarrow> length cells = CONSOLE_CELLS)"
    if r: "runnable k i" and pt: "set_pagetable lm (kernel_pagetable k) (p_pagetable ?p) (phys k) = ret pt"
  proof -
    have ptp: "pt = p_pagetable ?p"
      using pt by (auto simp: set_pagetable_def split: if_splits)
    define color where "color = memstate_colors ! nat (sint (p_pid ?p) + 2)"
    obtain cells where cells: "kprint (CPOS 24 79) (ucast color) [37, 100] [Va_word (scast (p_pid ?p))] (k\<lparr>current := i\<rparr>)
        = ret (k\<lparr>current := i, console := cells\<rparr>)" "length (console k) = CONSOLE_CELLS \<longrightarrow> length cells = CONSOLE_CELLS"
      using kprint_returns [of "[37, 100]" "[Va_word (scast (p_pid ?p))]" "CPOS 24 79" "ucast color" "k\<lparr>current := i\<rparr>"]
      by auto
    have "run lm i k = ret (k\<lparr>current := i, console := cells, cr3 := pt\<rparr>)"
      using r pt cells(1) assms by (simp add: run_def Let_def runnable_def assertion_def owner_color_ok color_def)
    then show ?thesis
      using cells(2) ptp by blast
  qed
  moreover have "run lm i k = fail Assert_fail" if "\<not> runnable k i"
    using that by (simp add: run_def runnable_def assertion_def)
  ultimately show ?thesis
    by blast
qed

text \<open>A kernel with one process, both on the page table that \<open>virtual_memory_init\<close> builds.\<close>

lemma identity_table_exists:
  "\<exists>m. pt_shape m 0x50000 \<and> (\<forall>a. unat a < 0x200000 \<longrightarrow>
     virtual_memory_lookup m 0x50000 a = \<lparr>vam_pn = PAGENUMBER a, vam_pa = a, vam_perm = 7\<rparr>) \<and>
     (\<forall>a. 0x200000 \<le> unat a \<and> unat a < 0x400000 \<longrightarrow> virtual_memory_lookup m 0x50000 a = unmapped)"
  using virtual_memory_init_maps [OF some_link_map_ok] unfolding unmapped_def
  by (simp add: some_link_map_def) blast

definition kernel_on_table :: "mem \<Rightarrow> kstate" where
  "kernel_on_table m = (kernel_with_table m 0x204000)\<lparr>kernel_pagetable := 0x50000\<rparr>"

theorem run_resumes_witness:
  "\<exists>m cells. run some_link_map 0 (kernel_on_table m)
     = ret ((kernel_on_table m)\<lparr>current := 0, console := cells, cr3 := 0x50000\<rparr>)"
proof -
  obtain m where m: "\<forall>a. unat a < 0x200000 \<longrightarrow>
     virtual_memory_lookup m 0x50000 a = \<lparr>vam_pn = PAGENUMBER a, vam_pa = a, vam_perm = 7\<rparr>"
    using identity_table_exists by blast
  have p: "the_proc (kernel_on_table m) 0 = (proc_with_break 0x204000)\<lparr>p_pagetable := 0x50000\<rparr>"
    by (simp add: kernel_on_table_def kernel_with_table_def the_proc_def)
  have "set_pagetable some_link_map 0x50000 0x50000 m = ret 0x50000"
    using m by (simp add: set_pagetable_def some_link_map_def PAGEOFFSET_def)
  then show ?thesis
    using run_resumes [of "kernel_on_table m" 0 some_link_map "0x50000"] p
    by (auto simp: runnable_def proc_with_break_def kernel_on_table_def kernel_with_table_def)
qed

end
