(* ===== verification/Kernel_Invariant.thy ===== *)
theory Kernel_Invariant
  imports Kernel_Properties
begin

text \<open>
  The kernel as a state machine: \<open>kernel\<close> starts it, a process changes memory and the console while it runs, and
  every interrupt is a step through \<open>exception\<close> of \<^verbatim>\<open>kernel/kernel.c\<close>. The invariant of the reachable states, and the saved
  registers of processes across a step. The functions of \<^verbatim>\<open>k-vm.o\<close> enter with the named assumptions
  \<open>kvm_frame\<close> and \<open>kvm_contexts\<close>.
\<close>

section \<open>What each part of a kernel entry may change\<close>

text \<open>The memory display: the console and the two static variables of \<open>memshow_virtual_animate\<close>.\<close>

definition display_frame :: "kstate \<Rightarrow> kstate \<Rightarrow> bool" where
  "display_frame k k' \<longleftrightarrow>
     (\<exists>cells t n. k' = k\<lparr>console := cells, last_ticks := t, showing := n\<rparr>) \<and>
     (length (console k) = CONSOLE_CELLS \<longrightarrow> length (console k') = CONSOLE_CELLS) \<and>
     (showing k < NPROC \<longrightarrow> showing k' < NPROC)"

lemma display_frameI:
  "length (console k) = CONSOLE_CELLS \<longrightarrow> length cells = CONSOLE_CELLS \<Longrightarrow> showing k < NPROC \<longrightarrow> n < NPROC \<Longrightarrow>
   display_frame k (k\<lparr>console := cells, last_ticks := t, showing := n\<rparr>)"
  by (auto simp: display_frame_def)

lemma display_frame_refl [simp]: "display_frame k k"
  using display_frameI [of k "console k" "showing k" "last_ticks k"] by simp

lemma display_frame_trans [trans]: "display_frame k k1 \<Longrightarrow> display_frame k1 k2 \<Longrightarrow> display_frame k k2"
  unfolding display_frame_def by fastforce

lemma kprint_frame: "kprint cpos color f args k = ret k' \<Longrightarrow> display_frame k k'"
  using kprint_ret [of cpos color f args k k'] display_frameI [of k _ "showing k" "last_ticks k"] by auto

lemma put_cell_frame: "display_frame k (put_cell i v k)"
  using display_frameI [of k "(console k)[i := v]" "showing k" "last_ticks k"] by (simp add: put_cell_def)

lemma run_all_frame:
  assumes "\<And>x k k'. f x k = ret k' \<Longrightarrow> display_frame k k'"
  shows "run_all f xs k = ret k' \<Longrightarrow> display_frame k k'"
proof (induction xs arbitrary: k)
  case (Cons x xs)
  then obtain k1 where "f x k = ret k1" "run_all f xs k1 = ret k'"
    by (auto simp: bindo_eq_ret)
  then show ?case
    using assms Cons.IH display_frame_trans by blast
qed simp

lemma memshow_physical_frame:
  assumes "memshow_physical lm k = ret k'"
  shows "display_frame k k'"
proof -
  let ?step = "\<lambda>n k. bindo (if n mod 64 = 0
      then kprint (CPOS (1 + n div 64) 3) 0x0F00 str_hex_label [Va_word (of_nat (4096 * n))] k else ret k) (\<lambda>k1.
      bindo (physical_color lm (pageinfo k1 ! n) n) (\<lambda>color.
        ret (put_cell (CPOS (1 + n div 64) (12 + n mod 64)) color k1)))"
  obtain k0 where k0: "kprint (CPOS 0 32) 0x0F00 str_physical [] k = ret k0" "run_all ?step [0..<NPAGES] k0 = ret k'"
    using assms unfolding memshow_physical_def bindo_eq_ret by blast
  have "display_frame k1 k2" if "?step n k1 = ret k2" for n k1 k2
    using that put_cell_frame display_frame_trans kprint_frame
    by (fastforce simp: bindo_eq_ret split: if_splits)
  then have "display_frame k0 k'"
    by (rule run_all_frame) (use k0(2) in auto)
  then show ?thesis
    using kprint_frame [OF k0(1)] display_frame_trans by blast
qed

lemma memshow_virtual_frame:
  assumes "memshow_virtual lm pt name k = ret k'"
  shows "display_frame k k'"
proof -
  let ?step = "\<lambda>n k. bindo (virtual_color lm k pt (of_nat (4096 * n))) (\<lambda>color.
      bindo (if n mod 64 = 0
             then kprint (CPOS (11 + n div 64) 3) 0x0F00 str_hex_label [Va_word (of_nat (4096 * n))] k
             else ret k) (\<lambda>k1.
        ret (put_cell (CPOS (11 + n div 64) (12 + n mod 64)) color k1)))"
  obtain k0 where k0: "kprint (CPOS 10 26) 0x0F00 str_virtual [Va_string name] k = ret k0"
      "run_all ?step [0..<768] k0 = ret k'"
    using assms unfolding memshow_virtual_def bindo_eq_ret by blast
  have "display_frame k1 k2" if "?step n k1 = ret k2" for n k1 k2
    using that put_cell_frame display_frame_trans kprint_frame
    by (fastforce simp: bindo_eq_ret split: if_splits)
  then have "display_frame k0 k'"
    by (rule run_all_frame) (use k0(2) in auto)
  then show ?thesis
    using kprint_frame [OF k0(1)] display_frame_trans by blast
qed

lemma memshow_virtual_animate_frame:
  assumes "memshow_virtual_animate lm k = ret k'"
  shows "display_frame k k'"
proof -
  define k1 where "k1 = (if last_ticks k = 0 \<or> ticks k - last_ticks k \<ge> 50
    then k\<lparr>last_ticks := ticks k, showing := showing k + 1\<rparr> else k)"
  define k2 where "k2 = k1\<lparr>showing := advance_showing k1 (showing k1) mod NPROC\<rparr>"
  have "k2 = k\<lparr>console := console k, last_ticks := last_ticks k1, showing := advance_showing k1 (showing k1) mod NPROC\<rparr>"
    by (simp add: k2_def k1_def)
  then have "display_frame k k2"
    using display_frameI [of k "console k" "advance_showing k1 (showing k1) mod NPROC" "last_ticks k1"]
    by (simp add: NPROC_def)
  moreover have "k' = k2 \<or> (\<exists>pt name. memshow_virtual lm pt name k2 = ret k')"
    using assms by (auto simp: memshow_virtual_animate_def Let_def k1_def [symmetric] k2_def [symmetric] bindo_eq_ret
        split: if_splits)
  ultimately show ?thesis
    using memshow_virtual_frame display_frame_trans by blast
qed

lemma poll_keyboard_ret: "poll_keyboard c k = ret k' \<Longrightarrow> k' = k"
  by (auto simp: poll_keyboard_def split: prod.splits keyboard_action.splits)


text \<open>Running a process: it becomes the current one, and its page table is loaded.\<close>

definition resumed :: "nat \<Rightarrow> kstate \<Rightarrow> kstate \<Rightarrow> bool" where
  "resumed i k k' \<longleftrightarrow> runnable k i \<and>
     (\<exists>cells. k' = k\<lparr>current := i, console := cells, cr3 := p_pagetable (the_proc k i)\<rparr> \<and>
       (length (console k) = CONSOLE_CELLS \<longrightarrow> length cells = CONSOLE_CELLS))"

lemma run_ret:
  assumes "run lm i k = ret k'"
  shows "resumed i k k'"
proof -
  obtain color k2 pt where r: "runnable k i"
    and k2: "kprint (CPOS 24 79) (ucast (color :: u16)) [37, 100] [Va_word (scast (p_pid (the_proc k i)))] (k\<lparr>current := i\<rparr>) = ret k2"
    and pt: "set_pagetable lm (kernel_pagetable k2) (p_pagetable (the_proc k i)) (phys k2) = ret pt"
    and k': "k' = k2\<lparr>cr3 := pt\<rparr>"
    using assms by (auto simp: run_def Let_def runnable_def bindo_eq_ret split: if_splits)
  have "pt = p_pagetable (the_proc k i)"
    using pt by (auto simp: set_pagetable_def split: if_splits)
  moreover obtain cells where "k2 = k\<lparr>current := i, console := cells\<rparr>"
    "length (console k) = CONSOLE_CELLS \<longrightarrow> length cells = CONSOLE_CELLS"
    using kprint_ret [OF k2] by auto
  ultimately show ?thesis
    using r k' by (auto simp: resumed_def)
qed

lemma schedule_from_ret:
  assumes "schedule_from lm mc n pid k = Some r"
  shows "\<forall>k'. r = Inr k' \<longrightarrow> (\<exists>i<NPROC. resumed i k k')"
proof (rule schedule_from.raw_induct [where P = "\<lambda>lm mc n pid k r. \<forall>k'. r = Inr k' \<longrightarrow> (\<exists>i<NPROC. resumed i k k')",
      OF _ assms], intro allI impI)
  fix f :: "link_map \<Rightarrow> machine \<Rightarrow> nat \<Rightarrow> nat \<Rightarrow> kstate \<Rightarrow> kstate outcome" and lm mc n pid k r k'
  assume IH: "\<And>lm mc n pid k r. f lm mc n pid k = Some r \<Longrightarrow> \<forall>k'. r = Inr k' \<longrightarrow> (\<exists>i<NPROC. resumed i k k')"
    and body: "(let pid' = (pid + 1) mod NPROC
      in if p_state (the_proc k pid') = P_RUNNABLE then run lm pid' k
         else bindo (poll_keyboard (typed mc n) k) (\<lambda>k'. f lm mc (n + 1) pid' k')) = Some r"
    and r: "r = Inr k'"
  show "\<exists>i<NPROC. resumed i k k'"
  proof (cases "p_state (the_proc k ((pid + 1) mod NPROC)) = P_RUNNABLE")
    case True
    then have "run lm ((pid + 1) mod NPROC) k = ret k'"
      using body r by (simp add: Let_def ret_def)
    moreover have "(pid + 1) mod NPROC < NPROC"
      by (simp add: NPROC_def)
    ultimately show ?thesis
      using run_ret by blast
  next
    case False
    then obtain k1 where "poll_keyboard (typed mc n) k = ret k1" "f lm mc (n + 1) ((pid + 1) mod NPROC) k1 = Some (Inr k')"
      using body unfolding r by (simp add: Let_def) (simp only: bindo_eq_ret ret_def [symmetric], blast)
    then show ?thesis
      using IH poll_keyboard_ret by blast
  qed
qed

lemma schedule_ret: "schedule lm mc k = ret k' \<Longrightarrow> \<exists>i<NPROC. resumed i k k'"
  using schedule_from_ret unfolding schedule_def ret_def by blast

section \<open>Assumptions on the functions of k-vm.o\<close>

text \<open>The heap of a process starts at \<open>original_break\<close> and never reaches the last page of its address space, unless it is
  empty.\<close>

definition break_inv :: "proc \<Rightarrow> bool" where
  "break_inv p \<longleftrightarrow> original_break p \<le> program_break p \<and>
     (program_break p = original_break p \<or> program_break p < MEMSIZE_VIRTUAL - PAGESIZE)"

text \<open>\<open>system_frame\<close>: memory, the owners of pages, the console and the descriptors may change, but no descriptor its
  process ID, and every process keeps a well-formed heap.\<close>

definition system_frame :: "kstate \<Rightarrow> kstate \<Rightarrow> bool" where
  "system_frame k k' \<longleftrightarrow>
     (\<exists>m pi ps cells. k' = k\<lparr>phys := m, pageinfo := pi, processes := ps, console := cells\<rparr>) \<and>
     length (pageinfo k') = length (pageinfo k) \<and> length (processes k') = length (processes k) \<and>
     length (console k') = length (console k) \<and>
     (\<forall>i<length (processes k). p_pid (the_proc k' i) = p_pid (the_proc k i) \<and>
        (break_inv (the_proc k i) \<longrightarrow> break_inv (the_proc k' i)))"

definition kvm_frame :: "kvm \<Rightarrow> bool" where
  "kvm_frame kv \<longleftrightarrow> (\<forall>k k' r.
     (\<forall>pid. palloc kv pid k = ret (r, k') \<longrightarrow> system_frame k k') \<and>
     (\<forall>pid. process_free kv pid k = ret k' \<longrightarrow> system_frame k k') \<and>
     (\<forall>pid r. process_config_tables kv pid k = ret (r, k') \<longrightarrow> system_frame k k') \<and>
     (\<forall>i n r. process_load kv i n k = ret (r, k') \<longrightarrow> system_frame k k') \<and>
     (\<forall>i. process_setup_stack kv i k = ret k' \<longrightarrow> system_frame k k') \<and>
     (\<forall>i r. process_fork kv i k = ret (r, k') \<longrightarrow> system_frame k k') \<and>
     (\<forall>i a r. process_page_alloc kv i a k = ret (r, k') \<longrightarrow> system_frame k k'))"

text \<open>The registers saved in a descriptor change only when the process starts or ends: \<open>palloc\<close> changes no descriptor,
  \<open>process_free\<close> and \<open>process_page_alloc\<close> start no process, and \<open>process_fork\<close> leaves the existing ones alone.\<close>

definition in_use :: "kstate \<Rightarrow> nat \<Rightarrow> bool" where
  "in_use k i \<longleftrightarrow> p_state (the_proc k i) \<noteq> P_FREE"

definition contexts_kept :: "kstate \<Rightarrow> kstate \<Rightarrow> bool" where
  "contexts_kept k k' \<longleftrightarrow> (\<forall>i<NPROC. in_use k' i \<longrightarrow> in_use k i \<and> p_registers (the_proc k' i) = p_registers (the_proc k i))"

definition contexts_extended :: "kstate \<Rightarrow> kstate \<Rightarrow> bool" where
  "contexts_extended k k' \<longleftrightarrow>
     (\<forall>i<NPROC. in_use k i \<and> in_use k' i \<longrightarrow> p_registers (the_proc k' i) = p_registers (the_proc k i))"

definition kvm_contexts :: "kvm \<Rightarrow> bool" where
  "kvm_contexts kv \<longleftrightarrow> (\<forall>k k' r.
     (\<forall>pid. palloc kv pid k = ret (r, k') \<longrightarrow> processes k' = processes k) \<and>
     (\<forall>pid. process_free kv pid k = ret k' \<longrightarrow> contexts_kept k k') \<and>
     (\<forall>i a r. process_page_alloc kv i a k = ret (r, k') \<longrightarrow> contexts_kept k k') \<and>
     (\<forall>i r. process_fork kv i k = ret (r, k') \<longrightarrow> contexts_extended k k'))"

section \<open>The invariant\<close>

definition tables_wf :: "kstate \<Rightarrow> bool" where
  "tables_wf k \<longleftrightarrow> length (processes k) = NPROC \<and> length (pageinfo k) = NPAGES \<and>
     length (console k) = CONSOLE_CELLS \<and> showing k < NPROC \<and>
     (\<forall>i<NPROC. p_pid (the_proc k i) = of_nat i \<and> break_inv (the_proc k i))"

definition kernel_wf :: "kstate \<Rightarrow> bool" where
  "kernel_wf k \<longleftrightarrow> tables_wf k \<and> current k < NPROC"

lemmas wf_defs = kernel_wf_def tables_wf_def

lemma kernel_wf_display: "kernel_wf k \<Longrightarrow> display_frame k k' \<Longrightarrow> kernel_wf k'"
  by (auto simp: wf_defs display_frame_def the_proc_def)

lemma tables_wf_system: "tables_wf k \<Longrightarrow> system_frame k k' \<Longrightarrow> tables_wf k'"
  by (auto simp: tables_wf_def system_frame_def)

lemma kernel_wf_system: "kernel_wf k \<Longrightarrow> system_frame k k' \<Longrightarrow> kernel_wf k'"
  using tables_wf_system [of k k'] by (auto simp: kernel_wf_def system_frame_def)

lemma tables_wf_resumed: "tables_wf k \<Longrightarrow> resumed i k k' \<Longrightarrow> i < NPROC \<Longrightarrow> kernel_wf k'"
  by (auto simp: wf_defs resumed_def the_proc_def)

lemma tables_wf_upd_proc:
  assumes "tables_wf k" and "p_pid (f (the_proc k i)) = p_pid (the_proc k i)"
    and "break_inv (the_proc k i) \<Longrightarrow> break_inv (f (the_proc k i))"
  shows "tables_wf (upd_proc i f k)"
proof (cases "i < NPROC")
  case True
  then show ?thesis
    using assms by (auto simp: tables_wf_def upd_proc_def the_proc_def nth_list_update)
next
  case False
  then have "(processes k)[i := f (processes k ! i)] = processes k"
    using assms(1) by (intro list_update_beyond) (simp add: tables_wf_def)
  then have "upd_proc i f k = k"
    by (simp add: upd_proc_def)
  then show ?thesis
    using assms(1) by simp
qed

lemma kernel_wf_upd_proc:
  "kernel_wf k \<Longrightarrow> p_pid (f (the_proc k i)) = p_pid (the_proc k i) \<Longrightarrow>
   (break_inv (the_proc k i) \<Longrightarrow> break_inv (f (the_proc k i))) \<Longrightarrow> kernel_wf (upd_proc i f k)"
  using tables_wf_upd_proc [of k f i] by (simp add: kernel_wf_def)

lemma drop_reference_ret: "drop_reference pn pi = ret pi' \<Longrightarrow> length pi' = length pi"
  by (auto simp: drop_reference_def Let_def split: if_splits)

lemma unmap_page_ret:
  assumes "unmap_page pt i (pi, m) = ret (pi', m')"
  shows "length pi' = length pi"
  using assms drop_reference_ret by (fastforce simp: unmap_page_def Let_def bindo_eq_ret split: if_splits)

lemma unmap_down_ret:
  assumes "unmap_down pt lowest i s = Some r"
  shows "\<forall>s'. r = Inr s' \<longrightarrow> length (fst s') = length (fst s)"
proof (rule unmap_down.raw_induct [where P = "\<lambda>pt lowest i s r. \<forall>s'. r = Inr s' \<longrightarrow> length (fst s') = length (fst s)",
      OF _ assms], intro allI impI)
  fix f :: "u64 \<Rightarrow> u64 \<Rightarrow> u64 \<Rightarrow> physical_pageinfo list \<times> mem \<Rightarrow> (physical_pageinfo list \<times> mem) outcome"
    and pt lowest i s r s'
  assume IH: "\<And>pt lowest i s r. f pt lowest i s = Some r \<Longrightarrow> \<forall>s'. r = Inr s' \<longrightarrow> length (fst s') = length (fst s)"
    and body: "(if i \<ge> lowest then bindo (unmap_page pt i s) (\<lambda>s'. f pt lowest (i - PAGESIZE) s') else ret s) = Some r"
    and r: "r = Inr s'"
  show "length (fst s') = length (fst s)"
  proof (cases "i \<ge> lowest")
    case True
    then obtain s1 where s1: "unmap_page pt i s = ret s1" "f pt lowest (i - PAGESIZE) s1 = Some (Inr s')"
      using body unfolding r by (simp only: if_True bindo_eq_ret ret_def [symmetric], blast)
    then have "length (fst s') = length (fst s1)"
      using IH by blast
    also have "\<dots> = length (fst s)"
      using s1(1) unmap_page_ret by (cases s; cases s1) auto
    finally show ?thesis .
  qed (use body r in \<open>simp add: ret_def\<close>)
qed

lemma sbrk_ret:
  assumes "sbrk i d k = ret (r, k')"
  shows "k' = k \<or> (\<exists>pi m b. k' = upd_proc i (\<lambda>p. p\<lparr>program_break := b\<rparr>) (k\<lparr>pageinfo := pi, phys := m\<rparr>) \<and>
    length pi = length (pageinfo k) \<and> original_break (the_proc k i) \<le> b \<and> b < MEMSIZE_VIRTUAL - PAGESIZE)"
proof (cases "program_break (the_proc k i) + d \<ge> MEMSIZE_VIRTUAL - PAGESIZE \<or>
    program_break (the_proc k i) + d < original_break (the_proc k i)")
  case False
  let ?p = "the_proc k i"
  obtain pi m where "(if sint d < 0
        then unmap_down (p_pagetable ?p) (ROUNDDOWN (program_break ?p + d) PAGESIZE) (ROUNDUP (program_break ?p) PAGESIZE)
               (pageinfo k, phys k)
        else ret (pageinfo k, phys k)) = ret (pi, m)"
    and k': "k' = upd_proc i (\<lambda>p. p\<lparr>program_break := program_break ?p + d\<rparr>) (k\<lparr>pageinfo := pi, phys := m\<rparr>)"
    using assms False unfolding sbrk_def Let_def bindo_eq_ret by (auto simp only: if_False bindo_eq_ret prod.case ret_inject prod.inject intro: that)
  then have "length pi = length (pageinfo k)"
    using unmap_down_ret [of "p_pagetable ?p" _ _ "(pageinfo k, phys k)" "Inr (pi, m)"]
    by (auto simp: ret_def split: if_splits)
  then show ?thesis
    using k' False unfolding not_le not_less de_Morgan_disj by blast
qed (use assms in \<open>auto simp: sbrk_def Let_def\<close>)

lemma sbrk_wf:
  assumes "sbrk i d k = ret (r, k')" and "kernel_wf k" and "i < NPROC"
  shows "kernel_wf k'" and "contexts_kept k k'" and "current k' = current k"
proof -
  have "kernel_wf k' \<and> contexts_kept k k' \<and> current k' = current k"
    using sbrk_ret [OF assms(1)]
  proof (elim disjE exE conjE)
    fix pi m b
    assume k': "k' = upd_proc i (\<lambda>p. p\<lparr>program_break := b\<rparr>) (k\<lparr>pageinfo := pi, phys := m\<rparr>)"
      and b: "length pi = length (pageinfo k)" "original_break (the_proc k i) \<le> b" "b < MEMSIZE_VIRTUAL - PAGESIZE"
    have "kernel_wf (k\<lparr>pageinfo := pi, phys := m\<rparr>)"
      using assms(2) b(1) by (simp add: wf_defs the_proc_def)
    then have "kernel_wf k'"
      unfolding k' using b(2,3) by (intro kernel_wf_upd_proc) (simp_all add: break_inv_def the_proc_def)
    moreover have "contexts_kept k k'"
      using assms(2,3) by (simp add: k' contexts_kept_def in_use_def upd_proc_def the_proc_def nth_list_update wf_defs)
    ultimately show ?thesis
      by (simp add: k')
  qed (use assms(2) in \<open>simp add: contexts_kept_def\<close>)
  then show "kernel_wf k'" and "contexts_kept k k'" and "current k' = current k"
    by auto
qed

lemma brk_ret: "brk i a k = ret (r, k') \<Longrightarrow> \<exists>d r'. sbrk i d k = ret (r', k')"
  by (auto simp: brk_def Let_def bindo_eq_ret split: if_splits)


section \<open>Kernel entries keep the invariant\<close>

lemma set_rax_wf: "kernel_wf k \<Longrightarrow> kernel_wf (set_rax v k)"
  unfolding set_rax_def by (rule kernel_wf_upd_proc) (simp_all add: break_inv_def)

lemma kernel_wf_phys: "kernel_wf k \<Longrightarrow> kernel_wf (k\<lparr>phys := m\<rparr>)"
  by (simp add: wf_defs the_proc_def)

lemma kernel_wf_current: "kernel_wf k \<Longrightarrow> current k < NPROC"
  by (simp add: wf_defs)

lemma syscall_mapping_cases: "\<exists>m. syscall_mapping mc i k = k\<lparr>phys := m\<rparr>"
proof -
  have "\<exists>m. k = k\<lparr>phys := m\<rparr>"
    by (rule exI [of _ "phys k"]) simp
  then show ?thesis
    by (auto simp: syscall_mapping_def Let_def)
qed

lemma syscall_mem_tog_wf:
  assumes "kernel_wf k"
  shows "kernel_wf (syscall_mem_tog i k)"
  using assms kernel_wf_upd_proc [of k "\<lambda>q. q\<lparr>display_status := (if display_status q = 0 then 1 else 0)\<rparr>" i]
  by (auto simp: syscall_mem_tog_def Let_def break_inv_def) (simp_all add: wf_defs the_proc_def)

lemma kvm_frameD:
  assumes "kvm_frame kv"
  shows "palloc kv pid k = ret (pa, k') \<Longrightarrow> system_frame k k'"
    and "process_free kv pid k = ret k' \<Longrightarrow> system_frame k k'"
    and "process_config_tables kv pid k = ret (r, k') \<Longrightarrow> system_frame k k'"
    and "process_load kv i n k = ret (r, k') \<Longrightarrow> system_frame k k'"
    and "process_setup_stack kv i k = ret k' \<Longrightarrow> system_frame k k'"
    and "process_fork kv i k = ret (r, k') \<Longrightarrow> system_frame k k'"
    and "process_page_alloc kv i a k = ret (r, k') \<Longrightarrow> system_frame k k'"
  using assms unfolding kvm_frame_def by blast+

lemma break_process_wf:
  assumes "kvm_frame kv" and "break_process kv k = ret k'" and "kernel_wf k"
  shows "kernel_wf k'"
proof -
  have "kernel_wf (upd_proc (current k) (\<lambda>p. p\<lparr>p_state := P_BROKEN\<rparr>) k)"
    using assms(3) by (rule kernel_wf_upd_proc) (simp_all add: break_inv_def)
  then show ?thesis
    using assms(2) kvm_frameD(2) [OF assms(1)] kernel_wf_system unfolding break_process_def syscall_exit_def by blast
qed

lemma page_fault_wf:
  assumes kv: "kvm_frame kv" and "page_fault kv mc reg k = ret k'" and wf: "kernel_wf k"
  shows "kernel_wf k'"
proof (cases "reg_err reg AND PFERR_PRESENT = 0 \<and> cr2 mc < program_break (the_proc k (current k)) \<and>
    cr2 mc \<ge> original_break (the_proc k (current k))")
  case True
  then obtain pa k1 where k1: "palloc kv (p_pid (the_proc k (current k))) k = ret (pa, k1)"
    and rest: "break_process kv k1 = ret k' \<or> (\<exists>m. break_process kv (k1\<lparr>phys := m\<rparr>) = ret k') \<or> (\<exists>m. k' = k1\<lparr>phys := m\<rparr>)"
    using assms(2) by (auto simp: page_fault_def Let_def bindo_eq_ret split: if_splits prod.splits)
  have "kernel_wf k1"
    using kernel_wf_system [OF wf kvm_frameD(1) [OF kv k1]] .
  then show ?thesis
    using rest break_process_wf [OF kv] kernel_wf_phys by blast
next
  case False
  then obtain k1 f args where "kprint (CPOS 24 0) 0x0C00 f args k = ret k1" "break_process kv k1 = ret k'"
    using assms(2) by (auto simp: page_fault_def Let_def bindo_eq_ret split: if_splits)
  then show ?thesis
    using kernel_wf_display [OF wf] kprint_frame break_process_wf [OF kv] by blast
qed

text \<open>The interrupts whose handler writes \<open>rax\<close>.\<close>

definition writes_rax :: "u64 \<Rightarrow> bool" where
  "writes_rax n \<longleftrightarrow> n \<in> {INT_SYS_GETPID, INT_SYS_FORK, INT_SYS_BRK, INT_SYS_SBRK}"

lemma dispatch_cases:
  assumes "dispatch kv mc reg k = ret (scheduled, k')"
  obtains
    (rax) v k1 where "writes_rax (reg_intno reg)" "k' = set_rax v k1"
      "k1 = k \<or> (\<exists>r. process_fork kv (current k) k = ret (r, k1)) \<or> (\<exists>a r. brk (current k) a k = ret (r, k1)) \<or>
       (\<exists>d r. sbrk (current k) d k = ret (r, k1))"
  | (other) "\<not> writes_rax (reg_intno reg)"
      "k' = k \<or> (\<exists>m. k' = k\<lparr>phys := m\<rparr>) \<or> (\<exists>t. k' = k\<lparr>ticks := t\<rparr>) \<or> k' = syscall_mem_tog (current k) k \<or>
       (\<exists>pid. process_free kv pid k = ret k') \<or> (\<exists>a r. process_page_alloc kv (current k) a k = ret (r, k')) \<or>
       page_fault kv mc reg k = ret k'"
proof -
  obtain m where m: "syscall_mapping mc (current k) k = k\<lparr>phys := m\<rparr>"
    using syscall_mapping_cases by blast
  note d = assms [unfolded dispatch_def Let_def syscall_fork_def syscall_exit_def syscall_page_alloc_def m int_defs]
  show ?thesis
  proof (cases "writes_rax (reg_intno reg)")
    case True
    then have "\<exists>v k1. k' = set_rax v k1 \<and> (k1 = k \<or> (\<exists>r. process_fork kv (current k) k = ret (r, k1)) \<or>
       (\<exists>a r. brk (current k) a k = ret (r, k1)) \<or> (\<exists>d r. sbrk (current k) d k = ret (r, k1)))"
      using d unfolding writes_rax_def int_defs
      by (elim insertE emptyE) (simp_all add: bindo_eq_ret split_paired_Ex, blast+)
    then show ?thesis
      using True by (elim exE conjE) (rule rax)
  next
    case False
    then have n: "reg_intno reg \<noteq> 49" "reg_intno reg \<noteq> 52" "reg_intno reg \<noteq> 57" "reg_intno reg \<noteq> 58"
      by (simp_all add: writes_rax_def int_defs)
    show ?thesis
    proof (rule other [OF False])
      show "k' = k \<or> (\<exists>m. k' = k\<lparr>phys := m\<rparr>) \<or> (\<exists>t. k' = k\<lparr>ticks := t\<rparr>) \<or> k' = syscall_mem_tog (current k) k \<or>
        (\<exists>pid. process_free kv pid k = ret k') \<or> (\<exists>a r. process_page_alloc kv (current k) a k = ret (r, k')) \<or>
        page_fault kv mc reg k = ret k'"
        using d unfolding if_not_P [OF n(1)] if_not_P [OF n(2)] if_not_P [OF n(3)] if_not_P [OF n(4)]
        by (simp add: bindo_eq_ret split_paired_Ex split: if_split_asm) (blast+)?
    qed
  qed
qed

lemma dispatch_wf:
  assumes kv: "kvm_frame kv" and d: "dispatch kv mc reg k = ret (scheduled, k')" and wf: "kernel_wf k"
  shows "kernel_wf k'"
  using d
proof (cases rule: dispatch_cases)
  case (rax v k1)
  have "kernel_wf k1"
    using rax(3) wf kernel_wf_system [OF wf kvm_frameD(6) [OF kv]] brk_ret sbrk_wf(1) [OF _ wf kernel_wf_current [OF wf]]
    by blast
  then show ?thesis
    unfolding rax(2) by (rule set_rax_wf)
next
  case other
  have "kernel_wf (k\<lparr>ticks := t\<rparr>)" for t
    using wf by (simp add: wf_defs the_proc_def)
  then show ?thesis
    using other(2) wf kernel_wf_phys [OF wf] syscall_mem_tog_wf [OF wf] page_fault_wf [OF kv _ wf]
      kernel_wf_system [OF wf kvm_frameD(2) [OF kv]] kernel_wf_system [OF wf kvm_frameD(7) [OF kv]] by blast
qed

text \<open>The parts of a kernel entry.\<close>

definition entered :: "u64 \<Rightarrow> x86_64_registers \<Rightarrow> kstate \<Rightarrow> kstate" where
  "entered pt reg k = (upd_proc (current k) (\<lambda>p. p\<lparr>p_registers := reg\<rparr>) k)
     \<lparr>cr3 := pt, hw := console_show_cursor (cursorpos k) (hw k)\<rparr>"

lemma cursorpos_upd_proc: "cursorpos (upd_proc i f k) = cursorpos k"
  by (simp add: upd_proc_def)

lemma exception_parts:
  assumes "exception lm kv mc reg k = ret k'"
  obtains pt k1 scheduled k2 i where "display_frame (entered pt reg k) k1"
    and "dispatch kv mc reg k1 = ret (scheduled, k2)" and "resumed i k2 k'" and "i < NPROC \<or> i = current k2"
    and "\<not> scheduled \<and> runnable k2 (current k2) \<longrightarrow> i = current k2"
proof -
  obtain pt k1 k3 x where
    shown: "(if reg_intno reg \<noteq> INT_PAGEFAULT \<and> reg_intno reg \<noteq> INT_GPF \<or> reg_err reg AND PFERR_USER \<noteq> 0
       then bindo (check_virtual_memory lm (entered pt reg k)) (\<lambda>_.
              if disp_global (entered pt reg k) \<noteq> 0
              then bindo (memshow_physical lm (entered pt reg k)) (memshow_virtual_animate lm)
              else ret (entered pt reg k))
       else ret (entered pt reg k)) = ret k1"
    and poll: "poll_keyboard (typed mc 0) k1 = ret k3" and d: "dispatch kv mc reg k3 = ret x"
    and last: "(case x of (scheduled, k5) \<Rightarrow> if \<not> scheduled \<and> p_state (the_proc k5 (current k5)) = P_RUNNABLE
       then run lm (current k5) k5 else schedule lm mc k5) = ret k'"
    using assms unfolding exception_def Let_def bindo_eq_ret entered_def upd_proc_sel cursorpos_upd_proc by blast
  obtain scheduled k2 where x: "x = (scheduled, k2)"
    by (cases x)
  have "k1 = entered pt reg k \<or>
      (\<exists>k0. memshow_physical lm (entered pt reg k) = ret k0 \<and> memshow_virtual_animate lm k0 = ret k1)"
    using shown by (auto simp only: bindo_eq_ret ret_inject split: if_splits)
  then have "display_frame (entered pt reg k) k1"
    using memshow_physical_frame memshow_virtual_animate_frame display_frame_trans display_frame_refl by blast
  moreover have "\<not> scheduled \<and> runnable k2 (current k2) \<and> run lm (current k2) k2 = ret k' \<or>
      \<not> (\<not> scheduled \<and> runnable k2 (current k2)) \<and> schedule lm mc k2 = ret k'"
    using last unfolding x runnable_def by (auto split: if_splits)
  then obtain i where "resumed i k2 k'" "i < NPROC \<or> i = current k2" "\<not> scheduled \<and> runnable k2 (current k2) \<longrightarrow> i = current k2"
    using run_ret schedule_ret by blast
  ultimately show ?thesis
    using d poll_keyboard_ret [OF poll] that unfolding x by blast
qed

definition user_running :: "kstate \<Rightarrow> bool" where
  "user_running k \<longleftrightarrow> kernel_wf k \<and> runnable k (current k) \<and> cr3 k = p_pagetable (the_proc k (current k))"

lemma resumed_running: "tables_wf k \<Longrightarrow> resumed i k k' \<Longrightarrow> i < NPROC \<Longrightarrow> user_running k'"
  using tables_wf_resumed [of k i k'] by (auto simp: user_running_def resumed_def runnable_def the_proc_def)

lemma entered_wf:
  assumes "kernel_wf k"
  shows "kernel_wf (entered pt reg k)"
proof -
  have "kernel_wf (upd_proc (current k) (\<lambda>p. p\<lparr>p_registers := reg\<rparr>) k)"
    using assms by (rule kernel_wf_upd_proc) (simp_all add: break_inv_def)
  then show ?thesis
    by (simp add: entered_def wf_defs the_proc_def)
qed

lemma exception_running:
  assumes kv: "kvm_frame kv" and "exception lm kv mc reg k = ret k'" and wf: "kernel_wf k"
  shows "user_running k'"
proof -
  obtain pt k1 scheduled k2 i where e: "display_frame (entered pt reg k) k1"
    "dispatch kv mc reg k1 = ret (scheduled, k2)" "resumed i k2 k'" "i < NPROC \<or> i = current k2"
    using exception_parts [OF assms(2)] .
  have "kernel_wf k2"
    using kernel_wf_display [OF entered_wf [OF wf] e(1)] dispatch_wf [OF kv e(2)] by blast
  then show ?thesis
    using resumed_running [OF _ e(3)] e(4) by (auto simp: kernel_wf_def)
qed

section \<open>Starting the kernel\<close>

text \<open>The static variables of the kernel before \<open>kernel\<close> runs: the arrays have their sizes, and \<open>showing\<close> is a process
  number. It is 1 in a kernel that was just loaded; a soft reboot keeps the last value.\<close>

definition boot_state :: "kstate \<Rightarrow> bool" where
  "boot_state k \<longleftrightarrow> length (pageinfo k) = NPAGES \<and> length (console k) = CONSOLE_CELLS \<and> showing k < NPROC"

lemma length_pageinfo_init_from [simp]: "length (pageinfo_init_from kend a pi) = length pi"
  by (induction kend a pi rule: pageinfo_init_from.induct) (subst pageinfo_init_from.simps, simp add: Let_def)

lemma length_console_clear_from [simp]: "length (console_clear_from i cells) = length cells"
  by (induction i cells rule: console_clear_from.induct) (subst console_clear_from.simps, simp)

lemma process_setup_wf:
  assumes kv: "kvm_frame kv" and "process_setup kv pid n k = ret k'" and wf: "tables_wf k"
  shows "tables_wf k'"
proof -
  let ?k1 = "upd_proc pid (process_init 0) k"
  obtain r2 k2 r3 k3 k4 where k2: "process_config_tables kv (of_nat pid) ?k1 = ret (r2, k2)"
    and k3: "process_load kv pid n k2 = ret (r3, k3)" and k4: "process_setup_stack kv pid k3 = ret k4"
    and k': "k' = upd_proc pid (\<lambda>p. p\<lparr>p_state := P_RUNNABLE\<rparr>) k4"
    using assms(2) by (auto simp: process_setup_def Let_def bindo_eq_ret split: if_splits)
  have "tables_wf ?k1"
    using wf by (rule tables_wf_upd_proc) (simp_all add: process_init_def Let_def break_inv_def)
  then have "tables_wf k4"
    using tables_wf_system kvm_frameD(3) [OF kv k2] kvm_frameD(4) [OF kv k3] kvm_frameD(5) [OF kv k4] by blast
  then show ?thesis
    unfolding k' by (rule tables_wf_upd_proc) (simp_all add: break_inv_def)
qed

lemma process_setups_wf:
  assumes "kvm_frame kv"
  shows "run_all (\<lambda>(pid, n). process_setup kv pid n) ps k = ret k' \<Longrightarrow> tables_wf k \<Longrightarrow> tables_wf k'"
proof (induction ps arbitrary: k)
  case (Cons p ps)
  then show ?case
    using process_setup_wf [OF assms] by (cases p) (auto simp: bindo_eq_ret)
qed simp

lemma kernel_starts:
  assumes kv: "kvm_frame kv" and "boot_state k0" and "kernel lm hs kv command k0 = ret k"
  shows "user_running k"
proof -
  obtain h m pt cpos k1 where
    k1: "run_all (\<lambda>(pid, n). process_setup kv pid n) (boot_programs command)
       (k0\<lparr>phys := m, cr3 := pt, kernel_pagetable := kernel_pagetables lm,
          pageinfo := pageinfo_init (kernel_end lm) (pageinfo k0), console := console_clear_from 0 (console k0),
          cursorpos := cpos, hw := h, processes := map free_proc [0..<NPROC]\<rparr>) = ret k1" (is "run_all _ _ ?k = _")
    and run: "run lm 1 k1 = ret k"
    using assms(3) by (auto simp: kernel_def hardware_init_def Let_def bindo_eq_ret console_clear_def split: prod.splits)
  have "tables_wf ?k"
    using assms(2) by (simp add: tables_wf_def boot_state_def pageinfo_init_def the_proc_def free_proc_def break_inv_def NPROC_def)
  then have "tables_wf k1"
    using process_setups_wf [OF kv k1] by blast
  then show ?thesis
    using resumed_running [OF _ run_ret [OF run]] by (simp add: NPROC_def)
qed


section \<open>Reachable states\<close>

text \<open>What a process can do while it runs: change its memory, the console and the cursor position, which are mapped into
  every address space. Any change of memory is allowed here.\<close>

definition user_step :: "kstate \<Rightarrow> kstate \<Rightarrow> bool" where
  "user_step k k' \<longleftrightarrow> (\<exists>m cells cpos. k' = k\<lparr>phys := m, console := cells, cursorpos := cpos\<rparr> \<and>
     length cells = length (console k))"

text \<open>The states in which processes run, from the start of the kernel through any number of interrupts.\<close>

inductive reachable :: "link_map \<Rightarrow> hw_symbols \<Rightarrow> kvm \<Rightarrow> kstate \<Rightarrow> bool" for lm hs kv where
  booted: "boot_state k0 \<Longrightarrow> kernel lm hs kv command k0 = ret k \<Longrightarrow> reachable lm hs kv k"
| interrupted: "reachable lm hs kv k \<Longrightarrow> user_step k k1 \<Longrightarrow> exception lm kv mc reg k1 = ret k2 \<Longrightarrow>
    reachable lm hs kv k2"

lemma user_step_wf: "kernel_wf k \<Longrightarrow> user_step k k' \<Longrightarrow> kernel_wf k'"
  by (auto simp: wf_defs user_step_def the_proc_def)

text \<open>C13. In every state the kernel returns to user mode in, whatever the processes did before, the tables of the
  kernel are well formed (16 descriptors with their own process IDs, 512 pages, a console of 2000 cells, every heap inside its
  bounds), the current process is runnable, and its page table is loaded.\<close>

theorem reachable_running:
  assumes "kvm_frame kv" and "reachable lm hs kv k"
  shows "user_running k"
  using assms(2)
proof (induction rule: reachable.induct)
  case (booted k0 command k)
  then show ?case
    using kernel_starts [OF assms(1)] by blast
next
  case (interrupted k k1 mc reg k2)
  then have "kernel_wf k1"
    using user_step_wf unfolding user_running_def by blast
  then show ?case
    using exception_running [OF assms(1)] interrupted.hyps by blast
qed

section \<open>Saved registers\<close>

text \<open>Every process that was in use before and is after has the registers it had, the current one \<open>reg\<close>.\<close>

definition saved :: "x86_64_registers \<Rightarrow> kstate \<Rightarrow> kstate \<Rightarrow> bool" where
  "saved reg k k' \<longleftrightarrow> (\<forall>i<NPROC. in_use k i \<and> in_use k' i \<longrightarrow>
     p_registers (the_proc k' i) = (if i = current k then reg else p_registers (the_proc k i)))"

lemma contexts_kept_refl [simp]: "contexts_kept k k"
  by (simp add: contexts_kept_def)

lemma contexts_kept_trans: "contexts_kept k k1 \<Longrightarrow> contexts_kept k1 k2 \<Longrightarrow> contexts_kept k k2"
  by (auto simp: contexts_kept_def)

lemma contexts_kept_processes: "processes k' = processes k \<Longrightarrow> contexts_kept k k'"
  by (simp add: contexts_kept_def in_use_def the_proc_def)

lemma kvm_contextsD:
  assumes "kvm_contexts kv"
  shows "palloc kv pid k = ret (pa, k') \<Longrightarrow> processes k' = processes k"
    and "process_free kv pid k = ret k' \<Longrightarrow> contexts_kept k k'"
    and "process_page_alloc kv i a k = ret (r, k') \<Longrightarrow> contexts_kept k k'"
    and "process_fork kv i k = ret (r, k') \<Longrightarrow> contexts_extended k k'"
  using assms unfolding kvm_contexts_def by blast+

lemma break_process_contexts:
  assumes kv: "kvm_contexts kv" and "break_process kv k = ret k'" and wf: "kernel_wf k"
    and run: "in_use k (current k)"
  shows "contexts_kept k k'"
proof -
  let ?k1 = "upd_proc (current k) (\<lambda>p. p\<lparr>p_state := P_BROKEN\<rparr>) k"
  have "contexts_kept k ?k1"
    using wf run by (auto simp: contexts_kept_def in_use_def upd_proc_def the_proc_def nth_list_update wf_defs)
  moreover have "contexts_kept ?k1 k'"
    using assms(2) kvm_contextsD(2) [OF kv] unfolding break_process_def syscall_exit_def by blast
  ultimately show ?thesis
    by (rule contexts_kept_trans)
qed


lemma page_fault_contexts:
  assumes kv: "kvm_contexts kv" "kvm_frame kv" and "page_fault kv mc reg k = ret k'" and wf: "kernel_wf k"
    and run: "in_use k (current k)"
  shows "contexts_kept k k'"
proof (cases "reg_err reg AND PFERR_PRESENT = 0 \<and> cr2 mc < program_break (the_proc k (current k)) \<and>
    cr2 mc \<ge> original_break (the_proc k (current k))")
  case True
  then obtain pa k1 where k1: "palloc kv (p_pid (the_proc k (current k))) k = ret (pa, k1)"
    and rest: "break_process kv k1 = ret k' \<or> (\<exists>m. break_process kv (k1\<lparr>phys := m\<rparr>) = ret k') \<or> (\<exists>m. k' = k1\<lparr>phys := m\<rparr>)"
    using assms(3) by (auto simp: page_fault_def Let_def bindo_eq_ret split: if_splits prod.splits)
  note fr = kvm_frameD(1) [OF kv(2) k1] and ps = kvm_contextsD(1) [OF kv(1) k1]
  have same: "in_use (k1\<lparr>phys := m\<rparr>) (current (k1\<lparr>phys := m\<rparr>))" "contexts_kept k (k1\<lparr>phys := m\<rparr>)" "kernel_wf (k1\<lparr>phys := m\<rparr>)" for m
    using run fr ps kernel_wf_phys [OF kernel_wf_system [OF wf fr]] contexts_kept_processes [of "k1\<lparr>phys := m\<rparr>" k]
    by (auto simp: system_frame_def in_use_def the_proc_def)
  have "k1 = k1\<lparr>phys := phys k1\<rparr>"
    by simp
  then obtain m where "break_process kv (k1\<lparr>phys := m\<rparr>) = ret k' \<or> k' = k1\<lparr>phys := m\<rparr>"
    using rest by metis
  then show ?thesis
    using same [of m] break_process_contexts [OF kv(1)] contexts_kept_trans by blast
next
  case False
  then obtain k1 f args where k1: "kprint (CPOS 24 0) 0x0C00 f args k = ret k1" "break_process kv k1 = ret k'"
    using assms(3) by (auto simp: page_fault_def Let_def bindo_eq_ret split: if_splits)
  then obtain cells where c: "k1 = k\<lparr>console := cells\<rparr>"
    using kprint_ret by blast
  have "contexts_kept k1 k'"
    using break_process_contexts [OF kv(1) k1(2)] kernel_wf_display [OF wf kprint_frame [OF k1(1)]] run
    by (simp add: c in_use_def the_proc_def)
  moreover have "contexts_kept k k1"
    by (rule contexts_kept_processes) (simp add: c)
  ultimately show ?thesis
    using contexts_kept_trans by blast
qed

lemma kept_saved: "contexts_kept k k' \<Longrightarrow> saved (p_registers (the_proc k (current k))) k k'"
  by (auto simp: contexts_kept_def saved_def)

lemma extended_saved: "contexts_extended k k' \<Longrightarrow> saved (p_registers (the_proc k (current k))) k k'"
  by (auto simp: contexts_extended_def saved_def)

lemma set_rax_saved:
  assumes "saved reg k k'" and "current k' = current k" and "in_use k (current k)" and "length (processes k') = NPROC"
  shows "saved (reg\<lparr>reg_rax := v\<rparr>) k (set_rax v k')"
  using assms by (auto simp: saved_def set_rax_def in_use_def upd_proc_def the_proc_def nth_list_update)

lemma syscall_mem_tog_contexts: "kernel_wf k \<Longrightarrow> i < NPROC \<Longrightarrow> contexts_kept k (syscall_mem_tog i k)"
  by (auto simp: syscall_mem_tog_def Let_def contexts_kept_def in_use_def upd_proc_def the_proc_def nth_list_update wf_defs)

lemma dispatch_saved:
  assumes kv: "kvm_contexts kv" "kvm_frame kv" and d: "dispatch kv mc reg k = ret (scheduled, k')" and wf: "kernel_wf k"
    and run: "in_use k (current k)"
  shows "\<exists>v. saved (if writes_rax (reg_intno reg) then (p_registers (the_proc k (current k)))\<lparr>reg_rax := v\<rparr>
    else p_registers (the_proc k (current k))) k k'"
  using d
proof (cases rule: dispatch_cases)
  case (rax v k1)
  have "saved (p_registers (the_proc k (current k))) k k1 \<and> current k1 = current k \<and> kernel_wf k1"
    using rax(3)
  proof (elim disjE exE)
    fix r assume f: "process_fork kv (current k) k = ret (r, k1)"
    show ?thesis
      using kvm_frameD(6) [OF kv(2) f] extended_saved [OF kvm_contextsD(4) [OF kv(1) f]] kernel_wf_system [OF wf]
      by (auto simp: system_frame_def)
  qed (use wf kept_saved brk_ret sbrk_wf [OF _ wf kernel_wf_current [OF wf]] in \<open>auto, blast+\<close>)
  then show ?thesis
    unfolding rax(2) using rax(1) set_rax_saved [of "p_registers (the_proc k (current k))" k k1 v] run by (auto simp: wf_defs)
next
  case other
  have "contexts_kept k (k\<lparr>phys := m\<rparr>)" "contexts_kept k (k\<lparr>ticks := t\<rparr>)" for m t
    by (simp_all add: contexts_kept_processes)
  then have "contexts_kept k k'"
    using other(2) contexts_kept_refl syscall_mem_tog_contexts [OF wf kernel_wf_current [OF wf]] page_fault_contexts [OF kv _ wf run] kvm_contextsD [OF kv(1)] by blast
  then show ?thesis
    using other(1) kept_saved by auto
qed

text \<open>A kernel entry and the switch to another process preserve the registers of processes: after \<open>exception\<close>, every
  process that is still in use has the registers it had when it was interrupted last. Those of the
  interrupted process are the ones it was interrupted with; only \<open>getpid\<close>, \<open>fork\<close>, \<open>brk\<close> and \<open>sbrk\<close> change
  them, and of these only the return value in \<open>rax\<close>.\<close>

theorem registers_restored:
  assumes kv: "kvm_frame kv" "kvm_contexts kv" and e: "exception lm kv mc reg k = ret k'" and run: "user_running k"
  shows "\<exists>v. saved (if writes_rax (reg_intno reg) then reg\<lparr>reg_rax := v\<rparr> else reg) k k'"
proof -
  have wf: "kernel_wf k" and cur: "in_use k (current k)"
    using run by (auto simp: user_running_def runnable_def in_use_def)
  obtain pt k1 scheduled k2 i where p: "display_frame (entered pt reg k) k1"
    "dispatch kv mc reg k1 = ret (scheduled, k2)" "resumed i k2 k'"
    using exception_parts [OF e] .
  let ?e = "entered pt reg k"
  have wf1: "kernel_wf k1"
    using kernel_wf_display [OF entered_wf [OF wf] p(1)] .
  have k1: "current k1 = current k" "\<And>i. in_use k1 i = in_use k i"
    "\<And>i. i < NPROC \<Longrightarrow> p_registers (the_proc k1 i) = (if i = current k then reg else p_registers (the_proc k i))"
    using p(1) wf by (auto simp: display_frame_def entered_def upd_proc_def the_proc_def in_use_def wf_defs nth_list_update split: if_splits)
  have k': "the_proc k' = the_proc k2"
    using p(3) by (auto simp: resumed_def the_proc_def)
  obtain v where "saved (if writes_rax (reg_intno reg) then (p_registers (the_proc k1 (current k1)))\<lparr>reg_rax := v\<rparr>
      else p_registers (the_proc k1 (current k1))) k1 k2"
    using dispatch_saved [OF kv(2,1) p(2) wf1] cur k1(1,2) by auto
  then show ?thesis
    using k1 k' kernel_wf_current [OF wf] by (intro exI [of _ v]) (auto simp: saved_def in_use_def)
qed


section \<open>An instance\<close>

text \<open>Simple functions in place of \<^verbatim>\<open>k-vm.o\<close>: no free page, every process on the page table of the kernel, and a heap of three
  pages.\<close>

definition idle_kvm :: kvm where
  "idle_kvm = \<lparr>palloc = (\<lambda>pid k. ret (0, k)),
     process_free = (\<lambda>pid k. ret (upd_proc (unat pid) (\<lambda>p. p\<lparr>p_state := P_FREE\<rparr>) k)),
     process_config_tables = (\<lambda>pid k. ret (0, upd_proc (unat pid) (\<lambda>p. p\<lparr>p_pagetable := kernel_pagetable k\<rparr>) k)),
     process_load = (\<lambda>i n k. ret (0, upd_proc i (\<lambda>p. p\<lparr>original_break := 0x200000, program_break := 0x203000\<rparr>) k)),
     process_setup_stack = (\<lambda>i k. ret k), process_fork = (\<lambda>i k. ret (- 1, k)),
     process_page_alloc = (\<lambda>i a k. ret (- 1, k))\<rparr>"

lemma the_proc_upd_any:
  "the_proc (upd_proc j f k) i = (if i = j \<and> j < length (processes k) then f (the_proc k j) else the_proc k i)"
  by (cases "j < length (processes k)") (simp_all add: the_proc_def upd_proc_def list_update_beyond)

lemma system_frame_upd_proc:
  assumes "\<And>p. p_pid (f p) = p_pid p" and "\<And>p. break_inv p \<Longrightarrow> break_inv (f p)"
  shows "system_frame k (upd_proc i f k)"
proof -
  have "k\<lparr>processes := ps\<rparr> = k\<lparr>phys := phys k, pageinfo := pageinfo k, processes := ps, console := console k\<rparr>" for ps
    by simp
  then have "\<exists>m pi ps cells. upd_proc i f k = k\<lparr>phys := m, pageinfo := pi, processes := ps, console := cells\<rparr>"
    unfolding upd_proc_def by metis
  then show ?thesis
    using assms unfolding system_frame_def by (simp add: the_proc_upd_any)
qed

lemma system_frame_refl [simp]: "system_frame k k"
  using system_frame_upd_proc [of "\<lambda>p. p" k 0] by (simp add: upd_proc_def)

lemma idle_kvm_frame: "kvm_frame idle_kvm"
  unfolding kvm_frame_def
  by (auto simp: idle_kvm_def intro!: system_frame_upd_proc) (simp_all add: break_inv_def MEMSIZE_VIRTUAL_def PAGESIZE_def)

lemma idle_kvm_contexts: "kvm_contexts idle_kvm"
  by (auto simp: kvm_contexts_def idle_kvm_def contexts_kept_def contexts_extended_def in_use_def the_proc_upd_any
      split: if_splits)

text \<open>The kernel before \<open>kernel\<close> runs.\<close>

definition cold_kernel :: kstate where
  "cold_kernel = (kernel_with_break 0)\<lparr>pageinfo := replicate 512 \<lparr>pg_owner = 0, refcount = 0\<rparr>,
     console := replicate 2000 0, disp_global := 0\<rparr>"

lemma cold_kernel_boot: "boot_state cold_kernel"
  by (simp add: boot_state_def cold_kernel_def kernel_with_break_def NPAGES_def NPROC_def CONSOLE_CELLS_def)

definition warm_proc :: proc where
  "warm_proc = (process_init 0 (free_proc 0))\<lparr>p_pagetable := 0x50000, original_break := 0x200000, program_break := 0x203000,
     p_state := P_RUNNABLE\<rparr>"

lemma cold_kernel_starts:
  "\<exists>k m. kernel some_link_map some_symbols idle_kvm (Some cmd_test2) cold_kernel = ret k \<and> current k = 1 \<and>
     phys k = m \<and> kernel_pagetable k = 0x50000 \<and> disp_global k = 0 \<and>
     the_proc k 1 = warm_proc\<lparr>p_pid := 1\<rparr> \<and> the_proc k 2 = warm_proc\<lparr>p_pid := 2\<rparr> \<and>
     set_pagetable some_link_map 0x50000 0x50000 m = ret 0x50000"
proof -
  obtain m where init: "virtual_memory_init some_link_map (phys cold_kernel) = ret (m, 0x50000)"
    and m: "\<forall>a. unat a < 0x200000 \<longrightarrow> virtual_memory_lookup m 0x50000 a = \<lparr>vam_pn = PAGENUMBER a, vam_pa = a, vam_perm = 7\<rparr>"
    using virtual_memory_init_maps [OF some_link_map_ok, of "phys cold_kernel"] by (auto simp: some_link_map_def)
  have sp: "set_pagetable some_link_map 0x50000 0x50000 m = ret 0x50000"
    using m by (simp add: set_pagetable_def some_link_map_def PAGEOFFSET_def)
  let ?k = "cold_kernel\<lparr>phys := m, cr3 := 0x50000, kernel_pagetable := 0x50000,
    pageinfo := pageinfo_init 0x60000 (pageinfo cold_kernel), console := console_clear_from 0 (console cold_kernel),
    cursorpos := 0, hw := timer_init 100 (interrupt_init (segments_init some_link_map some_symbols (hw cold_kernel))),
    processes := map free_proc [0..<NPROC]\<rparr>"
  let ?set_up = "\<lambda>i k. upd_proc i (\<lambda>p. p\<lparr>p_state := P_RUNNABLE\<rparr>)
    (upd_proc i (\<lambda>p. p\<lparr>original_break := 0x200000, program_break := 0x203000\<rparr>)
    (upd_proc i (\<lambda>p. p\<lparr>p_pagetable := 0x50000\<rparr>) (upd_proc i (process_init 0) k)))"
  have start: "kernel some_link_map some_symbols idle_kvm (Some cmd_test2) cold_kernel = run some_link_map 1 (?set_up 2 (?set_up 1 ?k))"
    using init
    by (simp add: kernel_def hardware_init_def console_clear_def some_link_map_def Let_def boot_programs_def cmd_defs
        process_setup_def idle_kvm_def)
  let ?k1 = "?set_up 2 (?set_up 1 ?k)"
  have ps: "length (processes ?k1) = 16" "the_proc ?k1 1 = warm_proc\<lparr>p_pid := 1\<rparr>" "the_proc ?k1 2 = warm_proc\<lparr>p_pid := 2\<rparr>"
    by (simp_all add: the_proc_def upd_proc_def NPROC_def warm_proc_def free_proc_def process_init_def nth_list_update del: upt_rec_numeral)
  have k1: "phys ?k1 = m" "kernel_pagetable ?k1 = 0x50000" "disp_global ?k1 = 0"
    by (simp_all add: cold_kernel_def)
  define k1 where "k1 = ?k1"
  have "runnable k1 1" "p_pid (the_proc k1 1) = 1" "p_pagetable (the_proc k1 1) = 0x50000"
    using ps(2) unfolding k1_def [symmetric] by (simp_all add: runnable_def warm_proc_def)
  then obtain cells where "run some_link_map 1 k1 = ret (k1\<lparr>current := 1, console := cells, cr3 := 0x50000\<rparr>)"
    using run_resumes [of k1 1 some_link_map "0x50000"] sp k1 unfolding k1_def [symmetric] by auto
  then show ?thesis
    using start ps k1 sp unfolding k1_def [symmetric]
    by (intro exI [of _ "k1\<lparr>current := 1, console := cells, cr3 := 0x50000\<rparr>"] exI [of _ m]) (simp add: the_proc_def)
qed

theorem reachable_running_witness:
  "\<exists>k. reachable some_link_map some_symbols idle_kvm k \<and> user_running k"
proof -
  obtain k where "kernel some_link_map some_symbols idle_kvm (Some cmd_test2) cold_kernel = ret k"
    using cold_kernel_starts by blast
  then have "reachable some_link_map some_symbols idle_kvm k"
    using reachable.booted [OF cold_kernel_boot] by blast
  then show ?thesis
    using reachable_running [OF idle_kvm_frame] by blast
qed

text \<open>Process 1 touches its heap, there is no free page, and process 2 runs on.\<close>

theorem registers_restored_witness:
  "\<exists>k k'. exception some_link_map idle_kvm (silent_machine\<lparr>cr2 := 0x200000\<rparr>) (zero_registers\<lparr>reg_intno := 14\<rparr>) k = ret k' \<and>
     current k = 1 \<and> current k' = 2 \<and> in_use k' 2 \<and> p_registers (the_proc k' 2) = p_registers (the_proc k 2)"
proof -
  let ?mc = "silent_machine\<lparr>cr2 := 0x200000\<rparr>" and ?reg = "zero_registers\<lparr>reg_intno := 14\<rparr>"
  obtain k where k: "kernel some_link_map some_symbols idle_kvm (Some cmd_test2) cold_kernel = ret k" "current k = 1"
    "kernel_pagetable k = 0x50000" "the_proc k 1 = warm_proc\<lparr>p_pid := 1\<rparr>" "the_proc k 2 = warm_proc\<lparr>p_pid := 2\<rparr>"
    "set_pagetable some_link_map 0x50000 0x50000 (phys k) = ret 0x50000"
    using cold_kernel_starts by blast
  have run: "user_running k"
    using kernel_starts [OF idle_kvm_frame cold_kernel_boot k(1)] .
  then have len: "length (processes k) = 16"
    by (simp add: user_running_def wf_defs NPROC_def)
  define e where "e = entered 0x50000 ?reg k"
  define k5 where "k5 = upd_proc 1 (\<lambda>p. p\<lparr>p_state := P_FREE\<rparr>) (upd_proc 1 (\<lambda>p. p\<lparr>p_state := P_BROKEN\<rparr>) e)"
  have e: "current e = 1" "the_proc e 1 = warm_proc\<lparr>p_pid := 1, p_registers := ?reg\<rparr>" "the_proc e 2 = warm_proc\<lparr>p_pid := 2\<rparr>"
    "length (processes e) = 16" "phys e = phys k" "kernel_pagetable e = 0x50000"
    using k(2-5) len by (simp_all add: e_def entered_def the_proc_def upd_proc_def nth_list_update)
  have k5: "current k5 = 1" "the_proc k5 1 = warm_proc\<lparr>p_pid := 1, p_registers := ?reg, p_state := P_FREE\<rparr>"
    "the_proc k5 2 = warm_proc\<lparr>p_pid := 2\<rparr>" "phys k5 = phys k" "kernel_pagetable k5 = 0x50000"
    using e by (simp_all add: k5_def the_proc_upd_any)
  have d: "dispatch idle_kvm ?mc ?reg e = ret (False, k5)"
    using e by (simp add: dispatch_def page_fault_def Let_def int_defs pferr_defs zero_registers_def idle_kvm_def
        break_process_def syscall_exit_def warm_proc_def k5_def the_proc_upd_any)
  have idle: "\<And>n. keyboard_command (typed ?mc n) = No_action"
    by (simp add: silent_machine_def keyboard_command_def)
  have poll: "poll_keyboard (typed silent_machine 0) s = ret s" for s
    by (rule poll_keyboard_idle) (simp add: silent_machine_def keyboard_command_def)
  have "exception some_link_map idle_kvm ?mc ?reg k = schedule some_link_map ?mc k5"
    using d k(3,6) k5(1,2)
    by (simp add: exception_def Let_def int_defs pferr_defs zero_registers_def poll e_def entered_def
        cursorpos_upd_proc)
  also have "\<dots> = run some_link_map 2 k5"
    using schedule_from_finds [OF idle, of 0 k5 1 some_link_map 1] k5(1-3)
    by (simp add: schedule_def runnable_def warm_proc_def NPROC_def numeral_2_eq_2)
  finally have x: "exception some_link_map idle_kvm ?mc ?reg k = run some_link_map 2 k5" .
  have "runnable k5 2" "p_pid (the_proc k5 2) = 2" "p_pagetable (the_proc k5 2) = 0x50000"
    using k5(3) by (simp_all add: runnable_def warm_proc_def)
  then obtain cells where r: "run some_link_map 2 k5 = ret (k5\<lparr>current := 2, console := cells, cr3 := 0x50000\<rparr>)" (is "_ = ret ?k'")
    using run_resumes [of k5 2 some_link_map "0x50000"] k(6) k5(4,5) by auto
  have "in_use ?k' 2" "in_use k 2"
    using k5(3) k(5) by (simp_all add: in_use_def the_proc_def warm_proc_def)
  moreover obtain v where "saved (if writes_rax (reg_intno ?reg) then ?reg\<lparr>reg_rax := v\<rparr> else ?reg) k ?k'"
    using registers_restored [OF idle_kvm_frame idle_kvm_contexts _ run, of some_link_map ?mc ?reg ?k'] x r by auto
  ultimately have "p_registers (the_proc ?k' 2) = p_registers (the_proc k 2)"
    using k(2) by (simp add: saved_def NPROC_def)
  then show ?thesis
    using x r k(2) \<open>in_use ?k' 2\<close> by (intro exI [of _ k] exI [of _ ?k']) simp
qed

end
