(* ===== verification/Page_Faults.thy ===== *)
theory Page_Faults
  imports Kernel_Properties
begin

text \<open>
  The page fault branch of \<open>exception\<close> in \<^verbatim>\<open>kernel/kernel.c\<close>: demand paging of the heap, and the end of
  processes that fault anywhere else. \<open>palloc\<close>, a function of \<^verbatim>\<open>k-vm.o\<close>, enters with the named
  assumption \<open>palloc_grants\<close>.
\<close>

lemma table_frame:
  assumes "pt_shape m pt" and "page_aligned pa"
    and "pa \<notin> {pt, table2 m pt, table3 m pt, table4 m pt 0, table4 m pt 1}"
    and "\<forall>x. \<not> in_page pa x \<longrightarrow> m' x = m x"
  shows "pt_shape m' pt" and "table4 m' pt 0 = table4 m pt 0" "table4 m' pt 1 = table4 m pt 1"
    and "q < 1024 \<Longrightarrow> pt_entry m' pt q = pt_entry m pt q"
    and "table2 m' pt = table2 m pt" "table3 m' pt = table3 m pt"
proof -
  have keep: "entry_at m' t i = entry_at m t i" if "page_aligned t" "t \<noteq> pa" "unat i < 512" for t i
  proof (rule entry_at_cong [OF that(1,3)])
    fix x assume "in_page t x"
    then have "\<not> in_page pa x"
      using pages_apart [OF that(1) assms(2) that(2)] by (auto simp: in_page_def)
    then show "m' x = m x"
      using assms(4) by blast
  qed
  have al: "page_aligned pt"
    using assms(1) by (simp add: pt_shape_def)
  have t2: "table2 m' pt = table2 m pt"
    using keep [OF al, of 0] assms(3) by (auto simp: table2_def)
  then have t3: "table3 m' pt = table3 m pt"
    using keep [of "table2 m pt" 0] assms(3) by (auto simp: table3_def)
  then have t4: "table4 m' pt 0 = table4 m pt 0" "table4 m' pt 1 = table4 m pt 1"
    using keep [of "table3 m pt" 0] keep [of "table3 m pt" 1] assms(3) by (auto simp: table4_def)
  show "table2 m' pt = table2 m pt" "table3 m' pt = table3 m pt" "table4 m' pt 0 = table4 m pt 0" "table4 m' pt 1 = table4 m pt 1"
    by (fact t2 t3 t4)+
  show "pt_shape m' pt"
    using assms(1,3) keep [OF al, of 0] keep [of "table2 m pt" 0] keep [of "table3 m pt" 0] keep [of "table3 m pt" 1]
    by (auto simp: pt_shape_def t2 t3 t4 [simplified])
  show "pt_entry m' pt q = pt_entry m pt q" if "q < 1024"
  proof -
    have "q div 512 = 0 \<or> q div 512 = 1"
      using that by (intro table4_index) simp
    moreover have "unat (of_nat (q mod 512) :: u64) < 512"
      by (simp add: unat_of_nat)
    ultimately show ?thesis
      using keep [of "table4 m pt (q div 512)" "of_nat (q mod 512)"] assms(3) t4 by (auto simp: pt_entry_def)
  qed
qed

lemma lookup_frame:
  assumes "pt_shape m pt" and "page_aligned pa"
    and "pa \<notin> {pt, table2 m pt, table3 m pt, table4 m pt 0, table4 m pt 1}"
    and "\<forall>x. \<not> in_page pa x \<longrightarrow> m' x = m x" and "unat a < 0x400000"
  shows "virtual_memory_lookup m' pt a = virtual_memory_lookup m pt a"
  using table_frame [OF assms(1-4)] assms(5)
  by (simp add: lookup_decode [OF assms(1,5)] lookup_decode [of m' pt a])

text \<open>What the page fault handler relies on when \<open>palloc\<close> returns an address: it is the address of a physical
  page that was free, now owned by the process; only that page and its \<open>pageinfo\<close> entry have changed.\<close>

definition palloc_grants :: "kvm \<Rightarrow> u32 \<Rightarrow> kstate \<Rightarrow> u64 \<Rightarrow> kstate \<Rightarrow> bool" where
  "palloc_grants kv pid k pa k1 \<longleftrightarrow>
     palloc kv pid k = ret (pa, k1) \<and> pa \<noteq> 0 \<and> page_aligned pa \<and> unat pa < 0x200000 \<and>
     refcount (pageinfo k ! (unat pa div 4096)) = 0 \<and>
     (\<forall>x. \<not> in_page pa x \<longrightarrow> phys k1 x = phys k x) \<and>
     k1 = k\<lparr>phys := phys k1, pageinfo := (pageinfo k)[unat pa div 4096 := \<lparr>pg_owner = ucast pid, refcount = 1\<rparr>]\<rparr>"

text \<open>The pages of a page table are allocated.\<close>

definition tables_in_use :: "kstate \<Rightarrow> u64 \<Rightarrow> bool" where
  "tables_in_use k pt \<longleftrightarrow>
     (\<forall>t \<in> {pt, table2 (phys k) pt, table3 (phys k) pt, table4 (phys k) pt 0, table4 (phys k) pt 1}.
        refcount (pageinfo k ! (unat t div 4096)) \<noteq> 0)"

lemma one_page_lookup:
  assumes shape: "pt_shape m pt" and va: "unat va = 4096 * v" and ok: "map_range_ok v pa 1 perm" and pa: "page_aligned pa"
    and run: "virtual_memory_map pt va pa PAGESIZE perm m = ret (0, m')" and present: "scast perm AND PTE_P \<noteq> 0" and a: "unat a < 0x400000"
  shows "virtual_memory_lookup m' pt a =
    (if unat a div 4096 = v then \<lparr>vam_pn = PAGENUMBER pa, vam_pa = pa + PAGEOFFSET a, vam_perm = perm\<rparr>
     else virtual_memory_lookup m pt a)"
proof -
  have sz: "unat PAGESIZE = 4096 * 1"
    by (simp add: PAGESIZE_def)
  note look = map_lookup [OF shape va sz ok pa run a]
  show ?thesis
  proof (cases "unat a div 4096 = v")
    case True
    then have "unat va \<le> unat a" "unat a < unat va + unat PAGESIZE"
      using same_page_iff [of v a] by (simp_all add: va sz)
    moreover have "a - va = PAGEOFFSET a"
      using page_split [OF va, of a] True calculation by simp
    moreover have "PAGENUMBER (pa + PAGEOFFSET a) = PAGENUMBER pa"
      unfolding PAGENUMBER_def by (subst drop_bit_page [OF pa]) (simp_all add: unat_PAGEOFFSET)
    ultimately show ?thesis
      using True present unfolding look by simp
  next
    case False
    then have "(unat va \<le> unat a \<and> unat a < unat va + unat PAGESIZE) = False"
      using same_page_iff [of v a] by (simp add: va sz)
    then show ?thesis
      using False unfolding look by (simp only: if_False)
  qed
qed

text \<open>Demand paging: a fault on a missing page between the original and the current program break is
  resolved when \<open>palloc\<close> grants a page. The handler returns, the faulting page is then mapped to the
  granted page, present, writable and user accessible, every other translation of the process is
  as before, and no byte outside the granted page and the level-4 tables has changed.\<close>

theorem page_fault_maps:
  assumes "p = the_proc k (current k)" and "reg_err reg AND PFERR_PRESENT = 0" and "break_ok k (current k)"
    and "original_break p \<le> cr2 mc" and "cr2 mc < program_break p"
    and "pt_shape (phys k) (p_pagetable p)" and "tables_in_use k (p_pagetable p)"
    and "palloc_grants kv (p_pid p) k pa k1"
  shows "\<exists>m'. page_fault kv mc reg k = ret (k1\<lparr>phys := m'\<rparr>) \<and> pt_shape m' (p_pagetable p) \<and>
    (\<forall>a. unat a < 0x400000 \<longrightarrow> virtual_memory_lookup m' (p_pagetable p) a =
       (if unat a div 4096 = unat (cr2 mc) div 4096
        then \<lparr>vam_pn = PAGENUMBER pa, vam_pa = pa + PAGEOFFSET a, vam_perm = 7\<rparr>
        else virtual_memory_lookup (phys k) (p_pagetable p) a)) \<and>
    (\<forall>x. \<not> in_page pa x \<and> \<not> in_page (table4 (phys k) (p_pagetable p) 0) x \<and>
         \<not> in_page (table4 (phys k) (p_pagetable p) 1) x \<longrightarrow> m' x = phys k x)"
proof -
  let ?pt = "p_pagetable p" and ?addr = "cr2 mc" and ?va = "ROUNDDOWN (cr2 mc) PAGESIZE"
  let ?v = "unat ?addr div 4096" and ?perm = "ucast (PTE_W OR PTE_P OR PTE_U) :: u32"
  have g: "palloc kv (p_pid p) k = ret (pa, k1)" "pa \<noteq> 0" "page_aligned pa" "unat pa < 0x200000"
    "refcount (pageinfo k ! (unat pa div 4096)) = 0" "\<forall>x. \<not> in_page pa x \<longrightarrow> phys k1 x = phys k x"
    "k1 = k\<lparr>phys := phys k1, pageinfo := (pageinfo k)[unat pa div 4096 := \<lparr>pg_owner = ucast (p_pid p), refcount = 1\<rparr>]\<rparr>"
    using assms(8) unfolding palloc_grants_def by blast+
  have pa: "pa \<notin> {?pt, table2 (phys k) ?pt, table3 (phys k) ?pt, table4 (phys k) ?pt 0, table4 (phys k) ?pt 1}"
    using assms(7) g(5) unfolding tables_in_use_def by blast
  note frame = table_frame [OF assms(6) g(3) pa g(6)]
  have "current k1 = current k" "processes k1 = processes k"
    by (subst g(7), simp)+
  then have cur: "the_proc k1 (current k1) = p"
    using assms(1) by (simp add: the_proc_def)
  have addr: "unat ?addr < 0x300000"
    using assms(1,3,5) by (simp add: break_ok_def word_less_nat_alt BREAK_LIMIT_def)
  have va: "unat ?va = 4096 * ?v" and sz: "unat PAGESIZE = 4096 * 1"
    by (simp_all add: unat_ROUNDDOWN PAGESIZE_def)
  have perm: "?perm = 7" "scast ?perm AND PTE_P \<noteq> 0"
    by (simp_all add: pte_bits)
  have ok: "map_range_ok ?v pa 1 ?perm"
    using addr g(3,4) by (auto simp: map_range_ok_def perm MEMSIZE_PHYSICAL_def page_aligned_iff)
  from virtual_memory_map_refines [OF frame(1) va sz ok] obtain m' where
    m': "virtual_memory_map ?pt ?va pa PAGESIZE ?perm (phys k1) = ret (0, m')" "pt_shape m' ?pt"
    "\<forall>x. \<not> in_page (table4 (phys k1) ?pt 0) x \<and> \<not> in_page (table4 (phys k1) ?pt 1) x \<longrightarrow> m' x = phys k1 x"
    by blast
  have run: "page_fault kv mc reg k = ret (k1\<lparr>phys := m'\<rparr>)"
    using assms(1,2,4,5) g(1,2) m'(1) cur by (simp add: page_fault_def Let_def)
  have look: "virtual_memory_lookup m' ?pt a =
       (if unat a div 4096 = ?v
        then \<lparr>vam_pn = PAGENUMBER pa, vam_pa = pa + PAGEOFFSET a, vam_perm = 7\<rparr>
        else virtual_memory_lookup (phys k) ?pt a)" if a: "unat a < 0x400000" for a
    using one_page_lookup [OF frame(1) va ok g(3) m'(1) perm(2) a] perm(1) lookup_frame [OF assms(6) g(3) pa g(6) a] by simp
  show ?thesis
    using run m'(2,3) look g(6) frame(2,3) by (intro exI [of _ m']) auto
qed

lemma str_fault_printed:
  "format_ok str_fault [Va_word a, Va_word b, Va_string s, Va_string t, Va_word c]"
  by (simp add: str_fault_def)


text \<open>A \<open>palloc\<close> that grants page \<open>n\<close>; the other functions are not called here.\<close>

definition granting_kvm :: "nat \<Rightarrow> kvm" where
  "granting_kvm n = \<lparr>palloc = (\<lambda>pid k. ret (of_nat (4096 * n),
       k\<lparr>pageinfo := (pageinfo k)[n := \<lparr>pg_owner = ucast pid, refcount = 1\<rparr>]\<rparr>)),
     process_free = (\<lambda>pid k. ret k), process_config_tables = (\<lambda>pid k. ret (0, k)),
     process_load = (\<lambda>i n k. ret (0, k)), process_setup_stack = (\<lambda>i k. ret k),
     process_fork = (\<lambda>i k. ret (- 1, k)), process_page_alloc = (\<lambda>i a k. ret (0, k))\<rparr>"

definition kernel_with_free_page :: "mem \<Rightarrow> nat \<Rightarrow> kstate" where
  "kernel_with_free_page m n = (kernel_on_table m)
     \<lparr>pageinfo := (replicate 512 \<lparr>pg_owner = 1, refcount = 1\<rparr>)[n := \<lparr>pg_owner = 0, refcount = 0\<rparr>]\<rparr>"

lemma page_outside:
  assumes "finite T" and "card T \<le> 5"
  shows "\<exists>n\<in>{1..6}. (of_nat (4096 * n) :: u64) \<notin> T"
proof (rule ccontr)
  let ?f = "\<lambda>n. of_nat (4096 * n) :: u64"
  assume "\<not> ?thesis"
  then have sub: "?f ` {1..6} \<subseteq> T"
    by auto
  have "inj_on ?f {1..6}"
  proof (rule inj_onI)
    fix i j :: nat assume "i \<in> {1..6}" "j \<in> {1..6}" "?f i = ?f j"
    then have "unat (?f i) = unat (?f j)" "i \<le> 6" "j \<le> 6"
      by auto
    then show "i = j"
      by (simp add: unat_of_nat del: of_nat_mult)
  qed
  then have "card (?f ` {1..6}) = 6"
    by (simp add: card_image)
  then show False
    using card_mono [OF assms(1) sub] assms(2) by simp
qed

lemma shape_pages:
  assumes "pt_shape m pt" and "t \<in> {table2 m pt, table3 m pt, table4 m pt 0, table4 m pt 1}"
  shows "unat t < 0x200000"
  using assms by (auto simp: pt_shape_def link_ok_def table2_def table3_def table4_def word_less_nat_alt MEMSIZE_PHYSICAL_def)

theorem page_fault_maps_witness:
  "\<exists>m n k'. page_fault (granting_kvm n) (silent_machine\<lparr>cr2 := 0x203456\<rparr>) (some_registers\<lparr>reg_err := 6\<rparr>)
       (kernel_with_free_page m n) = ret k' \<and>
     vam_perm (virtual_memory_lookup (phys k') 0x50000 0x203456) = 7"
proof -
  obtain m where m: "pt_shape m 0x50000"
    using identity_table_exists by blast
  let ?T = "{0x50000, table2 m 0x50000, table3 m 0x50000, table4 m 0x50000 0, table4 m 0x50000 1}"
  obtain n where n: "n \<in> {1..6}" "(of_nat (4096 * n) :: u64) \<notin> ?T"
    using page_outside [of ?T] card_length [of "[0x50000, table2 m 0x50000, table3 m 0x50000, table4 m 0x50000 0, table4 m 0x50000 1]"]
    by auto
  have un: "unat (of_nat (4096 * n) :: u64) = 4096 * n"
    using n(1) by (simp add: unat_of_nat del: of_nat_mult)
  let ?k = "kernel_with_free_page m n" and ?mc = "silent_machine\<lparr>cr2 := 0x203456\<rparr>" and ?reg = "some_registers\<lparr>reg_err := 6\<rparr>"
  let ?k1 = "?k\<lparr>pageinfo := (pageinfo ?k)[n := \<lparr>pg_owner = 1, refcount = 1\<rparr>]\<rparr>"
  have k: "the_proc ?k (current ?k) = (proc_with_break 0x204000)\<lparr>p_pagetable := 0x50000\<rparr>" "phys ?k = m"
    by (simp_all add: kernel_with_free_page_def kernel_on_table_def kernel_with_table_def kernel_with_break_def the_proc_def)
  have used: "refcount (pageinfo ?k ! (unat t div 4096)) \<noteq> 0" if "t \<in> ?T" for t
  proof -
    from that consider "t = 0x50000" | "t \<in> {table2 m 0x50000, table3 m 0x50000, table4 m 0x50000 0, table4 m 0x50000 1}"
      by blast
    then have "page_aligned t \<and> unat t < 0x200000"
    proof cases
      case 2
      then show ?thesis
        using shape_pages [OF m 2] by auto
    qed (simp add: page_aligned_iff)
    then have "unat t div 4096 < 512" "unat t div 4096 \<noteq> n"
      using that n(2) un by (auto simp: page_aligned_iff word_unat_eq_iff simp del: of_nat_mult)
    then show ?thesis
      by (simp add: kernel_with_free_page_def nth_list_update)
  qed
  let ?p = "(proc_with_break 0x204000)\<lparr>p_pagetable := 0x50000\<rparr>"
  have p: "p_pagetable ?p = 0x50000" "p_pid ?p = 1" "original_break ?p \<le> cr2 ?mc" "cr2 ?mc < program_break ?p"
    by (simp_all add: proc_with_break_def)
  have grants: "palloc_grants (granting_kvm n) (p_pid ?p) ?k (of_nat (4096 * n)) ?k1"
    using n(1) un unfolding palloc_grants_def p
    by (auto simp: granting_kvm_def page_aligned_iff unat_eq_0 [symmetric] kernel_with_free_page_def simp del: of_nat_mult)
  have brk: "break_ok ?k (current ?k)"
    unfolding break_ok_def k
    by (simp add: kernel_with_free_page_def kernel_on_table_def kernel_with_table_def kernel_with_break_def
        proc_with_break_def MEMSIZE_VIRTUAL_def PAGESIZE_def)
  have err: "reg_err ?reg AND PFERR_PRESENT = 0"
    by (simp add: PFERR_PRESENT_def)
  have sh: "pt_shape (phys ?k) (p_pagetable ?p)" and use: "tables_in_use ?k (p_pagetable ?p)"
    using m used unfolding tables_in_use_def k p by blast+
  from page_fault_maps [OF k(1) [symmetric] err brk p(3,4) sh use grants] obtain m' where
    "page_fault (granting_kvm n) ?mc ?reg ?k = ret (?k1\<lparr>phys := m'\<rparr>)"
    "\<forall>a. unat a < 0x400000 \<longrightarrow> virtual_memory_lookup m' 0x50000 a =
       (if unat a div 4096 = unat (cr2 ?mc) div 4096
        then \<lparr>vam_pn = PAGENUMBER (of_nat (4096 * n)), vam_pa = of_nat (4096 * n) + PAGEOFFSET a, vam_perm = 7\<rparr>
        else virtual_memory_lookup (phys ?k) 0x50000 a)"
    unfolding p(1) by blast
  then show ?thesis
    by (intro exI [of _ m] exI [of _ n]) auto
qed



end
