(* ===== verification/Trap_Properties.thy ===== *)
theory Trap_Properties
  imports Trap_Entry Kernel_Invariant Page_Faults
begin

text \<open>
  The theorems about kernel entries down to the processor: the gates that \<open>segments_init\<close> has set stay in place in all
  reachable states, an interrupt saves exactly the registers of the process, a process resumes with them however long it
  had to wait, the frame that \<open>default_int_handler\<close> leaves is shifted, and a soft reboot delivers its command.
\<close>

section \<open>The gates stay in place\<close>

lemma system_frame_hw: "system_frame k k' \<Longrightarrow> hw k' = hw k"
  by (auto simp: system_frame_def)

lemma break_process_hw: "kvm_frame kv \<Longrightarrow> break_process kv k = ret k' \<Longrightarrow> hw k' = hw k"
  using kvm_frameD(2) system_frame_hw unfolding break_process_def syscall_exit_def by fastforce

lemma page_fault_hw:
  assumes kv: "kvm_frame kv" and "page_fault kv mc reg k = ret k'"
  shows "hw k' = hw k"
proof (cases "reg_err reg AND PFERR_PRESENT = 0 \<and> cr2 mc < program_break (the_proc k (current k)) \<and>
    cr2 mc \<ge> original_break (the_proc k (current k))")
  case True
  then obtain pa k1 where k1: "palloc kv (p_pid (the_proc k (current k))) k = ret (pa, k1)"
    and rest: "break_process kv k1 = ret k' \<or> (\<exists>m. break_process kv (k1\<lparr>phys := m\<rparr>) = ret k') \<or> (\<exists>m. k' = k1\<lparr>phys := m\<rparr>)"
    using assms(2) by (auto simp: page_fault_def Let_def bindo_eq_ret split: if_splits prod.splits)
  then show ?thesis
    using system_frame_hw [OF kvm_frameD(1) [OF kv k1]] break_process_hw [OF kv] by fastforce
next
  case False
  then obtain k1 f args where k1: "kprint (CPOS 24 0) 0x0C00 f args k = ret k1" "break_process kv k1 = ret k'"
    using assms(2) by (auto simp: page_fault_def Let_def bindo_eq_ret split: if_splits)
  then show ?thesis
    using kprint_ret [OF k1(1)] break_process_hw [OF kv k1(2)] by auto
qed

lemma dispatch_hw:
  assumes kv: "kvm_frame kv" and d: "dispatch kv mc reg k = ret (scheduled, k')"
  shows "hw k' = hw k"
  using d
proof (cases rule: dispatch_cases)
  case (rax v k1)
  have "hw k1 = hw k" if "sbrk (current k) d k = ret (r, k1)" for d r
    using sbrk_ret [OF that] by auto
  then have "hw k1 = hw k"
    using rax(3) system_frame_hw [OF kvm_frameD(6) [OF kv]] brk_ret by blast
  then show ?thesis
    by (simp add: rax(2) set_rax_def)
next
  case other
  have "hw (syscall_mem_tog (current k) k) = hw k"
    by (simp add: syscall_mem_tog_def Let_def)
  then show ?thesis
    using other(2) page_fault_hw [OF kv] system_frame_hw [OF kvm_frameD(2) [OF kv]] system_frame_hw [OF kvm_frameD(7) [OF kv]]
    by auto
qed

lemma exception_traps:
  assumes kv: "kvm_frame kv" and "exception lm kv mc reg k = ret k'"
  shows "same_traps (hw k) (hw k')"
proof -
  obtain pt k1 scheduled k2 i where e: "display_frame (entered pt reg k) k1"
    "dispatch kv mc reg k1 = ret (scheduled, k2)" "resumed i k2 k'"
    using exception_parts [OF assms(2)] .
  have "hw k1 = console_show_cursor (cursorpos k) (hw k)"
    using e(1) by (auto simp: display_frame_def entered_def)
  moreover have "hw k' = hw k1"
    using dispatch_hw [OF kv e(2)] e(3) by (auto simp: resumed_def)
  ultimately show ?thesis
    using console_show_cursor_traps by simp
qed

lemma process_setups_hw:
  assumes kv: "kvm_frame kv"
  shows "run_all (\<lambda>(pid, n). process_setup kv pid n) ps k = ret k' \<Longrightarrow> hw k' = hw k"
proof (induction ps arbitrary: k)
  case (Cons p ps)
  obtain pid n k1 where p: "p = (pid, n)" and k1: "process_setup kv pid n k = ret k1"
    and rest: "run_all (\<lambda>(pid, n). process_setup kv pid n) ps k1 = ret k'"
    using Cons.prems by (cases p) (auto simp: bindo_eq_ret)
  obtain r2 k2 r3 k3 k4 where k2: "process_config_tables kv (of_nat pid) (upd_proc pid (process_init 0) k) = ret (r2, k2)"
    and k3: "process_load kv pid n k2 = ret (r3, k3)" and k4: "process_setup_stack kv pid k3 = ret k4"
    and "k1 = upd_proc pid (\<lambda>p. p\<lparr>p_state := P_RUNNABLE\<rparr>) k4"
    using k1 by (auto simp: process_setup_def Let_def bindo_eq_ret split: if_splits)
  then have "hw k1 = hw k"
    using system_frame_hw kvm_frameD(3) [OF kv k2] kvm_frameD(4) [OF kv k3] kvm_frameD(5) [OF kv k4] by fastforce
  then show ?case
    using Cons.IH [OF rest] by simp
qed simp

lemma kernel_traps:
  assumes kv: "kvm_frame kv" and "kernel lm hs kv command k0 = ret k"
  shows "traps_set lm hs (hw k)"
proof -
  obtain m pt cells cpos k2 where
    k2: "run_all (\<lambda>(pid, n). process_setup kv pid n) (boot_programs command)
       (k0\<lparr>phys := m, cr3 := pt, kernel_pagetable := kernel_pagetables lm,
          pageinfo := pageinfo_init (kernel_end lm) (pageinfo k0), console := cells, cursorpos := cpos,
          hw := timer_init 100 (interrupt_init (segments_init lm hs (hw k0))), processes := map free_proc [0..<NPROC]\<rparr>) = ret k2"
    and run: "run lm 1 k2 = ret k"
    using assms(2) by (auto simp: kernel_def hardware_init_def Let_def bindo_eq_ret console_clear_def split: prod.splits)
  then show ?thesis
    using process_setups_hw [OF kv k2] run_ret [OF run] traps_set_init [of lm hs 100 "hw k0"] by (auto simp: resumed_def)
qed

lemma reachable_traps:
  assumes kv: "kvm_frame kv" and "reachable lm hs kv k"
  shows "traps_set lm hs (hw k)"
  using assms(2)
proof (induction rule: reachable.induct)
  case (booted k0 command k)
  then show ?case
    using kernel_traps [OF kv] by blast
next
  case (interrupted k k1 mc reg k2)
  have "hw k1 = hw k"
    using interrupted.hyps(2) by (auto simp: user_step_def)
  then show ?case
    using interrupted.IH exception_traps [OF kv interrupted.hyps(3)] traps_set_same by simp
qed


section \<open>A process and its interruptions\<close>

text \<open>Any number of kernel entries of other processes, while process \<open>i\<close> waits and is not ended.\<close>

inductive waits :: "link_map \<Rightarrow> kvm \<Rightarrow> nat \<Rightarrow> kstate \<Rightarrow> kstate \<Rightarrow> bool" for lm kv i where
  stay: "waits lm kv i k k"
| other: "waits lm kv i k k1 \<Longrightarrow> user_step k1 k2 \<Longrightarrow> current k2 \<noteq> i \<Longrightarrow> exception lm kv mc reg k2 = ret k3 \<Longrightarrow>
    in_use k3 i \<Longrightarrow> waits lm kv i k k3"

lemma user_step_running: "user_running k \<Longrightarrow> user_step k k' \<Longrightarrow> user_running k'"
  by (auto simp: user_running_def wf_defs user_step_def the_proc_def runnable_def)

lemma waits_saved:
  assumes "waits lm kv i k k'" and kv: "kvm_frame kv" "kvm_contexts kv" and "user_running k" and "in_use k i" and "i < NPROC"
  shows "user_running k' \<and> in_use k' i \<and> p_registers (the_proc k' i) = p_registers (the_proc k i)"
  using assms(1,4,5)
proof (induction rule: waits.induct)
  case (other k k1 k2 mc reg k3)
  then have k1: "user_running k1" "in_use k1 i" "p_registers (the_proc k1 i) = p_registers (the_proc k i)"
    by auto
  have k2: "user_running k2" "in_use k2 i" "p_registers (the_proc k2 i) = p_registers (the_proc k i)"
    using user_step_running [OF k1(1) other.hyps(2)] k1(2,3) other.hyps(2)
    by (auto simp: user_step_def in_use_def the_proc_def)
  then have "user_running k3"
    using exception_running [OF kv(1) other.hyps(4)] by (simp add: user_running_def)
  moreover have "p_registers (the_proc k3 i) = p_registers (the_proc k2 i)"
    using registers_restored [OF kv other.hyps(4) k2(1)] other.hyps(3,5) k2(2) assms(6) by (auto simp: saved_def)
  ultimately show ?case
    using other.hyps(5) k2(3) by simp
qed simp

text \<open>C15. Every interrupt with a handler of its own that hits a process enters the kernel with the processor in kernel
  mode, interrupts off, and \<open>rdi\<close> pointing to an \<open>x86_64_registers\<close> structure on the kernel stack that holds exactly
  the registers of the process, the vector and the error code; no memory outside this structure has changed. This holds
  in every state in which the kernel lets processes run.\<close>

theorem trap_saves_registers:
  assumes "kvm_frame kv" and "reachable lm hs kv k" and "distinct_handlers lm hs" and "cpl c = 3" and "handled ev"
  shows "\<exists>c'. take_interrupt lm hs (hw k) ev c = Some c' \<and> cpl c' = 0 \<and> rflags c' AND EFLAGS_IF = 0 \<and>
    gpr c' RDI = KERNEL_STACK_TOP - 192 \<and> read_registers (ram c') (gpr c' RDI) = interrupted_registers ev c \<and>
    (\<forall>x. x < KERNEL_STACK_TOP - 192 \<or> KERNEL_STACK_TOP \<le> x \<longrightarrow> ram c' x = ram c x)"
  by (rule handled_frame [OF reachable_traps [OF assms(1,2)] assms(3-5)])
    (auto simp: KERNEL_STACK_TOP_def word_less_nat_alt word_le_nat_alt)

text \<open>C14. A process never notices an interruption: whatever interrupt takes it into the kernel, and however many kernel
  entries of other processes follow, once the kernel resumes it (\<open>exception_return\<close> with \<open>rdi\<close> pointing to its saved
  registers) the processor has all registers of the moment of the interruption; only the system calls with a result have
  changed \<open>rax\<close>, and the processor itself may have set the resume flag.\<close>

theorem interrupted_process_resumes:
  assumes kv: "kvm_frame kv" "kvm_contexts kv" and run: "user_running k" and traps: "traps_set lm hs (hw k)"
    and hs: "distinct_handlers lm hs" and c: "cpl c = 3" "loaded_flags (rflags c) = rflags c" "ram c = phys k"
    and ev: "handled ev" and c1: "take_interrupt lm hs (hw k) ev c = Some c1"
    and e: "exception lm kv mc (read_registers (ram c1) (gpr c1 RDI)) (k\<lparr>phys := ram c1\<rparr>) = ret k1"
    and w: "in_use k1 (current k)" "waits lm kv (current k) k1 k2"
    and c2: "read_registers (ram c2) (gpr c2 RDI) = p_registers (the_proc k2 (current k))"
  shows "\<exists>v. execute exception_return c2 =
    c\<lparr>gpr := (if writes_rax (of_nat (vector ev)) then (gpr c)(RAX := v) else gpr c), rflags := saved_flags ev c, ram := ram c2\<rparr>"
proof -
  let ?i = "current k" and ?k = "k\<lparr>phys := ram c1\<rparr>" and ?reg = "interrupted_registers ev c"
  have reg: "read_registers (ram c1) (gpr c1 RDI) = ?reg"
    using handled_frame [OF traps hs c(1) ev] c1 by (metis option.inject)
  have i: "?i < NPROC" "in_use ?k ?i" "current ?k = ?i" and run': "user_running ?k"
    using run by (auto simp: user_running_def wf_defs runnable_def in_use_def the_proc_def)
  have intno: "reg_intno ?reg = of_nat (vector ev)"
    by (simp add: interrupted_registers_def)
  obtain v where "p_registers (the_proc k1 ?i) = (if writes_rax (of_nat (vector ev)) then ?reg\<lparr>reg_rax := v\<rparr> else ?reg)"
    using registers_restored [OF kv e run'] i w(1) unfolding reg intno saved_def by auto
  moreover have "user_running k1"
    using exception_running [OF kv(1) e] run' by (simp add: user_running_def)
  ultimately have "execute exception_return c2
      = running (if writes_rax (of_nat (vector ev)) then ?reg\<lparr>reg_rax := v\<rparr> else ?reg) (ram c2)"
    using waits_saved [OF w(2) kv _ w(1) i(1)] c2 by (simp add: exception_return_loads)
  then show ?thesis
    by (intro exI [of _ v]) (simp add: running_interrupted [OF c(2)] running_set_rax)
qed


text \<open>The other vectors lead to \<open>default_int_handler\<close>, which pushes one word where the structure has two, the number and
  the error code.\<close>

definition unhandled :: "interrupt \<Rightarrow> bool" where
  "unhandled ev \<longleftrightarrow> error_code ev = None \<and> \<not> software ev \<and> 16 \<le> vector ev \<and> vector ev < 256 \<and> vector ev \<noteq> 32 \<and>
     \<not> (48 \<le> vector ev \<and> vector ev < 64)"



section \<open>Soft reboot\<close>

text \<open>C17. A control key that restarts the kernel with a command does so: the string literal of the command survives the
  temporary page table and the new stack pointer, and \<open>kernel\<close> is entered with its address as the argument, an empty kernel
  stack and interrupts off, as long as \<open>multiboot_info\<close> lies above the literal and below the top word of the stack.\<close>

theorem soft_reboot_passes_command:
  assumes key: "check_keyboard key m = (Reboot command, m1)" and lit: "c_string m ptr command"
    and place: "0xB000 \<le> unat ptr" "unat ptr + length command < unat info" "unat info + 20 \<le> 0x7FFF8" and "ram c = m1"
  shows "\<exists>c'. soft_reboot info ptr c = ret c' \<and> gpr c' RDI = ptr \<and> ptr \<noteq> 0 \<and> c_string (ram c') ptr command \<and>
    gpr c' RSP = KERNEL_STACK_TOP \<and> rflags c' = 2"
proof -
  let ?m2 = "store32 (store32 m1 info 4) (info + 16) (ucast ptr)"
  define m3 where "m3 = store64 ?m2 0x7FFF8 0"
  have m1: "m1 = reboot_pagetable m"
    using key by (auto simp: check_keyboard_def)
  have small: "unat ptr + length command < 0x80000"
    using place by simp
  then have ptr: "ptr < 0x100000000" "ucast (ucast ptr :: u32) = ptr" "ptr \<noteq> 0"
    using place(1) by (auto simp: word_less_nat_alt word_unat_eq_iff unsigned_ucast_eq unsigned_take_bit_eq take_bit_nat_eq_self)
  have info: "unat (info + 16) = unat info + 16"
    using place(3) by (simp add: unat_word_ariths)
  have loads: "load32 m3 info = 4" "load32 m3 (info + 16) = ucast ptr"
    unfolding m3_def using place(3) info by (simp_all add: load32_store64_above aligned8_def)
  have "m3 x = m x" if "0xB000 \<le> unat x" "unat x < unat info" for x
    using that place(3) info
    by (simp add: m3_def store64_frame aligned8_def store32_frame m1 reboot_pagetable_frame)
  moreover have "unat (ptr + of_nat i) = unat ptr + i" if "i \<le> length command" for i
    using small that by (simp add: unat_word_ariths unat_of_nat)
  ultimately have "c_string m3 ptr command"
    using lit place by (intro c_string_frame [OF lit]) auto
  moreover have "loaded_flags 0 = 2"
    by (simp add: loaded_flags_def)
  ultimately show ?thesis
    using ptr loads assms(6)
    by (simp add: soft_reboot_def entry_from_boot_def Let_def push64_def pop64_def assertion_def m3_def KERNEL_STACK_TOP_def)
qed

section \<open>Instances\<close>

text \<open>A process in user mode, and a kernel that runs it as process 1 with one free page.\<close>

definition some_cpu :: "mem \<Rightarrow> cpu" where
  "some_cpu m = \<lparr>gpr = (\<lambda>r. if r = RSP then 0x2FFF00 else if r = RDI then 0x203456 else 7),
     seg = (\<lambda>s. if s = CS then 0x13 else 0x23), rip = 0x100050, rflags = 0x202, ram = m\<rparr>"

definition trap_kernel :: "mem \<Rightarrow> kstate" where
  "trap_kernel m = (kernel_with_break 0x204000)
     \<lparr>phys := m, kernel_pagetable := 0x50000, cr3 := 0x50000, current := 1, console := replicate 2000 0, disp_global := 0,
      pageinfo := (replicate 512 \<lparr>pg_owner = 1, refcount = 1\<rparr>)[6 := \<lparr>pg_owner = 0, refcount = 0\<rparr>],
      processes := (map free_proc [0..<16])[1 := (proc_with_break 0x204000)\<lparr>p_pagetable := 0x50000\<rparr>],
      hw := segments_init some_link_map some_symbols some_hardware\<rparr>"

lemma trap_kernel_fields:
  "current (trap_kernel m) = 1" "phys (trap_kernel m) = m" "kernel_pagetable (trap_kernel m) = 0x50000"
  "the_proc (trap_kernel m) 1 = (proc_with_break 0x204000)\<lparr>p_pagetable := 0x50000\<rparr>" "length (processes (trap_kernel m)) = 16"
  "pageinfo (trap_kernel m) = (replicate 512 \<lparr>pg_owner = 1, refcount = 1\<rparr>)[6 := \<lparr>pg_owner = 0, refcount = 0\<rparr>]"
  "cr3 (trap_kernel m) = 0x50000"
  by (simp_all add: trap_kernel_def the_proc_def del: upt_rec_numeral)

lemma trap_kernel_traps: "traps_set some_link_map some_symbols (hw (trap_kernel m))"
  by (simp add: trap_kernel_def traps_set_def segments_init_def)

lemma trap_kernel_running: "user_running (trap_kernel m)"
proof -
  have "p_pid (the_proc (trap_kernel m) i) = of_nat i \<and> break_inv (the_proc (trap_kernel m) i)" if "i < 16" for i
    using that by (cases "i = 1") (simp_all add: trap_kernel_def the_proc_def free_proc_def proc_with_break_def break_inv_def
        MEMSIZE_VIRTUAL_def PAGESIZE_def del: upt_rec_numeral)
  then show ?thesis
    using trap_kernel_fields [of m]
    by (simp add: user_running_def wf_defs NPROC_def NPAGES_def CONSOLE_CELLS_def runnable_def proc_with_break_def)
      (simp add: trap_kernel_def kernel_with_break_def)
qed

lemma granting_kvm_frame: "kvm_frame (granting_kvm 6)" "kvm_contexts (granting_kvm 6)"
proof -
  have "system_frame k (k\<lparr>pageinfo := (pageinfo k)[n := x]\<rparr>)" for k n x
    unfolding system_frame_def
    by (intro conjI exI [of _ "phys k"] exI [of _ "(pageinfo k)[n := x]"] exI [of _ "processes k"] exI [of _ "console k"])
      (simp_all add: the_proc_def)
  then show "kvm_frame (granting_kvm 6)" "kvm_contexts (granting_kvm 6)"
    by (auto simp: kvm_frame_def kvm_contexts_def granting_kvm_def contexts_kept_def contexts_extended_def)
qed

lemma distinct_some: "distinct_handlers some_link_map some_symbols"
  by code_simp

lemma fault_resumes:
  assumes m: "pt_shape m1 0x50000" "\<forall>a. unat a < 0x200000 \<longrightarrow>
       virtual_memory_lookup m1 0x50000 a = \<lparr>vam_pn = PAGENUMBER a, vam_pa = a, vam_perm = 7\<rparr>"
    "\<forall>u\<in>{table2 m1 0x50000, table3 m1 0x50000, table4 m1 0x50000 0, table4 m1 0x50000 1}.
       0x50000 \<le> unat u \<and> unat u < 0x55000"
    and reg: "reg_intno reg = 14" "reg_err reg = 2"
  shows "\<exists>k'. exception some_link_map (granting_kvm 6) (silent_machine\<lparr>cr2 := 0x203456\<rparr>) reg ((trap_kernel m)\<lparr>phys := m1\<rparr>)
    = ret k' \<and> current k' = 1 \<and> in_use k' 1"
proof -
  let ?mc = "silent_machine\<lparr>cr2 := 0x203456\<rparr>" and ?kv = "granting_kvm 6"
  define k where "k = (trap_kernel m)\<lparr>phys := m1\<rparr>"
  define e where "e = entered 0x50000 reg k"
  have p: "the_proc e 1 = (proc_with_break 0x204000)\<lparr>p_pagetable := 0x50000, p_registers := reg\<rparr>"
    using trap_kernel_fields(1,4,5) [of m] by (simp add: e_def k_def entered_def the_proc_def upd_proc_def)
  have e: "current e = 1" "phys e = m1" "kernel_pagetable e = 0x50000" "length (processes e) = 16"
    "pageinfo e = (replicate 512 \<lparr>pg_owner = 1, refcount = 1\<rparr>)[6 := \<lparr>pg_owner = 0, refcount = 0\<rparr>]"
    using trap_kernel_fields [of m] by (simp_all add: e_def k_def entered_def the_proc_def upd_proc_def)
  have sp: "set_pagetable some_link_map 0x50000 0x50000 m' = ret 0x50000"
    if "\<forall>a. unat a < 0x200000 \<longrightarrow> vam_pa (virtual_memory_lookup m' 0x50000 a) = a" for m'
    using that by (simp add: set_pagetable_def some_link_map_def PAGEOFFSET_def)
  define k1 where "k1 = e\<lparr>pageinfo := (pageinfo e)[6 := \<lparr>pg_owner = 1, refcount = 1\<rparr>]\<rparr>"
  have grants: "palloc_grants ?kv 1 e 0x6000 k1"
    by (simp add: palloc_grants_def granting_kvm_def k1_def e page_aligned_iff)
  have used: "tables_in_use e 0x50000"
  proof -
    have "refcount (pageinfo e ! (unat t div 4096)) \<noteq> 0" if "0x50000 \<le> unat t" "unat t < 0x55000" for t
    proof -
      have "unat t div 4096 < 512" "unat t div 4096 \<noteq> 6"
        using that(2) div_le_mono [OF that(1), of 4096] by (simp_all add: div_less_iff_less_mult)
      then show ?thesis
        by (simp add: e nth_list_update)
    qed
    then show ?thesis
      using m(3) by (auto simp: tables_in_use_def e)
  qed
  have brk: "break_ok e 1"
    using p e by (simp add: break_ok_def proc_with_break_def MEMSIZE_VIRTUAL_def PAGESIZE_def)
  obtain m' where pf: "page_fault ?kv ?mc reg e = ret (k1\<lparr>phys := m'\<rparr>)"
    and look: "\<forall>a. unat a < 0x400000 \<longrightarrow> virtual_memory_lookup m' 0x50000 a =
       (if unat a div 4096 = 0x203 then \<lparr>vam_pn = PAGENUMBER 0x6000, vam_pa = 0x6000 + PAGEOFFSET a, vam_perm = 7\<rparr>
        else virtual_memory_lookup m1 0x50000 a)"
    using page_fault_maps [of "the_proc e 1" e reg ?mc ?kv "0x6000" k1] p e(1,2) brk grants used reg m(1)
    by (auto simp: proc_with_break_def pferr_defs)
  define k5 where "k5 = k1\<lparr>phys := m'\<rparr>"
  have d: "dispatch ?kv ?mc reg e = ret (False, k5)"
    using pf reg by (simp add: dispatch_def Let_def int_defs k5_def)
  have k5: "current k5 = 1" "the_proc k5 1 = the_proc e 1" "kernel_pagetable k5 = 0x50000" "phys k5 = m'"
    using e by (simp_all add: k5_def k1_def the_proc_def)
  have poll: "poll_keyboard (typed silent_machine 0) s = ret s" for s
    by (rule poll_keyboard_idle) (simp add: silent_machine_def keyboard_command_def)
  have "set_pagetable some_link_map 0x50000 0x50000 m1 = ret 0x50000"
    using m(2) by (intro sp) auto
  then have "exception some_link_map ?kv ?mc reg k = run some_link_map 1 k5"
    using d k5(1,2) p reg trap_kernel_fields(2,3) [of m]
    by (simp add: exception_def Let_def int_defs pferr_defs poll e_def entered_def cursorpos_upd_proc k_def proc_with_break_def)
  moreover have "set_pagetable some_link_map 0x50000 0x50000 m' = ret 0x50000"
  proof (rule sp, intro allI impI)
    fix a :: u64 assume a: "unat a < 0x200000"
    then have "unat a div 4096 \<noteq> 0x203"
      using div_le_mono [of "unat a" "0x1FFFFF" "4096"] by auto
    then show "vam_pa (virtual_memory_lookup m' 0x50000 a) = a"
      using look m(2) a by simp
  qed
  ultimately obtain cells where "exception some_link_map ?kv ?mc reg k = ret (k5\<lparr>current := 1, console := cells, cr3 := 0x50000\<rparr>)"
    using run_resumes [of k5 1 some_link_map "0x50000"] k5 p by (auto simp: runnable_def proc_with_break_def)
  then show ?thesis
    unfolding k_def using k5(2) p by (intro exI) (auto simp: in_use_def the_proc_def proc_with_break_def)
qed

text \<open>The process writes to a page of its heap that is not mapped yet, and resumes with its registers once the page is there.\<close>

theorem interrupted_process_resumes_witness:
  "\<exists>m k1 c1. let c = some_cpu m; ev = \<lparr>vector = 14, software = False, error_code = Some 2, resume_flag = False\<rparr>
     in take_interrupt some_link_map some_symbols (hw (trap_kernel m)) ev c = Some c1 \<and>
        exception some_link_map (granting_kvm 6) (silent_machine\<lparr>cr2 := 0x203456\<rparr>) (read_registers (ram c1) (gpr c1 RDI))
          ((trap_kernel m)\<lparr>phys := ram c1\<rparr>) = ret k1 \<and> current k1 = 1 \<and>
        (\<forall>c2. read_registers (ram c2) (gpr c2 RDI) = p_registers (the_proc k1 1) \<longrightarrow>
           execute exception_return c2 = c\<lparr>ram := ram c2\<rparr>)"
proof -
  let ?ev = "\<lparr>vector = 14, software = False, error_code = Some 2, resume_flag = False\<rparr>" and ?lm = some_link_map
  let ?mc = "silent_machine\<lparr>cr2 := 0x203456\<rparr>" and ?kv = "granting_kvm 6"
  obtain m where m: "pt_shape m 0x50000" "\<forall>a. unat a < 0x200000 \<longrightarrow>
       virtual_memory_lookup m 0x50000 a = \<lparr>vam_pn = PAGENUMBER a, vam_pa = a, vam_perm = 7\<rparr>"
    "\<forall>u\<in>{table2 m 0x50000, table3 m 0x50000, table4 m 0x50000 0, table4 m 0x50000 1}.
       0x50000 \<le> unat u \<and> unat u < 0x55000"
    using virtual_memory_init_tables [OF some_link_map_ok, of "\<lambda>_. 0"] by (auto simp: some_link_map_def)
  have c: "cpl (some_cpu m) = 3" "loaded_flags (rflags (some_cpu m)) = rflags (some_cpu m)" "handled ?ev"
    by (simp_all add: some_cpu_def cpl_def loaded_flags_def EFLAGS_LOADABLE_def EFLAGS_RF_def handled_def)
  obtain c1 where c1: "take_interrupt ?lm some_symbols (hw (trap_kernel m)) ?ev (some_cpu m) = Some c1"
    "gpr c1 RDI = 0x7FF40" "read_registers (ram c1) 0x7FF40 = interrupted_registers ?ev (some_cpu m)"
    "\<And>x. unat x < 0x7FF40 \<or> 0x80000 \<le> unat x \<Longrightarrow> ram c1 x = ram (some_cpu m) x"
    using handled_frame [OF trap_kernel_traps distinct_some c(1,3)] by blast
  let ?reg = "read_registers (ram c1) (gpr c1 RDI)"
  have fr: "\<forall>x. \<not> in_page 0x7F000 x \<longrightarrow> ram c1 x = m x"
    using c1(4) by (auto simp: in_page_def some_cpu_def)
  have out: "0x7F000 \<notin> {0x50000, table2 m 0x50000, table3 m 0x50000, table4 m 0x50000 0, table4 m 0x50000 1}"
    using m(3) by auto
  note tf = table_frame [OF m(1) _ out fr]
  have "reg_intno ?reg = 14" "reg_err ?reg = 2"
    by (simp_all add: c1(2,3) interrupted_registers_def)
  then obtain k1 where k1: "exception ?lm ?kv ?mc ?reg ((trap_kernel m)\<lparr>phys := ram c1\<rparr>) = ret k1" "current k1 = 1" "in_use k1 1"
    using fault_resumes [of "ram c1" ?reg m] tf lookup_frame [OF m(1) _ out fr] m(2,3)
    by (auto simp: page_aligned_iff)
  have "execute exception_return c2 = (some_cpu m)\<lparr>ram := ram c2\<rparr>"
    if "read_registers (ram c2) (gpr c2 RDI) = p_registers (the_proc k1 1)" for c2
    using interrupted_process_resumes [OF granting_kvm_frame trap_kernel_running trap_kernel_traps distinct_some c(1,2) _ c(3) c1(1) k1(1)
        _ waits.stay, of c2] k1(3) that trap_kernel_fields(1,2) [of m]
    by (auto simp: writes_rax_def int_defs saved_flags_def some_cpu_def)
  then show ?thesis
    using c1(1) k1(1,2) by (intro exI [of _ m] exI [of _ k1] exI [of _ c1]) (simp add: Let_def)
qed

lemma some_reachable: "\<exists>k. reachable some_link_map some_symbols idle_kvm k"
  using cold_kernel_starts reachable.booted [OF cold_kernel_boot] by blast

text \<open>The system call \<open>getpid\<close>.\<close>

theorem trap_saves_registers_witness:
  "\<exists>k c'. let c = some_cpu (\<lambda>_. 0); ev = \<lparr>vector = 49, software = True, error_code = None, resume_flag = False\<rparr>
     in reachable some_link_map some_symbols idle_kvm k \<and> take_interrupt some_link_map some_symbols (hw k) ev c = Some c' \<and>
        read_registers (ram c') 0x7FF40 = interrupted_registers ev c"
proof -
  let ?ev = "\<lparr>vector = 49, software = True, error_code = None, resume_flag = False\<rparr>" and ?c = "some_cpu (\<lambda>_. 0)"
  obtain k where k: "reachable some_link_map some_symbols idle_kvm k"
    using some_reachable by blast
  have "cpl ?c = 3" "handled ?ev"
    by (simp_all add: some_cpu_def cpl_def handled_def)
  then show ?thesis
    using trap_saves_registers [OF idle_kvm_frame k distinct_some, of ?c ?ev] k
    by (auto simp: Let_def KERNEL_STACK_TOP_def)
qed


text \<open>The key \<open>t\<close>, with the literal at address \<open>0x48000\<close> and the array at \<open>0x7FE00\<close>.\<close>

definition rodata :: mem where
  "rodata = (\<lambda>_. 0)(0x48000 := 116, 0x48001 := 101, 0x48002 := 115, 0x48003 := 116)"

theorem soft_reboot_passes_command_witness:
  "\<exists>c'. soft_reboot 0x7FE00 0x48000 (some_cpu (reboot_pagetable rodata)) = ret c' \<and> gpr c' RDI = 0x48000 \<and>
     c_string (ram c') 0x48000 cmd_test"
proof -
  have "check_keyboard 116 rodata = (Reboot cmd_test, reboot_pagetable rodata)" "c_string rodata 0x48000 cmd_test"
    by (simp_all add: check_keyboard_def keyboard_command_def cmd_defs rodata_def)
  from soft_reboot_passes_command [OF this, of "0x7FE00" "some_cpu (reboot_pagetable rodata)"] show ?thesis
    by (auto simp: cmd_test_def some_cpu_def)
qed

end
