(* ===== verification/Demand_Paging.thy ===== *)
theory Demand_Paging
  imports Allocator_Properties Trap_Properties
begin

text \<open>
  The heap of a process while it is used: every access to a heap page that is not mapped yet is a page fault, and the
  handler of \<^verbatim>\<open>kernel/kernel.c\<close> maps a page there. The theory follows any sequence of accesses to the heap, as the
  basis for the theorem on the memory that \<open>malloc\<close> returns.
\<close>

section \<open>Pages\<close>

text \<open>Page \<open>q\<close> is accessible to the process: present, writable, user accessible.\<close>

definition user_page :: "mem \<Rightarrow> u64 \<Rightarrow> nat \<Rightarrow> bool" where
  "user_page m pt q \<longleftrightarrow> vam_perm (virtual_memory_lookup m pt (of_nat (4096 * q))) = 7"

definition missing :: "mem \<Rightarrow> u64 \<Rightarrow> nat set \<Rightarrow> nat set" where
  "missing m pt Q = {q \<in> Q. \<not> user_page m pt q}"

text \<open>The free pages; page 0 is none, since its address is the null pointer.\<close>

definition free_pages :: "kstate \<Rightarrow> nat set" where
  "free_pages k = {n. 0 < n \<and> n < length (pageinfo k) \<and> refcount (pageinfo k ! n) = 0}"

text \<open>A null result of \<open>palloc\<close> means that memory is used up: as long as there is a free page, it allocates one.\<close>

definition palloc_finds :: "kvm \<Rightarrow> bool" where
  "palloc_finds kv \<longleftrightarrow> (\<forall>k pid. length (pageinfo k) = NPAGES \<and> free_pages k \<noteq> {} \<longrightarrow> (\<exists>pa k1. palloc_grants kv pid k pa k1))"

lemma user_page_lookup:
  assumes "pt_shape m pt" and "unat a < 0x400000"
  shows "user_page m pt (unat a div 4096) \<longleftrightarrow> vam_perm (virtual_memory_lookup m pt a) = 7"
proof -
  let ?q = "unat a div 4096"
  have "4096 * ?q \<le> unat a"
    by simp
  then have b: "unat (of_nat (4096 * ?q) :: u64) = 4096 * ?q"
    using assms(2) by (simp add: unat_of_nat del: of_nat_mult)
  then show ?thesis
    using \<open>4096 * ?q \<le> unat a\<close> assms(2)
    by (simp add: user_page_def lookup_decode [OF assms(1)] decode_def del: of_nat_mult)
qed

text \<open>The tables survive a change of memory outside the upper levels.\<close>

lemma tables_kept:
  assumes sh: "pt_shape m pt" and pa: "page_aligned pa" "pa \<notin> {pt, table2 m pt, table3 m pt}"
    and fr: "\<forall>x. \<not> in_page pa x \<and> \<not> in_page (table4 m pt 0) x \<and> \<not> in_page (table4 m pt 1) x \<longrightarrow> m' x = m x"
  shows "table2 m' pt = table2 m pt" and "table3 m' pt = table3 m pt" and "table4 m' pt 0 = table4 m pt 0"
    and "table4 m' pt 1 = table4 m pt 1"
proof -
  have al: "page_aligned pt" "page_aligned (table4 m pt 0)" "page_aligned (table4 m pt 1)"
    using sh by (auto simp: pt_shape_def)
  have keep: "entry_at m' t i = entry_at m t i" if t: "page_aligned t" "t \<in> {pt, table2 m pt, table3 m pt}" "unat i < 512" for t i
  proof (rule entry_at_cong [OF t(1,3)])
    fix x assume "in_page t x"
    moreover have "t \<noteq> pa" "t \<noteq> table4 m pt 0" "t \<noteq> table4 m pt 1"
      using t(2) pa(2) sh by (auto simp: pt_shape_def)
    ultimately have "\<not> in_page pa x" "\<not> in_page (table4 m pt 0) x" "\<not> in_page (table4 m pt 1) x"
      using pages_apart [OF t(1) pa(1)] pages_apart [OF t(1) al(2)] pages_apart [OF t(1) al(3)] by (auto simp: in_page_def)
    then show "m' x = m x"
      using fr by blast
  qed
  show t2: "table2 m' pt = table2 m pt"
    using keep [OF al(1), of 0] by (simp add: table2_def)
  then show t3: "table3 m' pt = table3 m pt"
    using keep [of "table2 m pt" 0] by (simp add: table3_def)
  then show "table4 m' pt 0 = table4 m pt 0" "table4 m' pt 1 = table4 m pt 1"
    using keep [of "table3 m pt" 0] keep [of "table3 m pt" 1] by (simp_all add: table4_def)
qed

section \<open>Accesses\<close>

text \<open>The process accesses the addresses one after the other; an access to a page that is not accessible is a page fault
  for a missing page, with the registers \<open>reg\<close>.\<close>

fun accesses :: "kvm \<Rightarrow> machine \<Rightarrow> x86_64_registers \<Rightarrow> u64 list \<Rightarrow> kstate \<Rightarrow> kstate outcome" where
  "accesses kv mc reg [] k = ret k"
| "accesses kv mc reg (a # as) k =
     bindo (if vam_perm (virtual_memory_lookup (phys k) (p_pagetable (the_proc k (current k))) a) = 7 then ret k
            else page_fault kv (mc\<lparr>cr2 := a\<rparr>) reg k) (accesses kv mc reg as)"

text \<open>A state in which the pages \<open>Q\<close> of the heap can all be had.\<close>

definition heap_backed :: "nat set \<Rightarrow> kstate \<Rightarrow> bool" where
  "heap_backed Q k \<longleftrightarrow> break_ok k (current k) \<and> length (pageinfo k) = NPAGES \<and>
     pt_shape (phys k) (p_pagetable (the_proc k (current k))) \<and> tables_in_use k (p_pagetable (the_proc k (current k))) \<and>
     finite Q \<and> (\<forall>q\<in>Q. q < 1024) \<and>
     card (missing (phys k) (p_pagetable (the_proc k (current k))) Q) \<le> card (free_pages k)"

lemma fault_step:
  assumes b: "heap_backed Q k" and kv: "palloc_finds kv" and err: "reg_err reg AND PFERR_PRESENT = 0"
    and p: "p = the_proc k (current k)" and a: "original_break p \<le> a" "a < program_break p" "unat a div 4096 \<in> Q"
    and new: "\<not> user_page (phys k) (p_pagetable p) (unat a div 4096)"
  obtains k' where "page_fault kv (mc\<lparr>cr2 := a\<rparr>) reg k = ret k'" and "heap_backed Q k'"
    and "processes k' = processes k" and "current k' = current k"
    and "\<And>q. q < 1024 \<Longrightarrow> user_page (phys k') (p_pagetable p) q \<longleftrightarrow> q = unat a div 4096 \<or> user_page (phys k) (p_pagetable p) q"
proof -
  let ?pt = "p_pagetable p" and ?q = "unat a div 4096"
  have bk: "break_ok k (current k)" "length (pageinfo k) = NPAGES" "pt_shape (phys k) ?pt" "tables_in_use k ?pt"
    "finite Q" "\<forall>q\<in>Q. q < 1024" "card (missing (phys k) ?pt Q) \<le> card (free_pages k)"
    using b by (simp_all add: heap_backed_def p)
  have fin: "finite (missing (phys k) ?pt Q)" "finite (free_pages k)"
    using bk(5) by (simp_all add: missing_def free_pages_def)
  have "?q \<in> missing (phys k) ?pt Q"
    using a(3) new by (simp add: missing_def)
  then have "free_pages k \<noteq> {}"
    using fin bk(7) card_gt_0_iff [of "missing (phys k) ?pt Q"] by auto
  then obtain pa k1 where g: "palloc_grants kv (p_pid p) k pa k1"
    using kv bk(2) unfolding palloc_finds_def by blast
  obtain m' where pf: "page_fault kv (mc\<lparr>cr2 := a\<rparr>) reg k = ret (k1\<lparr>phys := m'\<rparr>)" and sh: "pt_shape m' ?pt"
    and look: "\<And>b. unat b < 0x400000 \<Longrightarrow> virtual_memory_lookup m' ?pt b =
       (if unat b div 4096 = ?q then \<lparr>vam_pn = PAGENUMBER pa, vam_pa = pa + PAGEOFFSET b, vam_perm = 7\<rparr>
        else virtual_memory_lookup (phys k) ?pt b)"
    and fr: "\<forall>x. \<not> in_page pa x \<and> \<not> in_page (table4 (phys k) ?pt 0) x \<and> \<not> in_page (table4 (phys k) ?pt 1) x \<longrightarrow> m' x = phys k x"
    using page_fault_maps [OF p err bk(1) _ _ bk(3,4) g, of "mc\<lparr>cr2 := a\<rparr>"] a(1,2) by auto
  let ?k' = "k1\<lparr>phys := m'\<rparr>" and ?n = "unat pa div 4096"
  have k1: "page_aligned pa" "unat pa < 0x200000" "refcount (pageinfo k ! ?n) = 0"
    "k1 = k\<lparr>phys := phys k1, pageinfo := (pageinfo k)[?n := \<lparr>pg_owner = ucast (p_pid p), refcount = 1\<rparr>]\<rparr>"
    using g unfolding palloc_grants_def by blast+
  have "unat pa \<noteq> 0"
    using g by (simp add: palloc_grants_def unat_eq_0)
  then have n: "?n < NPAGES" "0 < ?n"
    using k1(1,2) dvd_imp_le [of 4096 "unat pa"]
    by (simp_all add: NPAGES_def div_less_iff_less_mult page_aligned_iff div_greater_zero_iff)
  have st: "processes ?k' = processes k" "current ?k' = current k" "phys ?k' = m'"
    "pageinfo ?k' = (pageinfo k)[?n := \<lparr>pg_owner = ucast (p_pid p), refcount = 1\<rparr>]"
    by (subst k1(4); simp)+
  have tables: "pa \<notin> {?pt, table2 (phys k) ?pt, table3 (phys k) ?pt}"
    using bk(4) k1(3) by (auto simp: tables_in_use_def)
  note same = tables_kept [OF bk(3) k1(1) tables fr]
  have page: "user_page m' ?pt q \<longleftrightarrow> q = ?q \<or> user_page (phys k) ?pt q" if "q < 1024" for q
  proof -
    have "unat (of_nat (4096 * q) :: u64) = 4096 * q"
      using that by (simp add: unat_of_nat del: of_nat_mult)
    then show ?thesis
      using that look [of "of_nat (4096 * q)"] by (auto simp: user_page_def simp del: of_nat_mult)
  qed
  have "missing m' ?pt Q = missing (phys k) ?pt Q - {?q}"
    using page bk(6) by (auto simp: missing_def)
  moreover have "free_pages ?k' = free_pages k - {?n}"
    using n(1) bk(2) by (auto simp: free_pages_def st(4) nth_list_update)
  moreover have "?n \<in> free_pages k"
    using n k1(3) bk(2) by (simp add: free_pages_def)
  ultimately have "card (missing m' ?pt Q) \<le> card (free_pages ?k')"
    using bk(7) fin \<open>?q \<in> missing (phys k) ?pt Q\<close> by (simp add: card_Diff_singleton)
  moreover have "the_proc ?k' (current ?k') = p"
    using p by (simp add: the_proc_def st(1,2))
  moreover have "tables_in_use ?k' ?pt"
    using bk(2,4) n unfolding tables_in_use_def st(3,4) same by (auto simp: nth_list_update)
  moreover have "break_ok ?k' (current ?k')"
    using bk(1) by (simp add: break_ok_def the_proc_def st(1,2))
  ultimately have "heap_backed Q ?k'"
    using bk(2,5,6) sh st(3,4) by (simp add: heap_backed_def)
  then show thesis
    using pf st page by (intro that [of ?k']) auto
qed

lemma accesses_succeed:
  assumes "heap_backed Q k" and kv: "palloc_finds kv" and err: "reg_err reg AND PFERR_PRESENT = 0"
    and "\<forall>a\<in>set as. original_break (the_proc k (current k)) \<le> a \<and> a < program_break (the_proc k (current k)) \<and> unat a div 4096 \<in> Q"
  shows "\<exists>k'. accesses kv mc reg as k = ret k' \<and> processes k' = processes k \<and> current k' = current k \<and> heap_backed Q k' \<and>
    (\<forall>q<1024. user_page (phys k) (p_pagetable (the_proc k (current k))) q \<or> (\<exists>a\<in>set as. q = unat a div 4096) \<longrightarrow>
       user_page (phys k') (p_pagetable (the_proc k (current k))) q)"
  using assms(1,4)
proof (induction as arbitrary: k)
  case (Cons a as)
  let ?p = "the_proc k (current k)" and ?q = "unat a div 4096"
  have a: "original_break ?p \<le> a" "a < program_break ?p" "?q \<in> Q" "?q < 1024"
    using Cons.prems by (auto simp: heap_backed_def)
  have "unat a < 0x400000"
    using a(4) by (simp add: div_less_iff_less_mult)
  then have perm: "vam_perm (virtual_memory_lookup (phys k) (p_pagetable ?p) a) = 7 \<longleftrightarrow> user_page (phys k) (p_pagetable ?p) ?q"
    using Cons.prems(1) by (simp add: user_page_lookup heap_backed_def)
  obtain k1 where k1: "(if vam_perm (virtual_memory_lookup (phys k) (p_pagetable ?p) a) = 7 then ret k
      else page_fault kv (mc\<lparr>cr2 := a\<rparr>) reg k) = ret k1" "heap_backed Q k1" "processes k1 = processes k" "current k1 = current k"
    and page: "\<And>q. q < 1024 \<Longrightarrow> user_page (phys k1) (p_pagetable ?p) q \<longleftrightarrow> q = ?q \<or> user_page (phys k) (p_pagetable ?p) q"
  proof (cases "user_page (phys k) (p_pagetable ?p) ?q")
    case True
    then show ?thesis
      using Cons.prems(1) perm by (intro that [of k]) auto
  next
    case False
    then show ?thesis
      using fault_step [OF Cons.prems(1) kv err refl a(1-3) False, of mc] perm that by (metis (no_types, lifting))
  qed
  have p1: "the_proc k1 (current k1) = ?p"
    using k1(3,4) by (simp add: the_proc_def)
  obtain k' where "accesses kv mc reg as k1 = ret k'" "processes k' = processes k1" "current k' = current k1" "heap_backed Q k'"
    "\<forall>q<1024. user_page (phys k1) (p_pagetable ?p) q \<or> (\<exists>a\<in>set as. q = unat a div 4096) \<longrightarrow> user_page (phys k') (p_pagetable ?p) q"
    using Cons.IH [OF k1(2)] Cons.prems(2) p1 by auto
  then show ?case
    using k1 page by (intro exI [of _ k']) auto
qed simp


lemma pages_in_range: "y - x < c \<Longrightarrow> Suc y - x \<le> (c :: nat)"
  by simp

section \<open>What malloc changes in the kernel\<close>

lemma malloc_kernel:
  assumes "malloc sb n (s, k) = ret (r, t, k')"
  shows "k' = k \<or> (\<exists>r'. sb k (ROUNDUP (ROUNDUP (HEADER + n) 8) (4096 * 4)) = ret (r', k'))"
proof (cases "n = 0")
  case False
  then obtain found where f: "malloc_find sb (ROUNDUP (HEADER + n) 8) (s, k) = ret (found, k')"
    using assms by (auto simp: malloc_def Let_def bindo_eq_ret split: option.splits)
  then show ?thesis
    by (auto simp: malloc_find_def Let_def bindo_eq_ret split: if_splits)
qed (use assms in \<open>simp add: malloc_def\<close>)

lemma sbrk_grows_only:
  assumes "sys_sbrk k d = ret (r, k')" and "unat d < 2 ^ 63"
  shows "k' = k \<or> k' = upd_proc (current k) (\<lambda>p. p\<lparr>program_break := program_break (the_proc k (current k)) + d\<rparr>) k"
proof -
  have "\<not> sint d < 0"
    using assms(2) by (simp add: sint_negative_iff)
  then show ?thesis
    using assms(1) by (auto simp: sys_sbrk_def sbrk_def Let_def bindo_eq_ret split: if_splits)
qed

lemma malloc_keeps_pages:
  assumes "malloc sys_sbrk n (s, k) = ret (r, t, k')" and "unat n \<le> 2 ^ 62"
  shows "phys k' = phys k" and "pageinfo k' = pageinfo k" and "current k' = current k"
    and "original_break (the_proc k' (current k)) = original_break (the_proc k (current k))"
    and "p_pagetable (the_proc k' (current k)) = p_pagetable (the_proc k (current k))"
proof -
  have "k' = k \<or> (\<exists>b. k' = upd_proc (current k) (\<lambda>p. p\<lparr>program_break := b\<rparr>) k)"
    using malloc_kernel [OF assms(1)] sbrk_grows_only unat_chunk [OF assms(2)] by metis
  then show "phys k' = phys k" and "pageinfo k' = pageinfo k" and "current k' = current k"
    and "original_break (the_proc k' (current k)) = original_break (the_proc k (current k))"
    and "p_pagetable (the_proc k' (current k)) = p_pagetable (the_proc k (current k))"
    by (auto simp: the_proc_upd_any)
qed

text \<open>An allocator of pages that takes the lowest free page.\<close>

definition lowest_free :: "kstate \<Rightarrow> nat option" where
  "lowest_free k = find (\<lambda>n. refcount (pageinfo k ! n) = 0) [1..<NPAGES]"

definition first_fit_kvm :: kvm where
  "first_fit_kvm = idle_kvm\<lparr>palloc := (\<lambda>pid k. case lowest_free k of None \<Rightarrow> ret (0, k)
     | Some n \<Rightarrow> ret (of_nat (4096 * n), k\<lparr>pageinfo := (pageinfo k)[n := \<lparr>pg_owner = ucast pid, refcount = 1\<rparr>]\<rparr>))\<rparr>"

lemma first_fit_kvm_finds: "palloc_finds first_fit_kvm"
  unfolding palloc_finds_def
proof (intro allI impI, elim conjE)
  fix k :: kstate and pid :: u32
  assume len: "length (pageinfo k) = NPAGES" and "free_pages k \<noteq> {}"
  then have "lowest_free k \<noteq> None"
    by (auto simp: lowest_free_def free_pages_def find_None_iff NPAGES_def simp del: upt_rec_numeral)
  then obtain n where n: "lowest_free k = Some n"
    by blast
  then have m: "0 < n" "n < 512" "refcount (pageinfo k ! n) = 0"
    by (auto simp: lowest_free_def find_Some_iff NPAGES_def simp del: upt_rec_numeral)
  then have un: "unat (of_nat (4096 * n) :: u64) = 4096 * n"
    by (simp add: unat_of_nat del: of_nat_mult)
  then have "palloc_grants first_fit_kvm pid k (of_nat (4096 * n))
      (k\<lparr>pageinfo := (pageinfo k)[n := \<lparr>pg_owner = ucast pid, refcount = 1\<rparr>]\<rparr>)"
    using n m by (auto simp: palloc_grants_def first_fit_kvm_def page_aligned_iff unat_eq_0 [symmetric] simp del: of_nat_mult)
  then show "\<exists>pa k1. palloc_grants first_fit_kvm pid k pa k1"
    by blast
qed

end
