(* ===== verification/Syscalls.thy ===== *)
theory Syscalls
  imports Kernel_Properties
begin

text \<open>
  The system call that reports a page mapping to a process (\<open>syscall_mapping\<close> of \<^verbatim>\<open>kernel/kernel.c\<close>).
\<close>

section \<open>The system call for page mappings\<close>

lemma lookup_aligned8:
  assumes "vam_perm (virtual_memory_lookup m pt va) \<noteq> 0" and "aligned8 va"
  shows "aligned8 (vam_pa (virtual_memory_lookup m pt va))"
    and "PAGEOFFSET (vam_pa (virtual_memory_lookup m pt va)) = PAGEOFFSET va"
proof -
  obtain e where e: "vam_pa (virtual_memory_lookup m pt va) = PTE_ADDR e + PAGEOFFSET va"
    using assms(1) by (auto simp: virtual_memory_lookup_def Let_def split: if_splits)
  have al: "4096 dvd unat (PTE_ADDR e)"
    using page_aligned_PTE_ADDR [of e] by (simp add: page_aligned_iff)
  then have "unat (PTE_ADDR e + PAGEOFFSET va) = unat (PTE_ADDR e) + unat va mod 4096"
    using page_aligned_room [OF page_aligned_PTE_ADDR, of e] by (simp add: unat_word_ariths unat_PAGEOFFSET)
  moreover have "8 dvd unat va mod 4096"
    using assms(2) by (auto simp: aligned8_def intro!: dvd_mod)
  ultimately show "aligned8 (vam_pa (virtual_memory_lookup m pt va))"
    using al by (auto simp: aligned8_def e intro!: dvd_add intro: dvd_trans [of 8 4096])
  show "PAGEOFFSET (vam_pa (virtual_memory_lookup m pt va)) = PAGEOFFSET va"
    using al \<open>unat (PTE_ADDR e + PAGEOFFSET va) = _\<close> by (auto simp: e word_unat_eq_iff unat_PAGEOFFSET)
qed

lemma store_vamapping_fields:
  assumes "aligned8 a"
  shows "ucast (load64 (store_vamapping pad a v m) a) = vam_pn v"
    and "load64 (store_vamapping pad a v m) (a + 8) = vam_pa v"
    and "ucast (load64 (store_vamapping pad a v m) (a + 16)) = vam_perm v"
    and "\<forall>x. x \<notin> (\<lambda>i. a + of_nat i) ` {..<24} \<longrightarrow> store_vamapping pad a v m x = m x"
proof -
  have low: "(ucast (ucast (x :: u32) OR push_bit 32 (ucast (y :: u32)) :: u64) :: u32) = x" for x y
    by (rule bit_word_eqI) (auto simp: bit_simps)
  have al: "aligned8 (a + 8)" "aligned8 (a + 16)"
    using assms by (simp_all add: aligned8_add)
  have ne: "a \<noteq> a + 8" "a \<noteq> a + 16" "a + 8 \<noteq> a + 16"
    by simp_all
  show "ucast (load64 (store_vamapping pad a v m) a) = vam_pn v"
    "load64 (store_vamapping pad a v m) (a + 8) = vam_pa v"
    "ucast (load64 (store_vamapping pad a v m) (a + 16)) = vam_perm v"
    using assms al ne by (simp_all add: store_vamapping_def low)
  show "\<forall>x. x \<notin> (\<lambda>i. a + of_nat i) ` {..<24} \<longrightarrow> store_vamapping pad a v m x = m x"
  proof (intro allI impI)
    fix x assume x: "x \<notin> (\<lambda>i. a + of_nat i) ` {..<24}"
    have "x \<noteq> a + of_nat i" if "i < 24" for i
      using x that by auto
    from this [of 0] this [of 1] this [of 2] this [of 3] this [of 4] this [of 5] this [of 6] this [of 7]
      this [of 8] this [of 9] this [of 10] this [of 11] this [of 12] this [of 13] this [of 14] this [of 15]
      this [of 16] this [of 17] this [of 18] this [of 19] this [of 20] this [of 21] this [of 22] this [of 23]
    show "store_vamapping pad a v m x = m x"
      by (simp add: store_vamapping_def store64_apply add.assoc)
  qed
qed

lemma lookup_levels_page:
  "drop_bit 12 a = drop_bit 12 b \<Longrightarrow> lookup_levels m a ls pt pe = lookup_levels m b ls pt pe"
proof (induction ls arbitrary: pt pe)
  case (Cons l ls)
  have "pageindex a l = pageindex b l"
    using arg_cong [OF Cons.prems, of "drop_bit ((3 - l) * 9)"] by (simp add: pageindex_def add.commute)
  then show ?case
    using Cons by (simp add: Let_def)
qed simp

lemma lookup_perm_page:
  assumes "unat a div 4096 = unat b div 4096"
  shows "vam_perm (virtual_memory_lookup m pt a) = vam_perm (virtual_memory_lookup m pt b)"
proof -
  have "drop_bit 12 a = drop_bit 12 b"
    using assms by (simp only: word_unat_eq_iff unat_drop_bit_eq) (simp add: drop_bit_eq_div)
  from lookup_levels_page [OF this] show ?thesis
    by (simp add: virtual_memory_lookup_def Let_def del: lookup_levels.simps)
qed

lemma lookup_perm_present:
  assumes "vam_perm (virtual_memory_lookup m pt a) \<noteq> 0"
  shows "scast (vam_perm (virtual_memory_lookup m pt a)) AND PTE_P = PTE_P"
proof -
  obtain pe where pe: "pe AND PTE_P \<noteq> 0" "vam_perm (virtual_memory_lookup m pt a) = ucast (PTE_FLAGS pe)"
    using assms by (auto simp: virtual_memory_lookup_def Let_def split: if_splits)
  then have "bit pe 0"
    by (simp add: pte_bit)
  then have "bit (scast (ucast (PTE_FLAGS pe) :: u32) :: u64) 0"
    by (simp add: PTE_FLAGS_def bit_simps bit_fff)
  then show ?thesis
    unfolding pe(2) by (intro bit_word_eqI) (auto simp: bit_and_iff)
qed

lemma small_add_div:
  assumes "x mod 4096 + n < (4096 :: nat)"
  shows "(x + n) div 4096 = x div 4096"
proof -
  have "x + n = x mod 4096 + n + x div 4096 * 4096"
    using mod_div_mult_eq [of x 4096] by simp
  then show ?thesis
    using assms div_mult_self1 [of 4096 "x mod 4096 + n" "x div 4096"] by (simp only: div_less add_0_right)
qed

lemma unat_add_page:
  assumes "unat a mod 4096 + n < 4096"
  shows "unat ((a :: u64) + of_nat n) = unat a + n"
proof -
  have "unat a div 4096 < 2 ^ 52"
    using unat_less_2p64 [of a] by (simp add: div_less_iff_less_mult)
  then have "unat a div 4096 * 4096 + 4096 \<le> 2 ^ 64"
    by simp
  then have "unat a + n < 2 ^ 64"
    using assms mod_div_mult_eq [of "unat a" 4096] by linarith
  moreover have "unat (of_nat n :: u64) = n"
    using assms by (simp add: unat_of_nat)
  ultimately show ?thesis
    by (simp add: unat_word_ariths)
qed

text \<open>C32. \<open>syscall_mapping\<close> with a destination inside one page: if the process may write there, the kernel stores
  page number, address and permissions of the mapping of \<open>rsi\<close> at the physical address of the
  destination, where they read back, and writes nothing else; otherwise it does nothing.\<close>

theorem syscall_mapping_stores:
  assumes "p = the_proc k i" and "aligned8 (reg_rdi (p_registers p))"
    and "unat (PAGEOFFSET (reg_rdi (p_registers p))) + 24 \<le> 4096"
    and "dst = virtual_memory_lookup (phys k) (p_pagetable p) (reg_rdi (p_registers p))"
    and "v = virtual_memory_lookup (phys k) (p_pagetable p) (reg_rsi (p_registers p))"
  shows "if scast (vam_perm dst) AND (PTE_W OR PTE_U) = PTE_W OR PTE_U
    then \<exists>m'. syscall_mapping mc i k = k\<lparr>phys := m'\<rparr> \<and>
      ucast (load64 m' (vam_pa dst)) = vam_pn v \<and> load64 m' (vam_pa dst + 8) = vam_pa v \<and>
      ucast (load64 m' (vam_pa dst + 16)) = vam_perm v \<and>
      (\<forall>x. x \<notin> (\<lambda>i. vam_pa dst + of_nat i) ` {..<24} \<longrightarrow> m' x = phys k x)
    else syscall_mapping mc i k = k"
proof (cases "scast (vam_perm dst) AND (PTE_W OR PTE_U) = PTE_W OR PTE_U")
  case True
  let ?a = "reg_rdi (p_registers p)"
  let ?e = "virtual_memory_lookup (phys k) (p_pagetable p) (?a + 24 - 1)"
  have nz: "vam_perm dst \<noteq> 0"
    using True by (auto simp: pte_bits)
  have "unat (23 + ?a) = unat ?a + 23"
    using assms(3) unat_add_page [of ?a 23] by (simp add: unat_PAGEOFFSET add.commute)
  then have "unat (?a + 24 - 1) div 4096 = unat ?a div 4096"
    using assms(3) small_add_div [of "unat ?a" 23] by (simp add: unat_PAGEOFFSET)
  then have same: "vam_perm ?e = vam_perm dst"
    unfolding assms(4) by (rule lookup_perm_page)
  have w: "scast (vam_perm ?e) AND (PTE_W OR PTE_P) = PTE_W OR PTE_P"
  proof -
    have "bit (scast (vam_perm dst) :: u64) 1"
      using arg_cong [OF True, of "\<lambda>w. bit w 1"] by (simp add: bit_and_iff bit_or_iff)
    moreover have "bit (scast (vam_perm dst) :: u64) 0"
      using arg_cong [OF lookup_perm_present, of "phys k" "p_pagetable p" ?a "\<lambda>w. bit w 0"] nz
      unfolding assms(4) by (simp add: bit_and_iff)
    ultimately have "bit (scast (vam_perm dst) :: u64) 0" "bit (scast (vam_perm dst) :: u64) 1"
      by blast+
    then show ?thesis
      unfolding same by (intro bit_word_eqI) (auto simp: bit_and_iff bit_or_iff)
  qed
  have al: "aligned8 (vam_pa dst)"
    using lookup_aligned8 (1) assms(2,4) nz by blast
  have "syscall_mapping mc i k = k\<lparr>phys := store_vamapping (padding mc) (vam_pa dst) v (phys k)\<rparr>"
    using True w assms(1,4,5) by (simp add: syscall_mapping_def Let_def)
  then show ?thesis
    using True store_vamapping_fields [OF al, of "padding mc" v "phys k"] by auto
next
  case False
  then show ?thesis
    using assms(1,4) by (simp add: syscall_mapping_def Let_def)
qed

text \<open>C33. \<open>syscall_mapping\<close> with a destination that crosses a page boundary: when the address asked about lies in
  the page of the last byte, that page is not checked at all, and the kernel writes the end of the
  structure to the physical page behind the one of the first byte, whatever that page belongs to.\<close>

theorem syscall_mapping_spills:
  assumes "p = the_proc k i" and "aligned8 (reg_rdi (p_registers p))"
    and "4096 < unat (PAGEOFFSET (reg_rdi (p_registers p))) + 24"
    and "dst = virtual_memory_lookup (phys k) (p_pagetable p) (reg_rdi (p_registers p))"
    and "scast (vam_perm dst) AND (PTE_W OR PTE_U) = PTE_W OR PTE_U"
    and "PAGENUMBER (reg_rdi (p_registers p) + 23) = PAGENUMBER (reg_rsi (p_registers p))"
  shows "\<exists>m'. syscall_mapping mc i k = k\<lparr>phys := m'\<rparr> \<and>
    ucast (load64 m' (vam_pa dst + 16)) =
      vam_perm (virtual_memory_lookup (phys k) (p_pagetable p) (reg_rsi (p_registers p))) \<and>
    PAGEOFFSET (vam_pa dst + 16) < PAGEOFFSET (vam_pa dst)"
proof -
  let ?a = "reg_rdi (p_registers p)" and ?v = "virtual_memory_lookup (phys k) (p_pagetable p) (reg_rsi (p_registers p))"
  have nz: "vam_perm dst \<noteq> 0"
    using assms(5) by (auto simp: pte_bits)
  have al: "aligned8 (vam_pa dst)" and off: "PAGEOFFSET (vam_pa dst) = PAGEOFFSET ?a"
    using lookup_aligned8 assms(2,4) nz by blast+
  have "syscall_mapping mc i k = k\<lparr>phys := store_vamapping (padding mc) (vam_pa dst) ?v (phys k)\<rparr>"
    using assms(1,4,5,6) by (simp add: syscall_mapping_def Let_def add.commute)
  moreover have "PAGEOFFSET (vam_pa dst + 16) < PAGEOFFSET (vam_pa dst)"
  proof -
    let ?r = "unat (vam_pa dst) mod 4096"
    have r: "4072 < ?r" "?r < 4096"
      using assms(3) off by (auto simp: word_unat_eq_iff unat_PAGEOFFSET)
    have "8 dvd ?r"
      using al by (auto simp: aligned8_def intro!: dvd_mod)
    then obtain j where j: "?r = 8 * j" ..
    then have "509 < j" "j < 512"
      using r by linarith+
    then have "j = 510 \<or> j = 511"
      by linarith
    then have "?r = 4080 \<or> ?r = 4088"
      using j by auto
    moreover have "unat (vam_pa dst + 16) mod 4096 = (?r + 16) mod 4096"
      by (simp add: unat_word_ariths mod_mod_cancel mod_simps)
    ultimately show ?thesis
      by (auto simp: word_less_nat_alt unat_PAGEOFFSET)
  qed
  ultimately show ?thesis
    using store_vamapping_fields(3) [OF al, of "padding mc" ?v "phys k"] by auto
qed

text \<open>A process that asks for the mapping of \<open>b\<close> to be stored at \<open>a\<close>.\<close>

definition kernel_with_request :: "mem \<Rightarrow> u64 \<Rightarrow> u64 \<Rightarrow> kstate" where
  "kernel_with_request m a b = upd_proc 0
     (\<lambda>p. p\<lparr>p_registers := some_registers\<lparr>reg_rdi := a, reg_rsi := b\<rparr>\<rparr>) (kernel_on_table m)"

lemma kernel_with_request_sel:
  "the_proc (kernel_with_request m a b) 0 = (proc_with_break 0x204000)
     \<lparr>p_pagetable := 0x50000, p_registers := some_registers\<lparr>reg_rdi := a, reg_rsi := b\<rparr>\<rparr>"
  "phys (kernel_with_request m a b) = m"
  by (simp_all add: kernel_with_request_def kernel_on_table_def kernel_with_table_def upd_proc_def the_proc_def proc_with_break_def)

theorem syscall_mapping_stores_witness:
  "\<exists>m m'. syscall_mapping silent_machine 0 (kernel_with_request m 0x1000 0x2345)
     = (kernel_with_request m 0x1000 0x2345)\<lparr>phys := m'\<rparr> \<and> load64 m' 0x1008 = 0x2345"
proof -
  obtain m where m: "\<forall>a. unat a < 0x200000 \<longrightarrow>
     virtual_memory_lookup m 0x50000 a = \<lparr>vam_pn = PAGENUMBER a, vam_pa = a, vam_perm = 7\<rparr>"
    using identity_table_exists by blast
  have "\<exists>m'. syscall_mapping silent_machine 0 (kernel_with_request m 0x1000 0x2345)
     = (kernel_with_request m 0x1000 0x2345)\<lparr>phys := m'\<rparr> \<and> load64 m' 0x1008 = 0x2345"
    using syscall_mapping_stores [OF refl _ _ refl refl, where k = "kernel_with_request m 0x1000 0x2345" and i = 0 and mc = silent_machine] m
    by (auto simp: kernel_with_request_sel PAGEOFFSET_def pte_bits aligned8_def)
  then show ?thesis
    by blast
qed

theorem syscall_mapping_spills_witness:
  "\<exists>m m'. virtual_memory_lookup m 0x50000 0x200007 = unmapped \<and>
     syscall_mapping silent_machine 0 (kernel_with_request m 0x1FFFF0 0x200000)
     = (kernel_with_request m 0x1FFFF0 0x200000)\<lparr>phys := m'\<rparr> \<and> ucast (load64 m' 0x200000) = (0 :: u32)"
proof -
  obtain m where m: "\<forall>a. unat a < 0x200000 \<longrightarrow>
     virtual_memory_lookup m 0x50000 a = \<lparr>vam_pn = PAGENUMBER a, vam_pa = a, vam_perm = 7\<rparr>"
     "\<forall>a. 0x200000 \<le> unat a \<and> unat a < 0x400000 \<longrightarrow> virtual_memory_lookup m 0x50000 a = unmapped"
    using identity_table_exists by blast
  have "\<exists>m'. syscall_mapping silent_machine 0 (kernel_with_request m 0x1FFFF0 0x200000)
     = (kernel_with_request m 0x1FFFF0 0x200000)\<lparr>phys := m'\<rparr> \<and> ucast (load64 m' 0x200000) = (0 :: u32)"
    using syscall_mapping_spills [OF refl _ _ refl, where k = "kernel_with_request m 0x1FFFF0 0x200000" and i = 0 and mc = silent_machine] m
    by (auto simp: kernel_with_request_sel PAGEOFFSET_def pte_bits aligned8_def PAGENUMBER_def unmapped_def)
  moreover have "virtual_memory_lookup m 0x50000 0x200007 = unmapped"
    using m(2) by simp
  ultimately show ?thesis
    by blast
qed

end
