(* ===== verification/Loader.thy ===== *)
theory Loader
  imports Kernel Elf
begin

text \<open>
  The program loader of \<^verbatim>\<open>kernel/k-loader.c\<close>: \<open>program_load\<close> and \<open>program_load_segment\<close>.
  The headers are read from the image in kernel memory; the segment is copied
  through the page table of the process, as the processor does once \<open>set_pagetable\<close> has loaded it. The
  theorems are in the theory \<open>Loader_Properties\<close>.
\<close>

section \<open>Access through a page table\<close>

text \<open>While the page table of the process is loaded, the processor translates every address of the
  kernel through it. Write protection applies to the kernel (\<open>CR0_WP\<close> is set). A page fault of the
  kernel is a panic.\<close>

primrec walk :: "mem \<Rightarrow> u64 \<Rightarrow> u64 \<Rightarrow> nat list \<Rightarrow> u64 \<Rightarrow> u64 outcome" where
  "walk m need va [] base = ret (base + PAGEOFFSET va)"
| "walk m need va (i # is) base =
     (let e = entry_at m base (pageindex va i)
      in if e AND need = need then walk m need va is (PTE_ADDR e) else fail Kernel_panic)"

definition translate :: "mem \<Rightarrow> u64 \<Rightarrow> u64 \<Rightarrow> u64 \<Rightarrow> u64 outcome" where
  "translate m need pt va = walk m need va [0, 1, 2, 3] pt"

function virt_memcpy :: "u64 \<Rightarrow> u64 \<Rightarrow> u64 \<Rightarrow> u64 \<Rightarrow> mem \<Rightarrow> mem outcome" where
  "virt_memcpy pt d s n m =
     (if n = 0 then ret m
      else bindo (translate m PTE_P pt s) (\<lambda>ps.
           bindo (translate m (PTE_P OR PTE_W) pt d) (\<lambda>pd.
             virt_memcpy pt (d + 1) (s + 1) (n - 1) (m(pd := m ps)))))"
  by auto
termination
  by (relation "measure (\<lambda>(pt, d, s, n, m). unat n)") (auto simp: unat_pred unat_gt_0)

function virt_memset :: "u64 \<Rightarrow> u64 \<Rightarrow> u8 \<Rightarrow> u64 \<Rightarrow> mem \<Rightarrow> mem outcome" where
  "virt_memset pt p c n m =
     (if n = 0 then ret m
      else bindo (translate m (PTE_P OR PTE_W) pt p) (\<lambda>pp. virt_memset pt (p + 1) c (n - 1) (m(pp := c))))"
  by auto
termination
  by (relation "measure (\<lambda>(pt, p, c, n, m). unat n)") (auto simp: unat_pred unat_gt_0)

declare virt_memcpy.simps [simp del] virt_memset.simps [simp del]

section \<open>Loading a segment\<close>

definition str_cant_assign :: "u8 list" where
  "str_cant_assign = [112, 114, 111, 103, 114, 97, 109, 95, 108, 111, 97, 100, 95, 115, 101, 103, 109, 101, 110, 116, 40,
     112, 105, 100, 32, 37, 100, 41, 58, 32, 99, 97, 110, 39, 116, 32, 97, 115, 115, 105, 103, 110, 32, 97, 100, 100,
     114, 101, 115, 115, 32, 37, 112, 10]"

text \<open>The first loop. The process \<open>p\<close> is the one with index \<open>i\<close>; the parameter \<open>allocator\<close> is not used by the
  source.\<close>

partial_function (option) load_pages :: "kvm \<Rightarrow> nat \<Rightarrow> u64 \<Rightarrow> u64 \<Rightarrow> kstate \<Rightarrow> (u32 \<times> kstate) outcome" where
  "load_pages kv i end_mem addr k =
     (if addr < end_mem then
        bindo (palloc kv (p_pid (the_proc k i)) k) (\<lambda>(pa, k1).
        bindo (if pa = 0 then ret (True, k1)
               else bindo (virtual_memory_map (p_pagetable (the_proc k1 i)) addr pa PAGESIZE
                             (ucast (PTE_W OR PTE_P OR PTE_U)) (phys k1)) (\<lambda>(r, m).
                      ret (sint r < 0, k1\<lparr>phys := m\<rparr>))) (\<lambda>(failed, k2).
          if failed then
            bindo (kprint (CPOS 22 0) 0xC000 str_cant_assign
                     [Va_word (scast (p_pid (the_proc k2 i))), Va_word addr] k2) (\<lambda>k3. ret (- 1, k3))
          else load_pages kv i end_mem (addr + PAGESIZE) k2))
      else ret (0, k))"

text \<open>The second loop, for a segment that is not writable.\<close>

partial_function (option) protect_pages :: "u64 \<Rightarrow> u64 \<Rightarrow> u64 \<Rightarrow> mem \<Rightarrow> mem outcome" where
  "protect_pages pt end_mem addr m =
     (if addr < end_mem then
        bindo (virtual_memory_map pt addr (vam_pa (virtual_memory_lookup m pt addr)) PAGESIZE
                 (ucast (PTE_P OR PTE_U)) m) (\<lambda>(_, m'). protect_pages pt end_mem (addr + PAGESIZE) m')
      else ret m)"

definition program_load_segment ::
  "link_map \<Rightarrow> kvm \<Rightarrow> nat \<Rightarrow> u64 \<Rightarrow> u64 \<Rightarrow> kstate \<Rightarrow> (u32 \<times> kstate) outcome" where
  "program_load_segment lm kv i ph src k =
     (let seg = read_elf_program (phys k) ph;
          end_file = p_va seg + p_filesz seg;
          end_mem = p_va seg + p_memsz seg;
          va = p_va seg AND NOT (PAGESIZE - 1)
      in bindo (load_pages kv i end_mem va k) (\<lambda>(r, k1).
         if sint r < 0 then ret (- 1, k1)
         else
           let pt = p_pagetable (the_proc k1 i)
           in bindo (set_pagetable lm (kernel_pagetable k1) pt (phys k1)) (\<lambda>_.
              bindo (virt_memcpy pt va src (end_file - va) (phys k1)) (\<lambda>m2.
              bindo (virt_memset pt end_file 0 (end_mem - end_file) m2) (\<lambda>m3.
              bindo (set_pagetable lm (kernel_pagetable k1) (kernel_pagetable k1) m3) (\<lambda>c.
              bindo (if p_flags (read_elf_program m3 ph) AND ELF_PFLAG_WRITE = 0
                      then protect_pages pt end_mem va m3 else ret m3) (\<lambda>m4.
                ret (0, upd_proc i (\<lambda>p. p\<lparr>original_break := ROUNDUP end_mem PAGESIZE,
                                          program_break := ROUNDUP end_mem PAGESIZE\<rparr>)
                          (k1\<lparr>phys := m4, cr3 := c\<rparr>)))))))))"

section \<open>Loading a program\<close>

text \<open>\<open>ramimages\<close>: the images that the linker places in the kernel.\<close>

record ramimage =
  img_begin :: u64
  img_end :: u64

partial_function (option) load_segments ::
  "link_map \<Rightarrow> kvm \<Rightarrow> nat \<Rightarrow> u64 \<Rightarrow> u64 \<Rightarrow> nat \<Rightarrow> kstate \<Rightarrow> (u32 \<times> kstate) outcome" where
  "load_segments lm kv i eh ph j k =
     (if j < unat (e_phnum (read_elf_header (phys k) eh)) then
        let ph_j = ph + of_nat j * SIZEOF_ELF_PROGRAM;
            seg = read_elf_program (phys k) ph_j
        in if p_type seg = ELF_PTYPE_LOAD then
             bindo (program_load_segment lm kv i ph_j (eh + p_offset seg) k) (\<lambda>(r, k1).
               if sint r < 0 then ret (- 1, k1) else load_segments lm kv i eh ph (j + 1) k1)
           else load_segments lm kv i eh ph (j + 1) k
      else ret (0, k))"

definition program_load ::
  "link_map \<Rightarrow> kvm \<Rightarrow> ramimage list \<Rightarrow> nat \<Rightarrow> u32 \<Rightarrow> kstate \<Rightarrow> (u32 \<times> kstate) outcome" where
  "program_load lm kv ramimages i programnumber k =
     bindo (assertion (0 \<le> sint programnumber \<and> sint programnumber < int (length ramimages))) (\<lambda>_.
       let eh = img_begin (ramimages ! nat (sint programnumber))
       in bindo (assertion (e_magic (read_elf_header (phys k) eh) = ELF_MAGIC)) (\<lambda>_.
          bindo (load_segments lm kv i eh (eh + e_phoff (read_elf_header (phys k) eh)) 0 k) (\<lambda>(r, k1).
            if sint r < 0 then ret (- 1, k1)
            else ret (0, upd_proc i (\<lambda>p. p\<lparr>p_registers := (p_registers p)
                   \<lparr>reg_rip := e_entry (read_elf_header (phys k1) eh)\<rparr>\<rparr>) k1))))"

end
