(* ===== verification/Loader_Properties.thy ===== *)
theory Loader_Properties
  imports Loader Page_Faults
begin

text \<open>
  Properties of the program loader: the loops of \<open>program_load_segment\<close> (allocation of pages, the copies through the
  page table, removal of write access), what a process finds in memory after its program was
  loaded, and the failures. \<open>palloc\<close> enters with the named assumption \<open>palloc_serves\<close>.
\<close>

section \<open>Memory outside the page tables\<close>

text \<open>\<open>tables m pt\<close>: the five pages of a page table; \<open>outside_pages G x\<close>: the address \<open>x\<close> is in no page of \<open>G\<close>.\<close>

definition tables :: "mem \<Rightarrow> u64 \<Rightarrow> u64 set" where
  "tables m pt = {pt, table2 m pt, table3 m pt, table4 m pt 0, table4 m pt 1}"

definition outside_pages :: "u64 set \<Rightarrow> u64 \<Rightarrow> bool" where
  "outside_pages G x \<longleftrightarrow> (\<forall>g\<in>G. \<not> in_page g x)"

definition same_outside :: "u64 set \<Rightarrow> mem \<Rightarrow> mem \<Rightarrow> bool" where
  "same_outside G m m' \<longleftrightarrow> (\<forall>x. outside_pages G x \<longrightarrow> m' x = m x)"

lemma same_outside_trans: "same_outside G m m1 \<Longrightarrow> same_outside H m1 m2 \<Longrightarrow> same_outside (G \<union> H) m m2"
  by (simp add: same_outside_def outside_pages_def)

lemma same_outside_mono: "same_outside G m m' \<Longrightarrow> G \<subseteq> H \<Longrightarrow> same_outside H m m'"
  by (auto simp: same_outside_def outside_pages_def)

lemma entry_outside:
  assumes "same_outside G m m'" and "\<forall>g\<in>G. page_aligned g" and "page_aligned t" and "t \<notin> G" and "unat i < 512"
  shows "entry_at m' t i = entry_at m t i"
proof (rule entry_at_cong [OF assms(3,5)])
  fix x assume x: "in_page t x"
  have "\<not> in_page g x" if "g \<in> G" for g
    using pages_apart [OF assms(3), of g] assms(2,4) that x by (cases "t = g") (auto simp: in_page_def)
  then show "m' x = m x"
    using assms(1) by (simp add: same_outside_def outside_pages_def)
qed

lemma tables_outside:
  assumes "pt_shape m pt" and "same_outside G m m'" and "\<forall>g\<in>G. page_aligned g" and "G \<inter> tables m pt = {}"
  shows "pt_shape m' pt" and "tables m' pt = tables m pt" and "i < 2 \<Longrightarrow> table4 m' pt i = table4 m pt i"
    and "q < 1024 \<Longrightarrow> pt_entry m' pt q = pt_entry m pt q"
proof -
  note keep = entry_outside [OF assms(2,3)]
  have al: "page_aligned pt"
    using assms(1) by (simp add: pt_shape_def)
  have t2: "table2 m' pt = table2 m pt"
    using keep [OF al, of 0] assms(4) by (auto simp: table2_def tables_def)
  then have t3: "table3 m' pt = table3 m pt"
    using keep [of "table2 m pt" 0] assms(4) by (auto simp: table3_def tables_def)
  then have t4: "table4 m' pt 0 = table4 m pt 0" "table4 m' pt 1 = table4 m pt 1"
    using keep [of "table3 m pt" 0] keep [of "table3 m pt" 1] assms(4) by (auto simp: table4_def tables_def)
  then show "table4 m' pt i = table4 m pt i" if "i < 2"
    using table4_index [OF that] by auto
  show "tables m' pt = tables m pt"
    by (simp add: tables_def t2 t3 t4 [simplified])
  show "pt_shape m' pt"
    using assms(1,4) keep [OF al, of 0] keep [of "table2 m pt" 0] keep [of "table3 m pt" 0] keep [of "table3 m pt" 1]
    by (auto simp: pt_shape_def tables_def t2 t3 t4 [simplified])
  show "pt_entry m' pt q = pt_entry m pt q" if "q < 1024"
  proof -
    have "q div 512 = 0 \<or> q div 512 = 1"
      using that by (intro table4_index) simp
    moreover have "unat (of_nat (q mod 512) :: u64) < 512"
      by (simp add: unat_of_nat)
    ultimately show ?thesis
      using keep [of "table4 m pt (q div 512)" "of_nat (q mod 512)"] assms(4) t4 by (auto simp: pt_entry_def tables_def)
  qed
qed

text \<open>One page mapped: the contract of \<open>virtual_memory_map\<close> for the calls of the loader.\<close>

lemma map_one_page:
  assumes sh: "pt_shape m pt" and va: "unat va = 4096 * v" "v < 1024" and pa: "page_aligned pa" "unat pa < 0x200000"
    and perm: "0 \<le> sint perm" "sint perm < 0x1000" "scast perm AND PTE_P \<noteq> 0"
  shows "\<exists>m'. virtual_memory_map pt va pa PAGESIZE perm m = ret (0, m') \<and> pt_shape m' pt \<and> tables m' pt = tables m pt \<and>
    (\<forall>i<2. table4 m' pt i = table4 m pt i) \<and>
    (\<forall>q<1024. pt_entry m' pt q = (if q = v then pa OR scast perm else pt_entry m pt q)) \<and>
    same_outside {table4 m pt 0, table4 m pt 1} m m'"
proof -
  have sz: "unat PAGESIZE = 4096 * 1"
    by (simp add: PAGESIZE_def)
  have ok: "map_range_ok v pa 1 perm"
    using va(2) pa perm by (auto simp: map_range_ok_def MEMSIZE_PHYSICAL_def page_aligned_iff)
  from virtual_memory_map_refines [OF sh va(1) sz ok] obtain m' where
    m': "virtual_memory_map pt va pa PAGESIZE perm m = ret (0, m')" "pt_shape m' pt" "\<forall>i<2. table4 m' pt i = table4 m pt i"
    "\<forall>q<1024. pt_entry m' pt q =
        (if v \<le> q \<and> q < v + 1 then mapped_entry (pa + of_nat (q - v) * 4096) perm else pt_entry m pt q)"
    "\<forall>x. \<not> in_page (table4 m pt 0) x \<and> \<not> in_page (table4 m pt 1) x \<longrightarrow> m' x = m x"
    by blast
  have same: "same_outside {table4 m pt 0, table4 m pt 1} m m'"
    using m'(5) by (simp add: same_outside_def outside_pages_def)
  have ts: "page_aligned pt" "table4 m pt 0 \<notin> {pt, table2 m pt, table3 m pt}" "table4 m pt 1 \<notin> {pt, table2 m pt, table3 m pt}"
    using sh by (auto simp: pt_shape_def)
  note keep = entry_outside [OF same]
  have t2: "table2 m' pt = table2 m pt"
    using keep [of pt 0] ts by (auto simp: table2_def)
  then have "table3 m' pt = table3 m pt"
    using keep [of "table2 m pt" 0] ts by (auto simp: table3_def)
  then have "tables m' pt = tables m pt"
    using m'(3) t2 by (auto simp: tables_def)
  moreover have "\<forall>q<1024. pt_entry m' pt q = (if q = v then pa OR scast perm else pt_entry m pt q)"
    using m'(4) perm(3) by (auto simp: mapped_entry_def)
  ultimately show ?thesis
    using m'(1-3) same by blast
qed

section \<open>Allocating the pages of a segment\<close>

text \<open>\<open>palloc\<close> grants the next \<open>n\<close> pages, whatever the loader writes to memory in between.\<close>

primrec palloc_serves :: "kvm \<Rightarrow> u32 \<Rightarrow> nat \<Rightarrow> kstate \<Rightarrow> bool" where
  "palloc_serves kv pid 0 k = True"
| "palloc_serves kv pid (Suc n) k =
     (\<exists>pa k1. palloc_grants kv pid k pa k1 \<and> (\<forall>m. palloc_serves kv pid n (k1\<lparr>phys := m\<rparr>)))"

text \<open>\<open>in_use k x\<close>: the page of the physical address \<open>x\<close> is allocated.\<close>

definition page_in_use :: "kstate \<Rightarrow> u64 \<Rightarrow> bool" where
  "page_in_use k x \<longleftrightarrow> refcount (pageinfo k ! (unat x div 4096)) \<noteq> 0"

definition pages_granted :: "kstate \<Rightarrow> u64 list \<Rightarrow> bool" where
  "pages_granted k ps \<longleftrightarrow> distinct ps \<and>
     (\<forall>pa\<in>set ps. page_aligned pa \<and> unat pa < 0x200000 \<and> \<not> page_in_use k pa)"

definition own_pages :: "u32 \<Rightarrow> u64 list \<Rightarrow> physical_pageinfo list \<Rightarrow> physical_pageinfo list" where
  "own_pages pid = fold (\<lambda>pa pi. pi[unat pa div 4096 := \<lparr>pg_owner = ucast pid, refcount = 1\<rparr>])"

lemma palloc_grantsD:
  assumes "palloc_grants kv pid k pa k1"
  shows "palloc kv pid k = ret (pa, k1)" "pa \<noteq> 0" "page_aligned pa" "unat pa < 0x200000" "\<not> page_in_use k pa"
    "same_outside {pa} (phys k) (phys k1)"
    "k1 = k\<lparr>phys := phys k1, pageinfo := own_pages pid [pa] (pageinfo k)\<rparr>"
  using assms unfolding palloc_grants_def page_in_use_def same_outside_def outside_pages_def own_pages_def by auto

lemma page_in_use_granted:
  assumes "palloc_grants kv pid k pa k1" and "length (pageinfo k) = 512"
  shows "page_in_use (k1\<lparr>phys := m\<rparr>) x \<longleftrightarrow> unat x div 4096 = unat pa div 4096 \<or> page_in_use k x"
proof -
  note g = palloc_grantsD [OF assms(1)]
  have "unat pa div 4096 < 512"
    using g(4) by simp
  then show ?thesis
    by (subst g(7)) (auto simp: page_in_use_def own_pages_def nth_list_update assms(2))
qed

text \<open>One round of the loop: a page is granted and mapped.\<close>

lemma load_one_page:
  assumes v: "unat addr = 4096 * v" "v < 1024" "addr < end_mem"
    and p: "pt = p_pagetable (the_proc k i)" "pid = p_pid (the_proc k i)"
    and sh: "pt_shape (phys k) pt" and used: "\<forall>t\<in>tables (phys k) pt. page_in_use k t" and g: "palloc_grants kv pid k pa k1"
  shows "\<exists>m1. load_pages kv i end_mem addr k = load_pages kv i end_mem (addr + PAGESIZE) (k1\<lparr>phys := m1\<rparr>) \<and>
    pt_shape m1 pt \<and> tables m1 pt = tables (phys k) pt \<and> (\<forall>i<2. table4 m1 pt i = table4 (phys k) pt i) \<and>
    (\<forall>q<1024. pt_entry m1 pt q = (if q = v then pa OR 7 else pt_entry (phys k) pt q)) \<and>
    same_outside ({pa} \<union> {table4 (phys k) pt 0, table4 (phys k) pt 1}) (phys k) m1"
proof -
  note gd = palloc_grantsD [OF g]
  have pa: "{pa} \<inter> tables (phys k) pt = {}"
    using used gd(5) by auto
  have fr: "pt_shape (phys k1) pt" "tables (phys k1) pt = tables (phys k) pt" "\<And>i. i < 2 \<Longrightarrow> table4 (phys k1) pt i = table4 (phys k) pt i"
     "\<And>q. q < 1024 \<Longrightarrow> pt_entry (phys k1) pt q = pt_entry (phys k) pt q"
    using tables_outside [OF sh gd(6) _ pa] gd(3) by auto
  obtain m1 where m1: "virtual_memory_map pt addr pa PAGESIZE 7 (phys k1) = ret (0, m1)" "pt_shape m1 pt"
    "tables m1 pt = tables (phys k) pt" "\<forall>i<2. table4 m1 pt i = table4 (phys k) pt i"
    "\<forall>q<1024. pt_entry m1 pt q = (if q = v then pa OR 7 else pt_entry (phys k) pt q)"
    "same_outside {table4 (phys k) pt 0, table4 (phys k) pt 1} (phys k1) m1"
    using map_one_page [OF fr(1) v(1,2) gd(3,4), of 7] fr(2-4) by (auto simp: PTE_P_def)
  have "the_proc k1 i = the_proc k i"
    by (subst gd(7)) (simp add: the_proc_def)
  then have "load_pages kv i end_mem addr k = load_pages kv i end_mem (addr + PAGESIZE) (k1\<lparr>phys := m1\<rparr>)"
    using gd(1,2) m1(1) v(3) p by (subst load_pages.simps) (simp add: pte_bits)
  then show ?thesis
    using m1(2-5) same_outside_trans [OF gd(6) m1(6)] by blast
qed

lemma load_pages_ok:
  assumes "unat addr = 4096 * v" and "v + n \<le> 1024" and "\<forall>j<n. 4096 * (v + j) < unat end_mem"
    and "unat end_mem \<le> 4096 * (v + n)" and "length (pageinfo k) = 512"
    and "pt = p_pagetable (the_proc k i)" and "pid = p_pid (the_proc k i)"
    and "pt_shape (phys k) pt" and "\<forall>t\<in>tables (phys k) pt. page_in_use k t" and "palloc_serves kv pid n k"
  shows "\<exists>ps m. load_pages kv i end_mem addr k = ret (0, k\<lparr>phys := m, pageinfo := own_pages pid ps (pageinfo k)\<rparr>) \<and>
    length ps = n \<and> pages_granted k ps \<and> pt_shape m pt \<and> tables m pt = tables (phys k) pt \<and>
    (\<forall>i<2. table4 m pt i = table4 (phys k) pt i) \<and>
    (\<forall>q<1024. pt_entry m pt q = (if v \<le> q \<and> q < v + n then ps ! (q - v) OR 7 else pt_entry (phys k) pt q)) \<and>
    same_outside (set ps \<union> {table4 (phys k) pt 0, table4 (phys k) pt 1}) (phys k) m"
  using assms
proof (induction n arbitrary: addr v k)
  case 0
  then have "\<not> addr < end_mem"
    by (simp add: word_less_nat_alt)
  then show ?case
    using 0 by (intro exI [of _ "[]"] exI [of _ "phys k"])
      (auto simp: load_pages.simps own_pages_def pages_granted_def same_outside_def)
next
  case (Suc n)
  obtain pa k1 where g: "palloc_grants kv pid k pa k1" and more: "\<And>m. palloc_serves kv pid n (k1\<lparr>phys := m\<rparr>)"
    using Suc.prems(10) by auto
  note gd = palloc_grantsD [OF g]
  let ?L = "{table4 (phys k) pt 0, table4 (phys k) pt 1}"
  have v: "v < 1024"
    using Suc.prems(2) by simp
  have "addr < end_mem"
    using spec [OF Suc.prems(3), of 0] Suc.prems(1) by (simp add: word_less_nat_alt)
  from load_one_page [OF Suc.prems(1) v this Suc.prems(6-9) g] obtain m1 where
    run: "load_pages kv i end_mem addr k = load_pages kv i end_mem (addr + PAGESIZE) (k1\<lparr>phys := m1\<rparr>)"
    and m1: "pt_shape m1 pt" "tables m1 pt = tables (phys k) pt" "\<forall>i<2. table4 m1 pt i = table4 (phys k) pt i"
    "\<forall>q<1024. pt_entry m1 pt q = (if q = v then pa OR 7 else pt_entry (phys k) pt q)" "same_outside ({pa} \<union> ?L) (phys k) m1"
    by blast
  let ?k2 = "k1\<lparr>phys := m1\<rparr>"
  have k2: "?k2 = k\<lparr>phys := m1, pageinfo := own_pages pid [pa] (pageinfo k)\<rparr>"
    by (subst gd(7)) simp
  have use: "page_in_use ?k2 x \<longleftrightarrow> unat x div 4096 = unat pa div 4096 \<or> page_in_use k x" for x
    by (rule page_in_use_granted [OF g Suc.prems(5)])
  have "\<exists>ps m. load_pages kv i end_mem (addr + PAGESIZE) ?k2 = ret (0, ?k2\<lparr>phys := m, pageinfo := own_pages pid ps (pageinfo ?k2)\<rparr>) \<and>
    length ps = n \<and> pages_granted ?k2 ps \<and> pt_shape m pt \<and> tables m pt = tables (phys ?k2) pt \<and>
    (\<forall>i<2. table4 m pt i = table4 (phys ?k2) pt i) \<and>
    (\<forall>q<1024. pt_entry m pt q = (if Suc v \<le> q \<and> q < Suc v + n then ps ! (q - Suc v) OR 7 else pt_entry (phys ?k2) pt q)) \<and>
    same_outside (set ps \<union> {table4 (phys ?k2) pt 0, table4 (phys ?k2) pt 1}) (phys ?k2) m"
  proof (rule Suc.IH)
    show "unat (addr + PAGESIZE) = 4096 * Suc v"
      using Suc.prems(1) v by (simp add: PAGESIZE_def unat_word_ariths)
    show "\<forall>j<n. 4096 * (Suc v + j) < unat end_mem"
      using Suc.prems(3) by (metis add_Suc_shift Suc_less_eq)
    show "length (pageinfo ?k2) = 512"
      using Suc.prems(5) by (simp add: k2 own_pages_def)
    show "\<forall>t\<in>tables (phys ?k2) pt. page_in_use ?k2 t"
      using Suc.prems(9) m1(2) by (simp add: use)
    show "palloc_serves kv pid n ?k2"
      by (rule more)
  qed (use Suc.prems m1 in \<open>simp_all add: k2 the_proc_def\<close>)
  then obtain ps m where IH: "load_pages kv i end_mem (addr + PAGESIZE) ?k2 = ret (0, ?k2\<lparr>phys := m, pageinfo := own_pages pid ps (pageinfo ?k2)\<rparr>)"
    "length ps = n" "pages_granted ?k2 ps" "pt_shape m pt" "tables m pt = tables m1 pt"
    "\<forall>i<2. table4 m pt i = table4 m1 pt i"
    "\<forall>q<1024. pt_entry m pt q = (if Suc v \<le> q \<and> q < Suc v + n then ps ! (q - Suc v) OR 7 else pt_entry m1 pt q)"
    "same_outside (set ps \<union> {table4 m1 pt 0, table4 m1 pt 1}) m1 m"
    by auto
  have granted: "pages_granted k (pa # ps)"
  proof -
    have "pa \<notin> set ps"
      using IH(3) use [of pa] by (auto simp: pages_granted_def)
    then show ?thesis
      using IH(3) gd(3,4,5) use by (auto simp: pages_granted_def)
  qed
  have ent: "pt_entry m pt q = (if v \<le> q \<and> q < v + Suc n then (pa # ps) ! (q - v) OR 7 else pt_entry (phys k) pt q)" if "q < 1024" for q
    using IH(7) m1(4) that by (cases "q = v") (auto simp: Suc_diff_le nth_Cons' dest: le_neq_implies_less)
  have same: "same_outside (set (pa # ps) \<union> ?L) (phys k) m"
    using same_outside_trans [OF m1(5) IH(8)] m1(3)
    by (elim same_outside_mono) auto
  have res: "?k2\<lparr>phys := m, pageinfo := own_pages pid ps (pageinfo ?k2)\<rparr>
      = k\<lparr>phys := m, pageinfo := own_pages pid (pa # ps) (pageinfo k)\<rparr>"
    by (simp add: k2 own_pages_def)
  show ?case
    using run IH(1,2,4,5,6) m1(2,3) granted ent same unfolding res
    by (intro exI [of _ "pa # ps"] exI [of _ m]) auto
qed

section \<open>Copying through the page table\<close>

lemma of_nat_Suc_nonzero: "Suc n < 2 ^ 64 \<Longrightarrow> (of_nat (Suc n) :: u64) \<noteq> 0"
  unfolding word_unat_eq_iff by (subst unat_of_nat) (simp del: of_nat_Suc)

lemma translate_entry:
  assumes "pt_shape m pt" and "unat a < 0x400000" and "e = pt_entry m pt (unat a div 4096)"
    and "need = PTE_P \<or> need = PTE_P OR PTE_W" and "e AND need = need"
  shows "translate m need pt a = ret (PTE_ADDR e + PAGEOFFSET a)"
proof -
  let ?i = "unat a div 4096 div 512"
  have "?i < 2"
    using assms(2) by simp
  note l3 = shape_table4(2) [OF assms(1) this]
  have l1: "link_ok (entry_at m pt 0)" and l2: "link_ok (entry_at m (table2 m pt) 0)"
    using assms(1) unfolding pt_shape_def by auto
  have need: "x AND need = need" if "link_ok x" for x
    using that assms(4) by (intro bit_word_eqI) (auto simp: link_ok_def pte_bit bit_and_iff bit_or_iff)
  show ?thesis
    using need [OF l1] need [OF l2] need [OF l3] assms(3,5)
    by (simp add: translate_def Let_def low_indices [OF assms(2)] table2_def table3_def table4_def pt_entry_def
        numeral_2_eq_2 [symmetric])
qed

text \<open>The copy loops, for any map \<open>f\<close> that the page table realises as long as memory changes in \<open>G\<close> only.\<close>

lemma virt_memcpy_copies:
  assumes tr: "\<And>m' j. same_outside G m m' \<Longrightarrow> j < N \<Longrightarrow> translate m' (PTE_P OR PTE_W) pt (d + of_nat j) = ret (f j)"
    and ts: "\<And>m' j. same_outside G m m' \<Longrightarrow> j < N \<Longrightarrow> translate m' PTE_P pt (s + of_nat j) = ret (s + of_nat j)"
    and inj: "inj_on f {..<N}" and G: "\<And>j. j < N \<Longrightarrow> \<not> outside_pages G (f j)"
    and src: "\<And>j. j < N \<Longrightarrow> outside_pages G (s + of_nat j)" and N: "N < 2 ^ 64"
  shows "\<exists>m'. virt_memcpy pt d s (of_nat N) m = ret m' \<and> same_outside G m m' \<and>
    (\<forall>j<N. m' (f j) = m (s + of_nat j)) \<and> (\<forall>x. x \<notin> f ` {..<N} \<longrightarrow> m' x = m x)"
proof -
  have "\<exists>m'. virt_memcpy pt (d + of_nat j) (s + of_nat j) (of_nat n) m1 = ret m' \<and> same_outside G m m' \<and>
    (\<forall>i\<in>{j..<N}. m' (f i) = m (s + of_nat i)) \<and> (\<forall>x. x \<notin> f ` {j..<N} \<longrightarrow> m' x = m1 x)"
    if "j + n = N" "same_outside G m m1" for j n m1
    using that
  proof (induction n arbitrary: j m1)
    case 0
    then show ?case
      by (simp add: virt_memcpy.simps)
  next
    case (Suc n)
    let ?m = "m1(f j := m1 (s + of_nat j))"
    have j: "j < N"
      using Suc.prems by simp
    have nz: "(of_nat (Suc n) :: u64) \<noteq> 0"
      by (rule of_nat_Suc_nonzero) (use Suc.prems(1) N in simp)
    have run: "virt_memcpy pt (d + of_nat j) (s + of_nat j) (of_nat (Suc n)) m1
        = virt_memcpy pt (d + of_nat (Suc j)) (s + of_nat (Suc j)) (of_nat n) ?m"
      using tr [OF Suc.prems(2) j] ts [OF Suc.prems(2) j] nz
      by (subst virt_memcpy.simps) (simp add: add_ac)
    have "same_outside G m ?m"
      using Suc.prems(2) G [OF j] by (auto simp: same_outside_def)
    moreover have "Suc j + n = N"
      using Suc.prems(1) by simp
    ultimately obtain m' where m': "virt_memcpy pt (d + of_nat (Suc j)) (s + of_nat (Suc j)) (of_nat n) ?m = ret m'"
      "same_outside G m m'" "\<forall>i\<in>{Suc j..<N}. m' (f i) = m (s + of_nat i)" "\<forall>x. x \<notin> f ` {Suc j..<N} \<longrightarrow> m' x = ?m x"
      using Suc.IH [of "Suc j" ?m] by blast
    have "f j \<notin> f ` {Suc j..<N}"
      using inj j by (fastforce simp: inj_on_def)
    then have "m' (f j) = m (s + of_nat j)"
      using m'(4) Suc.prems(2) src [OF j] by (simp add: same_outside_def)
    then have "\<forall>i\<in>{j..<N}. m' (f i) = m (s + of_nat i)"
      using m'(3) by (auto simp: Suc_le_eq le_less)
    moreover have "{j..<N} = insert j {Suc j..<N}"
      using j by auto
    then have "\<forall>x. x \<notin> f ` {j..<N} \<longrightarrow> m' x = m1 x"
      using m'(4) by auto
    ultimately show ?case
      using run m'(1,2) by auto
  qed
  from this [of 0 N m] show ?thesis
    by (simp add: same_outside_def atLeast0LessThan Ball_def)
qed

lemma virt_memset_fills:
  assumes tr: "\<And>m' j. same_outside G m m' \<Longrightarrow> j < N \<Longrightarrow> translate m' (PTE_P OR PTE_W) pt (d + of_nat j) = ret (f j)"
    and G: "\<And>j. j < N \<Longrightarrow> \<not> outside_pages G (f j)" and N: "N < 2 ^ 64"
  shows "\<exists>m'. virt_memset pt d c (of_nat N) m = ret m' \<and> same_outside G m m' \<and>
    (\<forall>x. m' x = (if x \<in> f ` {..<N} then c else m x))"
proof -
  have "\<exists>m'. virt_memset pt (d + of_nat j) c (of_nat n) m1 = ret m' \<and> same_outside G m m' \<and>
    (\<forall>x. m' x = (if x \<in> f ` {j..<N} then c else m1 x))"
    if "j + n = N" "same_outside G m m1" for j n m1
    using that
  proof (induction n arbitrary: j m1)
    case 0
    then show ?case
      by (simp add: virt_memset.simps)
  next
    case (Suc n)
    let ?m = "m1(f j := c)"
    have j: "j < N"
      using Suc.prems by simp
    have nz: "(of_nat (Suc n) :: u64) \<noteq> 0"
      by (rule of_nat_Suc_nonzero) (use Suc.prems(1) N in simp)
    have run: "virt_memset pt (d + of_nat j) c (of_nat (Suc n)) m1 = virt_memset pt (d + of_nat (Suc j)) c (of_nat n) ?m"
      using tr [OF Suc.prems(2) j] nz by (subst virt_memset.simps) (simp add: add_ac)
    have "same_outside G m ?m"
      using Suc.prems(2) G [OF j] by (auto simp: same_outside_def)
    moreover have "Suc j + n = N"
      using Suc.prems(1) by simp
    ultimately obtain m' where m': "virt_memset pt (d + of_nat (Suc j)) c (of_nat n) ?m = ret m'"
      "same_outside G m m'" "\<forall>x. m' x = (if x \<in> f ` {Suc j..<N} then c else ?m x)"
      using Suc.IH [of "Suc j" ?m] by blast
    have "{j..<N} = insert j {Suc j..<N}"
      using j by auto
    then have "\<forall>x. m' x = (if x \<in> f ` {j..<N} then c else m1 x)"
      using m'(3) by auto
    then show ?case
      using run m'(1,2) by auto
  qed
  from this [of 0 N m] show ?thesis
    by (simp add: same_outside_def atLeast0LessThan)
qed

section \<open>Removing write access\<close>

lemma entry_page:
  assumes "page_aligned g" and "e = g OR 7 \<or> e = g OR 5"
  shows "PTE_ADDR e = g" and "e AND PTE_P = PTE_P" and "e = g OR 7 \<Longrightarrow> e AND (PTE_P OR PTE_W) = PTE_P OR PTE_W"
proof -
  show "PTE_ADDR e = g"
    using assms entry_parts(1) [OF assms(1), of 7] entry_parts(1) [OF assms(1), of 5] by auto
  have odd: "bit (5 :: u64) 0" "bit (7 :: u64) 0" "bit (7 :: u64) 1"
    by (simp_all add: bit_numeral_rec)
  show "e AND PTE_P = PTE_P"
    using assms(2) odd by (intro bit_word_eqI) (auto simp: bit_and_iff bit_or_iff)
  show "e AND (PTE_P OR PTE_W) = PTE_P OR PTE_W" if "e = g OR 7"
    using that odd by (intro bit_word_eqI) (auto simp: bit_and_iff bit_or_iff)
qed

lemma lookup_page:
  assumes "pt_shape m pt" and "unat a < 0x400000" and "pt_entry m pt (unat a div 4096) = g OR perm"
    and "page_aligned g" and "perm = 7 \<or> perm = 5"
  shows "virtual_memory_lookup m pt a = \<lparr>vam_pn = PAGENUMBER g, vam_pa = g + PAGEOFFSET a, vam_perm = ucast perm\<rparr>"
proof -
  have "unat perm < 4096" "perm AND PTE_P \<noteq> 0"
    using assms(5) by (auto simp: PTE_P_def)
  then show ?thesis
    using entry_parts [OF assms(4), of perm]
    by (simp add: lookup_decode [OF assms(1,2)] assms(3) decode_def PAGENUMBER_def)
qed

lemma protect_pages_ok:
  assumes "unat addr = 4096 * v" and "v + n \<le> 1024" and "\<forall>j<n. 4096 * (v + j) < unat end_mem"
    and "unat end_mem \<le> 4096 * (v + n)" and "pt_shape m pt"
    and "\<And>q. v \<le> q \<Longrightarrow> q < v + n \<Longrightarrow> pt_entry m pt q = g q OR 7 \<and> page_aligned (g q) \<and> unat (g q) < 0x200000"
  shows "\<exists>m'. protect_pages pt end_mem addr m = ret m' \<and> pt_shape m' pt \<and>
    (\<forall>q<1024. pt_entry m' pt q = (if v \<le> q \<and> q < v + n then g q OR 5 else pt_entry m pt q)) \<and>
    same_outside {table4 m pt 0, table4 m pt 1} m m'"
  using assms
proof (induction n arbitrary: addr v m)
  case 0
  then have "\<not> addr < end_mem"
    by (simp add: word_less_nat_alt)
  then show ?case
    using 0 by (intro exI [of _ m]) (auto simp: protect_pages.simps same_outside_def)
next
  case (Suc n)
  let ?L = "{table4 m pt 0, table4 m pt 1}"
  have v: "v < 1024" "unat addr < 0x400000" "unat addr div 4096 = v"
    using Suc.prems(1,2) by auto
  have gv: "pt_entry m pt v = g v OR 7" "page_aligned (g v)" "unat (g v) < 0x200000"
    using Suc.prems(6) [of v] by auto
  have "PAGEOFFSET addr = 0"
    using Suc.prems(1) by (simp add: word_unat_eq_iff unat_PAGEOFFSET)
  then have pa: "vam_pa (virtual_memory_lookup m pt addr) = g v"
    using lookup_page [OF Suc.prems(5) v(2), of "g v" 7] gv v(3) by simp
  obtain m1 where m1: "virtual_memory_map pt addr (g v) PAGESIZE 5 m = ret (0, m1)" "pt_shape m1 pt"
    "\<forall>i<2. table4 m1 pt i = table4 m pt i"
    "\<forall>q<1024. pt_entry m1 pt q = (if q = v then g v OR 5 else pt_entry m pt q)" "same_outside ?L m m1"
    using map_one_page [OF Suc.prems(5,1) v(1) gv(2,3), of 5] by (auto simp: PTE_P_def)
  have "\<exists>m'. protect_pages pt end_mem (addr + PAGESIZE) m1 = ret m' \<and> pt_shape m' pt \<and>
    (\<forall>q<1024. pt_entry m' pt q = (if Suc v \<le> q \<and> q < Suc v + n then g q OR 5 else pt_entry m1 pt q)) \<and>
    same_outside {table4 m1 pt 0, table4 m1 pt 1} m1 m'"
  proof (rule Suc.IH)
    show "unat (addr + PAGESIZE) = 4096 * Suc v"
      using Suc.prems(1) v by (simp add: PAGESIZE_def unat_word_ariths)
    show "\<forall>j<n. 4096 * (Suc v + j) < unat end_mem"
      using Suc.prems(3) by (metis add_Suc_shift Suc_less_eq)
    show "pt_entry m1 pt q = g q OR 7 \<and> page_aligned (g q) \<and> unat (g q) < 0x200000" if "Suc v \<le> q" "q < Suc v + n" for q
      using Suc.prems(6) [of q] Suc.prems(2) m1(4) that by auto
  qed (use Suc.prems m1 in simp_all)
  then obtain m' where m': "protect_pages pt end_mem (addr + PAGESIZE) m1 = ret m'" "pt_shape m' pt"
    "\<forall>q<1024. pt_entry m' pt q = (if Suc v \<le> q \<and> q < Suc v + n then g q OR 5 else pt_entry m1 pt q)"
    "same_outside ?L m1 m'"
    using m1(3) by auto
  have "addr < end_mem"
    using spec [OF Suc.prems(3), of 0] Suc.prems(1) by (simp add: word_less_nat_alt)
  then have "protect_pages pt end_mem addr m = ret m'"
    using pa m1(1) m'(1) by (subst protect_pages.simps) (simp add: pte_bits)
  moreover have "\<forall>q<1024. pt_entry m' pt q = (if v \<le> q \<and> q < v + Suc n then g q OR 5 else pt_entry m pt q)"
    using m'(3) m1(4) by (auto simp: not_less_eq_eq dest: le_neq_implies_less)
  ultimately show ?case
    using m'(2) same_outside_trans [OF m1(5) m'(4)] by auto
qed

section \<open>The bytes of a segment\<close>

lemma unat_page_base: "unat (PTE_ADDR a) = 4096 * (unat a div 4096)"
proof -
  have "(0xFFF :: u64) = mask 12"
    by (simp add: mask_eq_exp_minus_1)
  then show ?thesis
    by (simp only: PTE_ADDR_def unat_and_not_mask) (simp add: minus_mod_eq_mult_div)
qed

text \<open>\<open>seg_byte ps j\<close>: where byte \<open>j\<close> of a segment is, when its pages are \<open>ps\<close>.\<close>

definition seg_byte :: "u64 list \<Rightarrow> nat \<Rightarrow> u64" where
  "seg_byte ps j = ps ! (j div 4096) + of_nat (j mod 4096)"

lemma seg_byte_page:
  assumes "\<forall>pa\<in>set ps. page_aligned pa" and "j < 4096 * length ps"
  shows "unat (seg_byte ps j) = unat (ps ! (j div 4096)) + j mod 4096"
    and "in_page (ps ! (j div 4096)) (seg_byte ps j)" and "ps ! (j div 4096) \<in> set ps"
proof -
  have "j div 4096 < length ps"
    using assms(2) by (simp add: div_less_iff_less_mult mult.commute)
  then show mem: "ps ! (j div 4096) \<in> set ps"
    by simp
  then have "unat (ps ! (j div 4096)) + 4096 \<le> 2 ^ 64"
    using assms(1) by (intro page_aligned_room) auto
  then have "unat (ps ! (j div 4096)) + j mod 4096 < 2 ^ 64"
    by (meson add_strict_left_mono less_le_trans mod_less_divisor zero_less_numeral)
  then show u: "unat (seg_byte ps j) = unat (ps ! (j div 4096)) + j mod 4096"
    by (simp add: seg_byte_def unat_word_ariths unat_of_nat)
  show "in_page (ps ! (j div 4096)) (seg_byte ps j)"
    by (simp add: in_page_def u)
qed

lemma seg_byte_inj:
  assumes "\<forall>pa\<in>set ps. page_aligned pa" and "distinct ps"
  shows "inj_on (seg_byte ps) {..<4096 * length ps}"
proof (rule inj_onI)
  fix i j assume "i \<in> {..<4096 * length ps}" "j \<in> {..<4096 * length ps}" and eq: "seg_byte ps i = seg_byte ps j"
  then have i: "i < 4096 * length ps" and j: "j < 4096 * length ps"
    by auto
  note pi = seg_byte_page [OF assms(1) i] and pj = seg_byte_page [OF assms(1) j]
  have "ps ! (i div 4096) = ps ! (j div 4096)"
  proof (rule ccontr)
    assume "ps ! (i div 4096) \<noteq> ps ! (j div 4096)"
    then show False
      using pages_apart [of "ps ! (i div 4096)" "ps ! (j div 4096)"] assms(1) pi(2,3) pj(2,3)
      by (auto simp: in_page_def eq)
  qed
  moreover have "i div 4096 < length ps" "j div 4096 < length ps"
    using i j by (simp_all add: div_less_iff_less_mult mult.commute)
  ultimately have "i div 4096 = j div 4096"
    using assms(2) by (simp add: nth_eq_iff_index_eq)
  moreover have "i mod 4096 = j mod 4096"
    using pi(1) pj(1) eq calculation by simp
  ultimately show "i = j"
    by (metis div_mult_mod_eq)
qed

text \<open>The pages of a segment are mapped to \<open>ps\<close>: what the process finds at byte \<open>j\<close>.\<close>

lemma segment_translate:
  assumes sh: "pt_shape m pt" and base: "unat va = 4096 * v" "v + length ps \<le> 1024"
    and ps: "\<forall>pa\<in>set ps. page_aligned pa"
    and ent: "\<And>q. v \<le> q \<Longrightarrow> q < v + length ps \<Longrightarrow> pt_entry m pt q = ps ! (q - v) OR perm"
    and perm: "perm = 7 \<or> perm = 5" and j: "j < 4096 * length ps"
  shows "virtual_memory_lookup m pt (va + of_nat j)
      = \<lparr>vam_pn = PAGENUMBER (ps ! (j div 4096)), vam_pa = seg_byte ps j, vam_perm = ucast perm\<rparr>"
    and "perm = 7 \<Longrightarrow> translate m (PTE_P OR PTE_W) pt (va + of_nat j) = ret (seg_byte ps j)"
proof -
  have j': "j div 4096 < length ps"
    using j by (simp add: div_less_iff_less_mult mult.commute)
  have u: "unat (va + of_nat j) = 4096 * v + j"
    using base j by (simp add: unat_word_ariths unat_of_nat)
  then have small: "unat (va + of_nat j) < 0x400000" and q: "unat (va + of_nat j) div 4096 = v + j div 4096"
    using base j by (simp_all add: div_add1_eq [of "4096 * v"])
  have e: "pt_entry m pt (unat (va + of_nat j) div 4096) = ps ! (j div 4096) OR perm"
    using ent [of "v + j div 4096"] j' q by simp
  have al: "page_aligned (ps ! (j div 4096))"
    using ps j' by simp
  have off: "PAGEOFFSET (va + of_nat j) = of_nat (j mod 4096)"
    using u by (simp add: word_unat_eq_iff unat_PAGEOFFSET unat_of_nat)
  show "virtual_memory_lookup m pt (va + of_nat j)
      = \<lparr>vam_pn = PAGENUMBER (ps ! (j div 4096)), vam_pa = seg_byte ps j, vam_perm = ucast perm\<rparr>"
    using lookup_page [OF sh small e al perm] by (simp add: off seg_byte_def)
  show "translate m (PTE_P OR PTE_W) pt (va + of_nat j) = ret (seg_byte ps j)" if "perm = 7"
    using translate_entry [OF sh small e [symmetric], of "PTE_P OR PTE_W"] entry_page [OF al, of "ps ! (j div 4096) OR 7"] that
    by (simp add: off seg_byte_def)
qed

lemma translate_identity:
  assumes "pt_shape m pt" and "vam_pa (virtual_memory_lookup m pt a) = a" and "unat a < 0x400000"
  shows "translate m PTE_P pt a = ret a"
proof -
  let ?e = "pt_entry m pt (unat a div 4096)"
  have "a \<noteq> - 1"
    using assms(3) by (auto simp: unsigned_minus_1_eq_mask mask_eq_exp_minus_1)
  then have "?e AND PTE_P \<noteq> 0" "PTE_ADDR ?e + PAGEOFFSET a = a"
    using assms(2) by (auto simp: lookup_decode [OF assms(1,3)] decode_def split: if_splits)
  moreover have "?e AND PTE_P = PTE_P"
    using calculation(1) by (intro bit_word_eqI) (auto simp: pte_bit bit_and_iff)
  ultimately show ?thesis
    using translate_entry [OF assms(1,3) refl, of PTE_P] by simp
qed

lemma segment_copied:
  assumes sh: "pt_shape m pt" and base: "unat va = 4096 * v" "v + length ps \<le> 1024"
    and ps: "\<forall>pa\<in>set ps. page_aligned pa" "distinct ps" "set ps \<inter> tables m pt = {}"
    and ent: "\<And>q. v \<le> q \<Longrightarrow> q < v + length ps \<Longrightarrow> pt_entry m pt q = ps ! (q - v) OR 7"
    and len: "len \<le> memsz" "memsz \<le> 4096 * length ps"
    and src: "\<And>j. j < len \<Longrightarrow> vam_pa (virtual_memory_lookup m pt (src + of_nat j)) = src + of_nat j \<and>
      unat (src + of_nat j) < 0x400000 \<and> outside_pages (set ps) (src + of_nat j)"
  shows "\<exists>m2 m3. virt_memcpy pt va src (of_nat len) m = ret m2 \<and>
    virt_memset pt (va + of_nat len) 0 (of_nat (memsz - len)) m2 = ret m3 \<and> same_outside (set ps) m m3 \<and>
    (\<forall>j<len. m3 (seg_byte ps j) = m (src + of_nat j)) \<and> (\<forall>j. len \<le> j \<and> j < memsz \<longrightarrow> m3 (seg_byte ps j) = 0)"
proof -
  have kept: "pt_shape m' pt" "q < 1024 \<Longrightarrow> pt_entry m' pt q = pt_entry m pt q" if "same_outside (set ps) m m'" for m' q
    using tables_outside [OF sh that ps(1,3)] by auto
  have tr: "translate m' (PTE_P OR PTE_W) pt (va + of_nat j) = ret (seg_byte ps j)"
    if "same_outside (set ps) m m'" "j < memsz" for m' j
  proof (rule segment_translate(2) [OF kept(1) [OF that(1)] base ps(1), of 7 j])
    show "pt_entry m' pt q = ps ! (q - v) OR 7" if "v \<le> q" "q < v + length ps" for q
      using ent [OF that] kept(2) [OF \<open>same_outside (set ps) m m'\<close>, of q] that base(2) by simp
  qed (use that len in auto)
  have ts: "translate m' PTE_P pt (src + of_nat j) = ret (src + of_nat j)"
    if "same_outside (set ps) m m'" "j < len" for m' j
    using kept [OF that(1)] src [OF that(2)] that
    by (intro translate_identity) (auto simp: lookup_decode [OF sh] lookup_decode [OF kept(1) [OF that(1)]])
  have big: "memsz - len < 2 ^ 64" "len < 2 ^ 64"
    using len base by simp_all
  have inside: "\<not> outside_pages (set ps) (seg_byte ps j)" if "j < memsz" for j
    using seg_byte_page(2,3) [OF ps(1), of j] that len by (auto simp: outside_pages_def)
  have inj: "inj_on (seg_byte ps) {..<memsz}"
    using seg_byte_inj [OF ps(1,2)] len by (auto elim: inj_on_subset)
  obtain m2 where m2: "virt_memcpy pt va src (of_nat len) m = ret m2" "same_outside (set ps) m m2"
    "\<forall>j<len. m2 (seg_byte ps j) = m (src + of_nat j)"
    using virt_memcpy_copies [of "set ps" m len pt va "seg_byte ps" src] tr ts inside src len big
      inj_on_subset [OF inj, of "{..<len}"] by auto
  have tr2: "translate m' (PTE_P OR PTE_W) pt (va + of_nat len + of_nat j) = ret (seg_byte ps (len + j))"
    if "same_outside (set ps) m2 m'" "j < memsz - len" for m' j
    using tr [of m' "len + j"] same_outside_trans [OF m2(2) that(1)] that(2) by (simp add: add.assoc)
  obtain m3 where m3: "virt_memset pt (va + of_nat len) 0 (of_nat (memsz - len)) m2 = ret m3" "same_outside (set ps) m2 m3"
    "\<forall>x. m3 x = (if x \<in> (\<lambda>j. seg_byte ps (len + j)) ` {..<memsz - len} then 0 else m2 x)"
    using virt_memset_fills [of "set ps" m2 "memsz - len" pt "va + of_nat len" "\<lambda>j. seg_byte ps (len + j)" 0] tr2 inside big
    by auto
  have "m3 (seg_byte ps j) = m (src + of_nat j)" if "j < len" for j
  proof -
    have "seg_byte ps j \<notin> (\<lambda>j. seg_byte ps (len + j)) ` {..<memsz - len}"
      using that len(1) by (auto dest: inj_onD [OF inj, of j])
    then show ?thesis
      using m3(3) m2(3) that by simp
  qed
  moreover have "m3 (seg_byte ps j) = 0" if "len \<le> j" "j < memsz" for j
  proof -
    have "seg_byte ps j \<in> (\<lambda>j. seg_byte ps (len + j)) ` {..<memsz - len}"
      using that by (intro image_eqI [of _ _ "j - len"]) auto
    then show ?thesis
      using m3(3) by simp
  qed
  ultimately show ?thesis
    using m2(1) m3(1) same_outside_trans [OF m2(2) m3(2)] by auto
qed

section \<open>Loading a segment\<close>

text \<open>\<open>kernel_bytes k pt a n\<close>: \<open>n\<close> bytes of the kernel image from \<open>a\<close> on, below the memory of processes, in allocated
  pages that are not page tables, and identity mapped by \<open>pt\<close>.\<close>

definition kernel_bytes :: "kstate \<Rightarrow> u64 \<Rightarrow> u64 \<Rightarrow> nat \<Rightarrow> bool" where
  "kernel_bytes k pt a n \<longleftrightarrow>
     (\<forall>j<n. unat (a + of_nat j) < 0x100000 \<and> page_in_use k (a + of_nat j) \<and>
        outside_pages (tables (phys k) pt) (a + of_nat j) \<and>
        vam_pa (virtual_memory_lookup (phys k) pt (a + of_nat j)) = a + of_nat j)"

text \<open>A page table and the kernel's page table are complete, allocated, do not share level-4 pages (unless they
  are the same table), and may be loaded.\<close>

definition loadable_table :: "link_map \<Rightarrow> kstate \<Rightarrow> u64 \<Rightarrow> bool" where
  "loadable_table lm k pt \<longleftrightarrow>
     length (pageinfo k) = 512 \<and>
     pt_shape (phys k) pt \<and> (\<forall>t\<in>tables (phys k) pt. page_in_use k t) \<and>
     pt_shape (phys k) (kernel_pagetable k) \<and> (\<forall>t\<in>tables (phys k) (kernel_pagetable k). page_in_use k t) \<and>
     (pt = kernel_pagetable k \<or>
      {table4 (phys k) pt 0, table4 (phys k) pt 1} \<inter> tables (phys k) (kernel_pagetable k) = {}) \<and>
     (\<forall>a\<in>{default_int_handler lm, kernel_pagetable k, pt, virtual_memory_map_addr lm}. unat a < 0x100000) \<and>
     set_pagetable lm (kernel_pagetable k) pt (phys k) = ret pt \<and>
     set_pagetable lm (kernel_pagetable k) (kernel_pagetable k) (phys k) = ret (kernel_pagetable k)"

lemma set_pagetable_kept:
  assumes "set_pagetable lm kpt pt m = ret pt"
    and "\<And>a. unat a < 0x100000 \<Longrightarrow> virtual_memory_lookup m' pt a = virtual_memory_lookup m pt a"
    and "\<And>a. unat a < 0x100000 \<Longrightarrow> virtual_memory_lookup m' kpt a = virtual_memory_lookup m kpt a"
    and "\<forall>a\<in>{default_int_handler lm, kpt, pt, virtual_memory_map_addr lm}. unat a < 0x100000"
  shows "set_pagetable lm kpt pt m' = ret pt"
  using assms by (simp add: set_pagetable_def)

text \<open>What loading leaves in place: the memory changes only in pages that were free and in the level-4 tables, in which
  the entries of the low pages stay.\<close>

lemma low_lookups_kept:
  assumes lt: "loadable_table lm k pt" and ps: "pages_granted k ps"
    and sh: "pt_shape m pt" and ent: "\<And>q. q < 256 \<Longrightarrow> pt_entry m pt q = pt_entry (phys k) pt q"
    and same: "same_outside (set ps \<union> {table4 (phys k) pt 0, table4 (phys k) pt 1}) (phys k) m"
  shows "unat a < 0x100000 \<Longrightarrow> virtual_memory_lookup m pt a = virtual_memory_lookup (phys k) pt a"
    and "unat a < 0x100000 \<Longrightarrow>
      virtual_memory_lookup m (kernel_pagetable k) a = virtual_memory_lookup (phys k) (kernel_pagetable k) a"
    and "pt_shape m (kernel_pagetable k)"
proof -
  let ?kpt = "kernel_pagetable k" and ?G = "set ps \<union> {table4 (phys k) pt 0, table4 (phys k) pt 1}"
  have sh0: "pt_shape (phys k) pt" "pt_shape (phys k) ?kpt"
    using lt by (auto simp: loadable_table_def)
  show pt: "virtual_memory_lookup m pt a = virtual_memory_lookup (phys k) pt a" if "unat a < 0x100000" for a
    using that ent [of "unat a div 4096"] by (simp add: lookup_decode [OF sh] lookup_decode [OF sh0(1)])
  have "pt_shape m ?kpt \<and> (\<forall>q<256. pt_entry m ?kpt q = pt_entry (phys k) ?kpt q)"
  proof (cases "pt = ?kpt")
    case True
    then show ?thesis
      using sh ent by simp
  next
    case False
    have "?G \<inter> tables (phys k) ?kpt = {}"
      using lt ps False by (auto simp: loadable_table_def pages_granted_def)
    moreover have "\<forall>g\<in>?G. page_aligned g"
      using ps by (auto simp: pages_granted_def)
    ultimately show ?thesis
      using tables_outside [OF sh0(2) same] by auto
  qed
  then show "pt_shape m ?kpt" "unat a < 0x100000 \<Longrightarrow> virtual_memory_lookup m ?kpt a = virtual_memory_lookup (phys k) ?kpt a"
    by (simp_all add: lookup_decode [of m ?kpt] lookup_decode [OF sh0(2)])
qed

lemma in_page_use: "page_aligned pa \<Longrightarrow> in_page pa x \<Longrightarrow> page_in_use k x = page_in_use k pa"
proof -
  assume "page_aligned pa" "in_page pa x"
  then obtain c where "unat pa = 4096 * c" "4096 * c \<le> unat x" "unat x < 4096 * c + 4096"
    by (auto simp: page_aligned_iff in_page_def)
  then have "unat x div 4096 = unat pa div 4096"
    using same_page_iff [of c x] by simp
  then show ?thesis
    by (simp add: page_in_use_def)
qed

lemma kernel_bytes_kept:
  assumes "kernel_bytes k pt a n" and "pages_granted k ps" and "j < n"
  shows "outside_pages (set ps) (a + of_nat j)"
    and "same_outside (set ps \<union> {table4 (phys k) pt 0, table4 (phys k) pt 1}) (phys k) m \<Longrightarrow> m (a + of_nat j) = phys k (a + of_nat j)"
proof -
  show out: "outside_pages (set ps) (a + of_nat j)"
    using assms in_page_use [of _ "a + of_nat j" k] by (fastforce simp: kernel_bytes_def pages_granted_def outside_pages_def)
  show "m (a + of_nat j) = phys k (a + of_nat j)"
    if "same_outside (set ps \<union> {table4 (phys k) pt 0, table4 (phys k) pt 1}) (phys k) m"
    using that out assms(1,3) by (simp add: same_outside_def outside_pages_def kernel_bytes_def tables_def)
qed

text \<open>The first half of \<open>program_load_segment\<close>: \<open>memsz\<close> bytes from the page \<open>v\<close> on, of which \<open>len\<close> come from the file.\<close>

lemma segment_prepared:
  assumes pt: "pt = p_pagetable (the_proc k i)" and pid: "pid = p_pid (the_proc k i)"
    and lt: "loadable_table lm k pt" and va: "unat va = 4096 * v" "256 \<le> v" "v + n \<le> 1024"
    and em: "unat end_mem = 4096 * v + memsz" "memsz \<le> 4096 * n" "4096 * n < memsz + 4096" and len: "len \<le> memsz"
    and src: "kernel_bytes k pt src len" and serves: "palloc_serves kv pid n k"
  shows "\<exists>ps m1 m2 m3. length ps = n \<and> pages_granted k ps \<and>
    load_pages kv i end_mem va k = ret (0, k\<lparr>phys := m1, pageinfo := own_pages pid ps (pageinfo k)\<rparr>) \<and>
    set_pagetable lm (kernel_pagetable k) pt m1 = ret pt \<and> virt_memcpy pt va src (of_nat len) m1 = ret m2 \<and>
    virt_memset pt (va + of_nat len) 0 (of_nat (memsz - len)) m2 = ret m3 \<and>
    set_pagetable lm (kernel_pagetable k) (kernel_pagetable k) m3 = ret (kernel_pagetable k) \<and>
    pt_shape m3 pt \<and> (\<forall>i<2. table4 m3 pt i = table4 (phys k) pt i) \<and>
    (\<forall>q<1024. pt_entry m3 pt q = (if v \<le> q \<and> q < v + n then ps ! (q - v) OR 7 else pt_entry (phys k) pt q)) \<and>
    same_outside (set ps \<union> {table4 (phys k) pt 0, table4 (phys k) pt 1}) (phys k) m3 \<and>
    (\<forall>j < memsz. m3 (seg_byte ps j) = (if j < len then phys k (src + of_nat j) else 0))"
proof -
  let ?L = "{table4 (phys k) pt 0, table4 (phys k) pt 1}" and ?kpt = "kernel_pagetable k"
  note l = lt [unfolded loadable_table_def]
  have below: "\<forall>j<n. 4096 * (v + j) < unat end_mem"
  proof (intro allI impI)
    show "4096 * (v + j) < unat end_mem" if "j < n" for j
      using mult_le_mono2 [of "Suc j" n 4096] that em by simp
  qed
  have above: "unat end_mem \<le> 4096 * (v + n)"
    using em by simp
  from l have l5: "length (pageinfo k) = 512" and l8: "pt_shape (phys k) pt" and l9: "\<forall>t\<in>tables (phys k) pt. page_in_use k t"
    and low: "\<forall>a\<in>{default_int_handler lm, ?kpt, pt, virtual_memory_map_addr lm}. unat a < 0x100000"
    and set_pt: "set_pagetable lm ?kpt pt (phys k) = ret pt" and set_kpt: "set_pagetable lm ?kpt ?kpt (phys k) = ret ?kpt"
    by blast+
  from load_pages_ok [OF va(1,3) below above l5 pt pid l8 l9 serves]
  obtain ps m1 where ps: "load_pages kv i end_mem va k = ret (0, k\<lparr>phys := m1, pageinfo := own_pages pid ps (pageinfo k)\<rparr>)"
    "length ps = n" "pages_granted k ps" and m1: "pt_shape m1 pt" "tables m1 pt = tables (phys k) pt"
    "\<forall>i<2. table4 m1 pt i = table4 (phys k) pt i"
    "\<forall>q<1024. pt_entry m1 pt q = (if v \<le> q \<and> q < v + n then ps ! (q - v) OR 7 else pt_entry (phys k) pt q)"
    "same_outside (set ps \<union> ?L) (phys k) m1"
    by (elim exE conjE) (rule that)
  have al: "\<forall>pa\<in>set ps. page_aligned pa" "distinct ps" and off: "set ps \<inter> tables m1 pt = {}"
    using ps(3) l unfolding m1(2) by (auto simp: pages_granted_def)
  have low1: "virtual_memory_lookup m1 pt a = virtual_memory_lookup (phys k) pt a" if "unat a < 0x100000" for a
    using low_lookups_kept(1) [OF lt ps(3) m1(1) _ m1(5) that] m1(4) va(2) by simp
  have lowk: "virtual_memory_lookup m1 ?kpt a = virtual_memory_lookup (phys k) ?kpt a" if "unat a < 0x100000" for a
    using low_lookups_kept(2) [OF lt ps(3) m1(1) _ m1(5) that] m1(4) va(2) by simp
  have set1: "set_pagetable lm ?kpt pt m1 = ret pt"
    by (rule set_pagetable_kept [OF set_pt low1 lowk low])
  have srcs: "vam_pa (virtual_memory_lookup m1 pt (src + of_nat j)) = src + of_nat j \<and>
      unat (src + of_nat j) < 0x400000 \<and> outside_pages (set ps) (src + of_nat j)" if "j < len" for j
    using kernel_bytes_kept(1) [OF src ps(3) that] src that low1 by (auto simp: kernel_bytes_def)
  obtain m2 m3 where m23: "virt_memcpy pt va src (of_nat len) m1 = ret m2"
    "virt_memset pt (va + of_nat len) 0 (of_nat (memsz - len)) m2 = ret m3" "same_outside (set ps) m1 m3"
    "\<forall>j<len. m3 (seg_byte ps j) = m1 (src + of_nat j)" "\<forall>j. len \<le> j \<and> j < memsz \<longrightarrow> m3 (seg_byte ps j) = 0"
    using segment_copied [OF m1(1) va(1) _ al off _ len _ srcs] m1(4) va(3) em(2) ps(2) by auto
  note t3 = tables_outside [OF m1(1) m23(3) al(1) off]
  have ent3: "\<forall>q<1024. pt_entry m3 pt q = (if v \<le> q \<and> q < v + n then ps ! (q - v) OR 7 else pt_entry (phys k) pt q)"
    using t3(4) m1(4) by simp
  have same3: "same_outside (set ps \<union> ?L) (phys k) m3"
    using same_outside_trans [OF m1(5) m23(3)] by (simp add: Un_ac)
  have lowk3: "virtual_memory_lookup m3 ?kpt a = virtual_memory_lookup (phys k) ?kpt a" if "unat a < 0x100000" for a
    using low_lookups_kept(2) [OF lt ps(3) t3(1) _ same3 that] ent3 va(2) by simp
  have set3: "set_pagetable lm ?kpt ?kpt m3 = ret ?kpt"
    by (rule set_pagetable_kept [OF set_kpt lowk3 lowk3]) (use low in simp_all)
  have "\<forall>j < memsz. m3 (seg_byte ps j) = (if j < len then phys k (src + of_nat j) else 0)"
    using m23(4,5) kernel_bytes_kept(2) [OF src ps(3) _ m1(5)] by auto
  then show ?thesis
    using ps m1(3) set1 m23(1,2) set3 t3(1,3) ent3 same3
    by (intro exI [of _ ps] exI [of _ m1] exI [of _ m2] exI [of _ m3]) auto
qed

text \<open>The second half: write access is removed unless the segment is writable.\<close>

lemma segment_protected:
  assumes lt: "loadable_table lm k pt" and va: "unat va = 4096 * v" "256 \<le> v" "v + n \<le> 1024"
    and em: "unat end_mem = 4096 * v + memsz" "memsz \<le> 4096 * n" "4096 * n < memsz + 4096"
    and ps: "length ps = n" "pages_granted k ps" and sh: "pt_shape m pt" "\<forall>i<2. table4 m pt i = table4 (phys k) pt i"
    and ent: "\<forall>q<1024. pt_entry m pt q = (if v \<le> q \<and> q < v + n then ps ! (q - v) OR 7 else pt_entry (phys k) pt q)"
  shows "\<exists>m'. (if ro then protect_pages pt end_mem va m else ret m) = ret m' \<and> pt_shape m' pt \<and>
    (\<forall>q<1024. pt_entry m' pt q =
       (if v \<le> q \<and> q < v + n then ps ! (q - v) OR (if ro then 5 else 7) else pt_entry (phys k) pt q)) \<and>
    (\<forall>j < 4096 * n. m' (seg_byte ps j) = m (seg_byte ps j)) \<and>
    same_outside {table4 (phys k) pt 0, table4 (phys k) pt 1} m m'"
proof (cases ro)
  case True
  let ?L = "{table4 m pt 0, table4 m pt 1}"
  have below: "\<forall>j<n. 4096 * (v + j) < unat end_mem"
  proof (intro allI impI)
    show "4096 * (v + j) < unat end_mem" if "j < n" for j
      using mult_le_mono2 [of "Suc j" n 4096] that em by simp
  qed
  have above: "unat end_mem \<le> 4096 * (v + n)"
    using em by simp
  have al: "page_aligned (ps ! j)" "unat (ps ! j) < 0x200000" if "j < n" for j
    using ps nth_mem [of j ps] that by (auto simp: pages_granted_def)
  have g: "pt_entry m pt q = ps ! (q - v) OR 7 \<and> page_aligned (ps ! (q - v)) \<and> unat (ps ! (q - v)) < 0x200000"
    if "v \<le> q" "q < v + n" for q
    using ent al [of "q - v"] that va(3) by simp
  have "\<exists>m'. protect_pages pt end_mem va m = ret m' \<and> pt_shape m' pt \<and>
    (\<forall>q<1024. pt_entry m' pt q = (if v \<le> q \<and> q < v + n then ps ! (q - v) OR 5 else pt_entry m pt q)) \<and>
    same_outside ?L m m'"
    by (rule protect_pages_ok [OF va(1,3) below above sh(1)]) (rule g)
  then obtain m' where m': "protect_pages pt end_mem va m = ret m'" "pt_shape m' pt"
    "\<forall>q<1024. pt_entry m' pt q = (if v \<le> q \<and> q < v + n then ps ! (q - v) OR 5 else pt_entry m pt q)"
    "same_outside ?L m m'"
    by (elim exE conjE) (rule that)
  have "m' (seg_byte ps j) = m (seg_byte ps j)" if "j < 4096 * n" for j
  proof -
    have all: "\<forall>pa\<in>set ps. page_aligned pa"
      using ps(2) by (simp add: pages_granted_def)
    have "j < 4096 * length ps"
      using that ps(1) by simp
    note b = seg_byte_page [OF all this]
    have "\<not> page_in_use k (seg_byte ps j)"
      using in_page_use [OF bspec [OF all b(3)] b(2)] b(3) ps(2) by (simp add: pages_granted_def)
    then have "\<not> in_page t (seg_byte ps j)" if "t \<in> ?L" for t
      using that lt sh(2) in_page_use [of t "seg_byte ps j" k] by (auto simp: loadable_table_def tables_def)
    then show ?thesis
      using m'(4) by (simp add: same_outside_def outside_pages_def)
  qed
  then show ?thesis
    using True m' sh(2) ent by auto
next
  case False
  then show ?thesis
    using sh(1) ent by (auto simp: same_outside_def)
qed

lemma header_kept:
  assumes "kernel_bytes k pt ph 56" and "pages_granted k ps"
    and "same_outside (set ps \<union> {table4 (phys k) pt 0, table4 (phys k) pt 1}) (phys k) m"
  shows "read_elf_program m ph = read_elf_program (phys k) ph"
  using kernel_bytes_kept(2) [OF assms(1,2) _ assms(3)] by (intro read_elf_program_cong) auto

text \<open>The shape of a segment that the loader can place: \<open>skew\<close> bytes lie between the start of its first page and its
  address.\<close>

definition skew :: "elf_program \<Rightarrow> nat" where
  "skew seg = unat (p_va seg) mod 4096"

definition segment_ok :: "elf_program \<Rightarrow> bool" where
  "segment_ok seg \<longleftrightarrow> 0x100000 \<le> unat (p_va seg) \<and> unat (p_filesz seg) \<le> unat (p_memsz seg) \<and>
     unat (p_va seg) + unat (p_memsz seg) \<le> unat MEMSIZE_VIRTUAL"

definition segment_pages :: "elf_program \<Rightarrow> nat" where
  "segment_pages seg = (skew seg + unat (p_memsz seg) + 4095) div 4096"

lemma segment_geometry:
  assumes "segment_ok seg"
  defines "va \<equiv> p_va seg AND NOT (PAGESIZE - 1)" and "v \<equiv> unat (p_va seg) div 4096"
  shows "unat va = 4096 * v" "256 \<le> v" "v + segment_pages seg \<le> 1024"
    "unat (p_va seg + p_memsz seg) = 4096 * v + (skew seg + unat (p_memsz seg))"
    "skew seg + unat (p_memsz seg) \<le> 4096 * segment_pages seg"
    "4096 * segment_pages seg < skew seg + unat (p_memsz seg) + 4096"
    "p_va seg + p_filesz seg = va + of_nat (skew seg + unat (p_filesz seg))"
    "p_va seg + p_filesz seg - va = of_nat (skew seg + unat (p_filesz seg))"
    "p_va seg + p_memsz seg - (p_va seg + p_filesz seg)
       = of_nat (skew seg + unat (p_memsz seg) - (skew seg + unat (p_filesz seg)))"
proof -
  have "va = PTE_ADDR (p_va seg)"
    by (simp add: va_def PTE_ADDR_def PAGESIZE_def)
  then show uva: "unat va = 4096 * v"
    by (simp add: unat_page_base v_def)
  have split: "unat (p_va seg) = 4096 * v + skew seg" and sk: "skew seg < 4096"
    by (simp_all add: v_def skew_def)
  note ok = assms(1) [unfolded segment_ok_def MEMSIZE_VIRTUAL_def]
  show "256 \<le> v"
    using ok unfolding v_def by linarith
  show "skew seg + unat (p_memsz seg) \<le> 4096 * segment_pages seg"
    "4096 * segment_pages seg < skew seg + unat (p_memsz seg) + 4096"
    unfolding segment_pages_def by linarith+
  then show "v + segment_pages seg \<le> 1024"
    using ok split by simp
  show em: "unat (p_va seg + p_memsz seg) = 4096 * v + (skew seg + unat (p_memsz seg))"
    using ok split by (simp add: unat_word_ariths)
  have ef: "unat (p_va seg + p_filesz seg) = 4096 * v + (skew seg + unat (p_filesz seg))"
    using ok split by (simp add: unat_word_ariths)
  show "p_va seg + p_filesz seg - va = of_nat (skew seg + unat (p_filesz seg))"
    using ef uva ok sk by (simp add: word_unat_eq_iff unat_sub word_le_nat_alt unat_of_nat del: of_nat_add)
  then show "p_va seg + p_filesz seg = va + of_nat (skew seg + unat (p_filesz seg))"
    by (simp add: algebra_simps)
  show "p_va seg + p_memsz seg - (p_va seg + p_filesz seg)
       = of_nat (skew seg + unat (p_memsz seg) - (skew seg + unat (p_filesz seg)))"
    using em ef ok sk by (simp add: word_unat_eq_iff unat_sub word_le_nat_alt unat_of_nat del: of_nat_add)
qed

text \<open>What a process finds at the addresses of a segment, and that its other translations stay.\<close>

lemma segment_image:
  assumes sh: "pt_shape m pt" "pt_shape m0 pt" and va: "unat va = 4096 * v" "256 \<le> v" "v + n \<le> 1024"
    and ps: "length ps = n" "\<forall>pa\<in>set ps. page_aligned pa" and perm: "perm = 7 \<or> perm = 5"
    and ent: "\<forall>q<1024. pt_entry m pt q = (if v \<le> q \<and> q < v + n then ps ! (q - v) OR perm else pt_entry m0 pt q)"
    and sz: "sz \<le> 4096 * n" and bytes: "\<forall>j < sz. m (seg_byte ps j) = c j"
  shows "\<forall>j < sz. let at = virtual_memory_lookup m pt (va + of_nat j) in vam_perm at = ucast perm \<and> m (vam_pa at) = c j"
    and "unat a < 0x100000 \<Longrightarrow> virtual_memory_lookup m pt a = virtual_memory_lookup m0 pt a"
proof -
  show "\<forall>j < sz. let at = virtual_memory_lookup m pt (va + of_nat j) in vam_perm at = ucast perm \<and> m (vam_pa at) = c j"
  proof (intro allI impI)
    fix j assume j: "j < sz"
    then have "j < 4096 * length ps"
      using sz ps(1) by simp
    from segment_translate(1) [OF sh(1) va(1) _ ps(2) _ perm this] have
      "virtual_memory_lookup m pt (va + of_nat j)
        = \<lparr>vam_pn = PAGENUMBER (ps ! (j div 4096)), vam_pa = seg_byte ps j, vam_perm = ucast perm\<rparr>"
      using va(3) ent ps(1) by auto
    with bytes j show "let at = virtual_memory_lookup m pt (va + of_nat j) in vam_perm at = ucast perm \<and> m (vam_pa at) = c j"
      by (simp only: Let_def vamapping.select_convs)
  qed
  show "virtual_memory_lookup m pt a = virtual_memory_lookup m0 pt a" if "unat a < 0x100000"
  proof -
    have "unat a div 4096 < 256"
      using that by (simp add: div_less_iff_less_mult)
    then show ?thesis
      using that ent va(2) by (simp add: lookup_decode [OF sh(1)] lookup_decode [OF sh(2)])
  qed
qed

lemma segment_loads:
  assumes "seg = read_elf_program (phys k) ph" and "segment_ok seg" and "p = the_proc k i" and "i < length (processes k)"
    and "loadable_table lm k (p_pagetable p)" and "kernel_bytes k (p_pagetable p) ph 56"
    and "kernel_bytes k (p_pagetable p) src (skew seg + unat (p_filesz seg))"
    and "palloc_serves kv (p_pid p) (segment_pages seg) k"
  shows "\<exists>k'. program_load_segment lm kv i ph src k = ret (0, k') \<and>
    the_proc k' i = p\<lparr>original_break := ROUNDUP (p_va seg + p_memsz seg) PAGESIZE,
      program_break := ROUNDUP (p_va seg + p_memsz seg) PAGESIZE\<rparr> \<and>
    length (processes k') = length (processes k) \<and>
    cr3 k' = kernel_pagetable k \<and> pt_shape (phys k') (p_pagetable p) \<and>
    (\<forall>j < skew seg + unat (p_memsz seg).
       let at = virtual_memory_lookup (phys k') (p_pagetable p) (ROUNDDOWN (p_va seg) PAGESIZE + of_nat j)
       in vam_perm at = (if p_flags seg AND ELF_PFLAG_WRITE = 0 then 5 else 7) \<and>
          phys k' (vam_pa at) = (if j < skew seg + unat (p_filesz seg) then phys k (src + of_nat j) else 0)) \<and>
    (\<forall>a. unat a < 0x100000 \<longrightarrow>
       virtual_memory_lookup (phys k') (p_pagetable p) a = virtual_memory_lookup (phys k) (p_pagetable p) a) \<and>
    (\<forall>a n. kernel_bytes k (p_pagetable p) a n \<longrightarrow> (\<forall>j<n. phys k' (a + of_nat j) = phys k (a + of_nat j)))"
proof -
  let ?pt = "p_pagetable p" and ?kpt = "kernel_pagetable k" and ?n = "segment_pages seg"
  let ?va = "p_va seg AND NOT (PAGESIZE - 1)" and ?v = "unat (p_va seg) div 4096"
  let ?em = "p_va seg + p_memsz seg" and ?len = "skew seg + unat (p_filesz seg)" and ?size = "skew seg + unat (p_memsz seg)"
  let ?ro = "p_flags seg AND ELF_PFLAG_WRITE = 0"
  note g = segment_geometry [OF assms(2)]
  have len: "?len \<le> ?size"
    using assms(2) by (simp add: segment_ok_def)
  have ptp: "?pt = p_pagetable (the_proc k i)" "p_pid p = p_pid (the_proc k i)"
    by (simp_all add: assms(3))
  from segment_prepared [OF ptp assms(5) g(1-6) len assms(7,8)] obtain ps m1 m2 m3 where
    ps: "length ps = ?n" "pages_granted k ps"
    and r1: "load_pages kv i ?em ?va k = ret (0, k\<lparr>phys := m1, pageinfo := own_pages (p_pid p) ps (pageinfo k)\<rparr>)"
    "set_pagetable lm ?kpt ?pt m1 = ret ?pt" "virt_memcpy ?pt ?va src (of_nat ?len) m1 = ret m2"
    "virt_memset ?pt (?va + of_nat ?len) 0 (of_nat (?size - ?len)) m2 = ret m3"
    "set_pagetable lm ?kpt ?kpt m3 = ret ?kpt"
    and m3: "pt_shape m3 ?pt" "\<forall>i<2. table4 m3 ?pt i = table4 (phys k) ?pt i"
    "\<forall>q<1024. pt_entry m3 ?pt q = (if ?v \<le> q \<and> q < ?v + ?n then ps ! (q - ?v) OR 7 else pt_entry (phys k) ?pt q)"
    "same_outside (set ps \<union> {table4 (phys k) ?pt 0, table4 (phys k) ?pt 1}) (phys k) m3"
    "\<forall>j < ?size. m3 (seg_byte ps j) = (if j < ?len then phys k (src + of_nat j) else 0)"
    by (elim exE conjE) (rule that)
  from segment_protected [OF assms(5) g(1-6) ps m3(1-3), of ?ro] obtain m4 where
    m4: "(if ?ro then protect_pages ?pt ?em ?va m3 else ret m3) = ret m4" "pt_shape m4 ?pt"
    "\<forall>q<1024. pt_entry m4 ?pt q =
       (if ?v \<le> q \<and> q < ?v + ?n then ps ! (q - ?v) OR (if ?ro then 5 else 7) else pt_entry (phys k) ?pt q)"
    "\<forall>j < 4096 * ?n. m4 (seg_byte ps j) = m3 (seg_byte ps j)"
    "same_outside {table4 (phys k) ?pt 0, table4 (phys k) ?pt 1} m3 m4"
    by (elim exE conjE) (rule that)
  let ?k1 = "k\<lparr>phys := m1, pageinfo := own_pages (p_pid p) ps (pageinfo k)\<rparr>"
  let ?k' = "upd_proc i (\<lambda>p. p\<lparr>original_break := ROUNDUP ?em PAGESIZE, program_break := ROUNDUP ?em PAGESIZE\<rparr>)
    (?k1\<lparr>phys := m4, cr3 := ?kpt\<rparr>)"
  have flags: "p_flags (read_elf_program m3 ph) = p_flags seg"
    using header_kept [OF assms(6) ps(2) m3(4)] assms(1) by simp
  have "the_proc ?k1 i = p"
    by (simp add: the_proc_def assms(3))
  then have run: "program_load_segment lm kv i ph src k = ret (0, ?k')"
    using r1(1,2,5) r1(3) [folded g(8)] r1(4) [folded g(9), folded g(7)] m4(1) flags
    by (cases ?ro; simp add: program_load_segment_def Let_def assms(1) [symmetric])
  have va: "ROUNDDOWN (p_va seg) PAGESIZE = ?va"
    using g(1) by (simp add: word_unat_eq_iff unat_ROUNDDOWN PAGESIZE_def)
  have sel: "phys ?k' = m4" "cr3 ?k' = ?kpt" "length (processes ?k') = length (processes k)" "the_proc ?k' i = p\<lparr>original_break := ROUNDUP ?em PAGESIZE,
      program_break := ROUNDUP ?em PAGESIZE\<rparr>"
    using assms(3,4) by (simp_all add: the_proc_def upd_proc_def)
  have m4': "pt_shape (phys k) ?pt" "\<forall>pa\<in>set ps. page_aligned pa" "(if ?ro then 5 else 7 :: u64) = 7 \<or> (if ?ro then 5 else 7 :: u64) = 5"
      "\<forall>j < ?size. m4 (seg_byte ps j) = (if j < ?len then phys k (src + of_nat j) else 0)"
      "ucast (if ?ro then 5 else 7 :: u64) = (if ?ro then 5 else 7 :: u32)"
    using assms(5) ps(2) m3(5) m4(4) g(5) by (simp_all add: loadable_table_def pages_granted_def)
  note segment_image [OF m4(2) m4'(1) g(1-3) ps(1) m4'(2,3) m4(3) g(5) m4'(4), unfolded m4'(5)]
  moreover have "same_outside (set ps \<union> {table4 (phys k) ?pt 0, table4 (phys k) ?pt 1}) (phys k) m4"
    using same_outside_trans [OF m3(4) m4(5)] by (simp add: Un_ac insert_absorb2)
  then have "m4 (a + of_nat j) = phys k (a + of_nat j)" if "kernel_bytes k ?pt a n" "j < n" for a n j
    using kernel_bytes_kept(2) [OF that(1) ps(2) that(2)] by blast
  ultimately show ?thesis
    using run m4(2) by (intro exI [of _ ?k']) (simp only: va sel, blast)
qed

section \<open>Properties of the loader\<close>

text \<open>C34. \<open>program_load_segment\<close> builds the memory image of a segment: it returns 0, every byte of the segment is
  then mapped for the process, read-only unless the segment is writable, and holds the corresponding
  byte of the file image or, behind it, 0; both breaks are the first page boundary behind the segment;
  the kernel's page table is loaded again, and the translations below the memory of processes and
  the kernel image are as before. The bytes of the file are placed from the start of the first page on,
  so an unaligned segment begins \<open>skew\<close> bytes below its address.\<close>

theorem program_load_segment_loads:
  assumes "seg = read_elf_program (phys k) ph" and "segment_ok seg" and "p = the_proc k i" and "i < length (processes k)"
    and "loadable_table lm k (p_pagetable p)" and "kernel_bytes k (p_pagetable p) ph 56"
    and "kernel_bytes k (p_pagetable p) src (skew seg + unat (p_filesz seg))"
    and "palloc_serves kv (p_pid p) (segment_pages seg) k"
  shows "\<exists>k'. program_load_segment lm kv i ph src k = ret (0, k') \<and>
    the_proc k' i = p\<lparr>original_break := ROUNDUP (p_va seg + p_memsz seg) PAGESIZE,
      program_break := ROUNDUP (p_va seg + p_memsz seg) PAGESIZE\<rparr> \<and>
    length (processes k') = length (processes k) \<and>
    cr3 k' = kernel_pagetable k \<and> pt_shape (phys k') (p_pagetable p) \<and>
    (\<forall>j < skew seg + unat (p_memsz seg).
       let at = virtual_memory_lookup (phys k') (p_pagetable p) (ROUNDDOWN (p_va seg) PAGESIZE + of_nat j)
       in vam_perm at = (if p_flags seg AND ELF_PFLAG_WRITE = 0 then 5 else 7) \<and>
          phys k' (vam_pa at) = (if j < skew seg + unat (p_filesz seg) then phys k (src + of_nat j) else 0)) \<and>
    (\<forall>a. unat a < 0x100000 \<longrightarrow>
       virtual_memory_lookup (phys k') (p_pagetable p) a = virtual_memory_lookup (phys k) (p_pagetable p) a) \<and>
    (\<forall>a n. kernel_bytes k (p_pagetable p) a n \<longrightarrow> (\<forall>j<n. phys k' (a + of_nat j) = phys k (a + of_nat j)))"
  by (rule segment_loads [OF assms])

lemma load_segments_end:
  "unat (e_phnum (read_elf_header (phys k) eh)) \<le> j \<Longrightarrow> load_segments lm kv i eh ph j k = ret (0, k)"
  by (subst load_segments.simps) simp


lemma str_cant_assign_printed: "format_ok str_cant_assign [Va_word a, Va_word b]"
  by (simp add: str_cant_assign_def)


section \<open>A small program\<close>

text \<open>An image at \<open>0x60000\<close> with one read-only segment: two bytes of code and one byte of zeros at \<open>0x100000\<close>.\<close>

definition small_image :: mem where
  "small_image = (\<lambda>_. 0)(0x60000 := 0x7F, 0x60001 := 0x45, 0x60002 := 0x4C, 0x60003 := 0x46, 0x6001A := 0x10,
     0x60020 := 0x40, 0x60038 := 1, 0x60040 := 1, 0x60044 := 5, 0x60048 := 0x80, 0x60052 := 0x10,
     0x60060 := 2, 0x60068 := 3, 0x60080 := 0x90, 0x60081 := 0xC3)"

definition small_program :: elf_program where
  "small_program = \<lparr>p_type = 1, p_flags = 5, p_offset = 0x80, p_va = 0x100000, p_pa = 0, p_filesz = 2, p_memsz = 3, p_align = 0\<rparr>"

lemma small_image_headers:
  "e_magic (read_elf_header small_image 0x60000) = ELF_MAGIC" "e_entry (read_elf_header small_image 0x60000) = 0x100000"
  "e_phoff (read_elf_header small_image 0x60000) = 0x40" "e_phnum (read_elf_header small_image 0x60000) = 1"
  "read_elf_program small_image 0x60040 = small_program"
  by (simp_all add: read_elf_header_def read_elf_program_def load16_def load32_def load64_def small_image_def
      small_program_def ELF_MAGIC_def)

lemma small_kernel:
  "\<exists>m. let k = kernel_with_free_page m 2 in
     read_elf_header (phys k) 0x60000 = read_elf_header small_image 0x60000 \<and>
     read_elf_program (phys k) 0x60040 = small_program \<and> phys k 0x60081 = 0xC3 \<and>
     loadable_table some_link_map k 0x50000 \<and> kernel_bytes k 0x50000 0x60000 64 \<and> kernel_bytes k 0x50000 0x60040 56 \<and>
     kernel_bytes k 0x50000 0x60080 2 \<and> palloc_serves (granting_kvm 2) 1 (Suc 0) k"
proof -
  obtain m where m: "pt_shape m 0x50000"
    and ident: "\<And>a. unat a < 0x200000 \<Longrightarrow>
       virtual_memory_lookup m 0x50000 a = \<lparr>vam_pn = PAGENUMBER a, vam_pa = a, vam_perm = 7\<rparr>"
    and frame: "\<And>x. unat x < 0x50000 \<or> 0x55000 \<le> unat x \<Longrightarrow> m x = small_image x"
    and low: "\<forall>u\<in>{table2 m 0x50000, table3 m 0x50000, table4 m 0x50000 0, table4 m 0x50000 1}. 0x50000 \<le> unat u \<and> unat u < 0x55000"
    using virtual_memory_init_tables [OF some_link_map_ok, of small_image] by (simp add: some_link_map_def) blast
  let ?k = "kernel_with_free_page m 2"
  have k: "phys ?k = m" "kernel_pagetable ?k = 0x50000" "length (pageinfo ?k) = 512"
    by (simp_all add: kernel_with_free_page_def kernel_on_table_def kernel_with_table_def)
  have use: "page_in_use ?k x" if "0x3000 \<le> unat x" "unat x < 0x200000" for x
  proof -
    have "unat x div 4096 \<noteq> 2" "unat x div 4096 < 512"
      using that by linarith+
    then show ?thesis
      by (simp add: page_in_use_def kernel_with_free_page_def nth_list_update)
  qed
  have tabs: "0x50000 \<le> unat t \<and> unat t < 0x55000" if "t \<in> tables m 0x50000" for t
    using that low by (auto simp: tables_def)
  have tabs_use: "\<forall>t\<in>tables (phys ?k) 0x50000. page_in_use ?k t"
  proof
    show "page_in_use ?k t" if "t \<in> tables (phys ?k) 0x50000" for t
      using tabs [of t] that use [of t] by (simp add: k)
  qed
  have bytes: "kernel_bytes ?k 0x50000 a n" if "0x60000 \<le> unat a" "unat a + n \<le> 0x70000" for a n
  proof -
    have "unat (a + of_nat j) = unat a + j" if "j < n" for j
      using that \<open>unat a + n \<le> 0x70000\<close> by (simp add: unat_word_ariths unat_of_nat)
    then show ?thesis
      using that use ident tabs by (fastforce simp: kernel_bytes_def k outside_pages_def in_page_def)
  qed
  have set: "set_pagetable some_link_map 0x50000 0x50000 m = ret 0x50000"
    using ident by (simp add: set_pagetable_def some_link_map_def PAGEOFFSET_def)
  have lt: "loadable_table some_link_map ?k 0x50000"
    using m set tabs_use by (simp add: loadable_table_def k) (simp add: some_link_map_def)
  have "palloc_grants (granting_kvm 2) 1 ?k 0x2000 (?k\<lparr>pageinfo := (pageinfo ?k)[2 := \<lparr>pg_owner = 1, refcount = 1\<rparr>]\<rparr>)"
    by (simp add: palloc_grants_def granting_kvm_def page_aligned_iff kernel_with_free_page_def)
  then have "palloc_serves (granting_kvm 2) 1 (Suc 0) ?k"
    by auto
  moreover have img: "m (a + of_nat j) = small_image (a + of_nat j)" if "0x60000 \<le> unat a" "unat a < 0x70000" "j < 64" for a j
    using that by (intro frame) (simp add: unat_word_ariths unat_of_nat)
  have "read_elf_header m 0x60000 = read_elf_header small_image 0x60000"
    "read_elf_program m 0x60040 = small_program"
    using read_elf_header_cong [of m "0x60000" small_image] read_elf_program_cong [of m "0x60040" small_image]
      img [of "0x60000"] img [of "0x60040"] small_image_headers by auto
  moreover have "m 0x60081 = 0xC3"
    using frame [of "0x60081"] by (simp add: small_image_def)
  ultimately show ?thesis
    using lt bytes [of "0x60000" 64] bytes [of "0x60040" 56] bytes [of "0x60080" 2]
    by (intro exI [of _ m]) (simp add: k Let_def)
qed

lemma small_program_shape: "segment_ok small_program" "skew small_program = 0" "segment_pages small_program = Suc 0"
  by (simp_all add: segment_ok_def skew_def segment_pages_def small_program_def MEMSIZE_VIRTUAL_def)

lemma small_kernel_process:
  "the_proc (kernel_with_free_page m n) 0 = (proc_with_break 0x204000)\<lparr>p_pagetable := 0x50000\<rparr>"
  "length (processes (kernel_with_free_page m n)) = 1"
  by (simp_all add: kernel_with_free_page_def kernel_on_table_def kernel_with_table_def the_proc_def)

theorem program_load_segment_loads_witness:
  "\<exists>m k'. program_load_segment some_link_map (granting_kvm 2) 0 0x60040 0x60080 (kernel_with_free_page m 2) = ret (0, k') \<and>
     program_break (the_proc k' 0) = 0x101000 \<and>
     phys k' (vam_pa (virtual_memory_lookup (phys k') 0x50000 0x100001)) = 0xC3"
proof -
  obtain m where m: "read_elf_program (phys (kernel_with_free_page m 2)) 0x60040 = small_program"
    "phys (kernel_with_free_page m 2) 0x60081 = 0xC3" "loadable_table some_link_map (kernel_with_free_page m 2) 0x50000"
    "kernel_bytes (kernel_with_free_page m 2) 0x50000 0x60040 56" "kernel_bytes (kernel_with_free_page m 2) 0x50000 0x60080 2"
    "palloc_serves (granting_kvm 2) 1 (Suc 0) (kernel_with_free_page m 2)"
    using small_kernel by (auto simp: Let_def)
  let ?k = "kernel_with_free_page m 2" and ?p = "(proc_with_break 0x204000)\<lparr>p_pagetable := 0x50000\<rparr>"
  have p: "?p = the_proc ?k 0" "p_pagetable ?p = 0x50000" "p_pid ?p = 1" "0 < length (processes ?k)"
    by (simp_all add: small_kernel_process proc_with_break_def)
  have n: "0 + unat (p_filesz small_program) = 2"
    by (simp add: small_program_def)
  from program_load_segment_loads [OF m(1) [symmetric] small_program_shape(1) p(1,4), unfolded p(2,3) small_program_shape(2,3) n,
      OF m(3,4,5,6)]
  obtain k' where k': "program_load_segment some_link_map (granting_kvm 2) 0 0x60040 0x60080 ?k = ret (0, k')"
    "the_proc k' 0 = ?p\<lparr>original_break := ROUNDUP (p_va small_program + p_memsz small_program) PAGESIZE,
      program_break := ROUNDUP (p_va small_program + p_memsz small_program) PAGESIZE\<rparr>"
    "\<forall>j < 0 + unat (p_memsz small_program).
       let at = virtual_memory_lookup (phys k') 0x50000 (ROUNDDOWN (p_va small_program) PAGESIZE + of_nat j)
       in vam_perm at = (if p_flags small_program AND ELF_PFLAG_WRITE = 0 then 5 else 7) \<and>
          phys k' (vam_pa at) = (if j < 2 then phys ?k (0x60080 + of_nat j) else 0)"
    by blast
  have "phys k' (vam_pa (virtual_memory_lookup (phys k') 0x50000 (0x100000 + of_nat 1))) = phys ?k (0x60080 + of_nat 1)"
    using k'(3) [rule_format, of 1] by (simp add: small_program_def Let_def ROUNDDOWN_def PAGESIZE_def)
  then show ?thesis
    using k'(1,2) m(2) by (intro exI [of _ m] exI [of _ k']) (simp add: small_program_def ROUNDUP_def ROUNDDOWN_def PAGESIZE_def)
qed



end
