(* ===== verification/Boot.thy ===== *)
theory Boot
  imports Elf Hardware
begin

text \<open>
  The boot loader of \<^verbatim>\<open>kernel/boot.c\<close>: the programmed input from the disk, the loading of segments by whole sectors
  and the jump to the kernel. The disk controller is a parameter (what its status port and its data port
  deliver), with the named assumption \<open>disk_serves\<close>. The state is physical memory, which the boot loader uses
  identity mapped, the port writes so far and the number of status reads so far.
\<close>

section \<open>Disk controller\<close>

text \<open>\<open>status n\<close> is the answer to the \<open>n\<close>-th read of the status port; \<open>sector_data log i\<close> is byte \<open>i\<close> of what the data port
  delivers after the port writes \<open>log\<close>.\<close>

record ata =
  status :: "nat \<Rightarrow> u8"
  sector_data :: "port_write list \<Rightarrow> nat \<Rightarrow> u8"

record bootstate =
  bmem :: mem
  ata_log :: "port_write list"
  polls :: nat

definition boot_outb :: "u16 \<Rightarrow> u8 \<Rightarrow> bootstate \<Rightarrow> bootstate" where
  "boot_outb port v s = s\<lparr>ata_log := ata_log s @ [Outb port v]\<rparr>"

text \<open>\<open>insl(port, addr, cnt)\<close> for the data port: \<open>4 * cnt\<close> bytes.\<close>

primrec insl :: "ata \<Rightarrow> u64 \<Rightarrow> nat \<Rightarrow> bootstate \<Rightarrow> bootstate" where
  "insl d addr 0 s = s"
| "insl d addr (Suc n) s =
     (let s1 = insl d addr n s
      in s1\<lparr>bmem := (bmem s1)(addr + of_nat n := sector_data d (ata_log s) n)\<rparr>)"

section \<open>Functions of boot.c\<close>

definition SECTORSIZE :: u64 where "SECTORSIZE = 512"
definition ELFHDR :: u64 where "ELFHDR = 0x10000"

partial_function (option) boot_waitdisk :: "ata \<Rightarrow> bootstate \<Rightarrow> bootstate option" where
  "boot_waitdisk d s =
     (let s1 = s\<lparr>polls := polls s + 1\<rparr>
      in if status d (polls s) AND 0xC0 \<noteq> 0x40 then boot_waitdisk d s1 else Some s1)"

definition boot_readsect :: "ata \<Rightarrow> u64 \<Rightarrow> u32 \<Rightarrow> bootstate \<Rightarrow> bootstate option" where
  "boot_readsect d dst src_sect s =
     Option.bind (boot_waitdisk d s) (\<lambda>s1.
       let s2 = boot_outb 0x1F2 1 s1;
           s3 = boot_outb 0x1F3 (ucast src_sect) s2;
           s4 = boot_outb 0x1F4 (ucast (drop_bit 8 src_sect)) s3;
           s5 = boot_outb 0x1F5 (ucast (drop_bit 16 src_sect)) s4;
           s6 = boot_outb 0x1F6 (ucast (drop_bit 24 src_sect OR 0xE0)) s5;
           s7 = boot_outb 0x1F7 0x20 s6
       in Option.bind (boot_waitdisk d s7) (\<lambda>s8. Some (insl d dst 512 s8)))"

partial_function (option) boot_readsects :: "ata \<Rightarrow> u64 \<Rightarrow> u64 \<Rightarrow> u32 \<Rightarrow> bootstate \<Rightarrow> bootstate option" where
  "boot_readsects d end_ptr ptr src_sect s =
     (if ptr < end_ptr then
        Option.bind (boot_readsect d ptr src_sect s) (boot_readsects d end_ptr (ptr + SECTORSIZE) (src_sect + 1))
      else Some s)"

partial_function (option) boot_clear :: "u64 \<Rightarrow> u64 \<Rightarrow> bootstate \<Rightarrow> bootstate option" where
  "boot_clear memsz end_ptr s =
     (if end_ptr < memsz then boot_clear memsz (end_ptr + 1) (s\<lparr>bmem := (bmem s)(end_ptr := 0)\<rparr>) else Some s)"

definition boot_readseg :: "ata \<Rightarrow> u64 \<Rightarrow> u32 \<Rightarrow> u64 \<Rightarrow> u64 \<Rightarrow> bootstate \<Rightarrow> bootstate option" where
  "boot_readseg d ptr0 src_sect filesz memsz0 s =
     (let end_ptr = ptr0 + filesz;
          memsz = memsz0 + ptr0;
          ptr = ptr0 AND NOT (SECTORSIZE - 1)
      in Option.bind (boot_readsects d end_ptr ptr src_sect s) (boot_clear memsz end_ptr))"

partial_function (option) boot_segments :: "ata \<Rightarrow> u64 \<Rightarrow> u64 \<Rightarrow> bootstate \<Rightarrow> bootstate option" where
  "boot_segments d eph ph s =
     (if ph < eph then
        let seg = read_elf_program (bmem s) ph
        in Option.bind (boot_readseg d (p_va seg) (ucast (p_offset seg div SECTORSIZE + 1)) (p_filesz seg) (p_memsz seg) s)
             (boot_segments d eph (ph + SIZEOF_ELF_PROGRAM))
      else Some s)"

text \<open>\<open>boot\<close> ends by jumping to the entry point, its result; it spins forever when there is no ELF image on the disk.\<close>

definition boot :: "ata \<Rightarrow> bootstate \<Rightarrow> (u64 \<times> bootstate) option" where
  "boot d s =
     Option.bind (boot_readseg d ELFHDR 1 PAGESIZE PAGESIZE s) (\<lambda>s1.
       if e_magic (read_elf_header (bmem s1) ELFHDR) \<noteq> ELF_MAGIC then None
       else
         let hdr = read_elf_header (bmem s1) ELFHDR;
             ph = ELFHDR + e_phoff hdr;
             eph = ph + ucast (e_phnum hdr) * SIZEOF_ELF_PROGRAM
         in Option.bind (boot_segments d eph ph s1) (\<lambda>s2. Some (e_entry (read_elf_header (bmem s2) ELFHDR), s2)))"

section \<open>What the disk promises\<close>

text \<open>The controller is ready again and again, and a read command with a 28-bit block address delivers the 512 bytes of
  that sector. \<open>S n i\<close> is byte \<open>i\<close> of sector \<open>n\<close>.\<close>

definition disk_serves :: "ata \<Rightarrow> (nat \<Rightarrow> nat \<Rightarrow> u8) \<Rightarrow> bool" where
  "disk_serves d S \<longleftrightarrow> (\<forall>n. \<exists>k\<ge>n. status d k AND 0xC0 = 0x40) \<and>
     (\<forall>log a b c e i. i < 512 \<longrightarrow>
        sector_data d (log @ [Outb 0x1F2 1, Outb 0x1F3 a, Outb 0x1F4 b, Outb 0x1F5 c, Outb 0x1F6 (e OR 0xE0), Outb 0x1F7 0x20]) i
          = S (unat a + 2 ^ 8 * unat b + 2 ^ 16 * unat c + 2 ^ 24 * (unat e mod 16)) i)"

lemma boot_waitdisk_ready:
  assumes "disk_serves d S"
  shows "\<exists>n. boot_waitdisk d s = Some (s\<lparr>polls := n\<rparr>)"
proof -
  obtain k where k: "polls s \<le> k" "status d k AND 0xC0 = 0x40"
    using assms unfolding disk_serves_def by blast
  then show ?thesis
  proof (induction "k - polls s" arbitrary: s)
    case 0
    then show ?case
      by (subst boot_waitdisk.simps) (auto simp: Let_def)
  next
    case (Suc x)
    show ?case
    proof (cases "status d (polls s) AND 0xC0 = 0x40")
      case True
      then show ?thesis
        by (subst boot_waitdisk.simps) (auto simp: Let_def)
    next
      case False
      have "\<exists>n. boot_waitdisk d (s\<lparr>polls := polls s + 1\<rparr>) = Some (s\<lparr>polls := polls s + 1\<rparr>\<lparr>polls := n\<rparr>)"
        using Suc.hyps(2) Suc.prems by (intro Suc.hyps(1)) auto
      then show ?thesis
        using False by (subst boot_waitdisk.simps) (auto simp: Let_def)
    qed
  qed
qed

lemma insl_memory:
  "n \<le> 512 \<Longrightarrow> insl d addr n s = s\<lparr>bmem := \<lambda>x. if unat (x - addr) < n then sector_data d (ata_log s) (unat (x - addr)) else bmem s x\<rparr>"
proof (induction n)
  case (Suc n)
  have eq: "x = addr + of_nat n \<longleftrightarrow> unat (x - addr) = n" for x
  proof
    assume "unat (x - addr) = n"
    then have "x - addr = of_nat n"
      by auto
    then show "x = addr + of_nat n"
      by (simp add: algebra_simps)
  qed (use Suc.prems in \<open>simp add: unat_of_nat\<close>)
  show ?case
    using Suc by (auto simp: Let_def eq less_Suc_eq fun_eq_iff)
qed simp

lemma sector_number:
  fixes sect :: u32
  shows "unat (ucast sect :: u8) + 2 ^ 8 * unat (ucast (drop_bit 8 sect) :: u8) + 2 ^ 16 * unat (ucast (drop_bit 16 sect) :: u8)
     + 2 ^ 24 * (unat (ucast (drop_bit 24 sect) :: u8) mod 16) = unat sect mod 2 ^ 28"
proof -
  define n where "n = unat sect"
  have b: "unat (ucast (drop_bit k sect) :: u8) = n div 2 ^ k mod 256" for k
    by (simp only: n_def unsigned_ucast_eq unat_drop_bit_eq) (simp add: take_bit_eq_mod drop_bit_eq_div)
  have "unat (ucast sect :: u8) = n mod 256"
    by (simp add: n_def unsigned_ucast_eq take_bit_eq_mod)
  moreover have "n mod 2 ^ 28 = n mod 256 + 2 ^ 8 * (n div 2 ^ 8 mod 256) + 2 ^ 16 * (n div 2 ^ 16 mod 256) + 2 ^ 24 * (n div 2 ^ 24 mod 16)"
    using mod_mult2_eq [of n 256 "256 * (256 * 16)"] mod_mult2_eq [of "n div 256" 256 "256 * 16"]
      mod_mult2_eq [of "n div 256 div 256" 256 16]
    by (simp add: div_mult2_eq [symmetric])
  moreover have "n div 2 ^ 24 mod 256 mod 16 = n div 2 ^ 24 mod 16"
    by (simp add: mod_mod_cancel)
  ultimately show ?thesis
    unfolding b n_def [symmetric] by simp
qed

section \<open>Reading sectors\<close>

lemma boot_readsect_reads:
  assumes "disk_serves d S"
  shows "\<exists>s'. boot_readsect d dst sect s = Some s' \<and>
    bmem s' = (\<lambda>x. if unat (x - dst) < 512 then S (unat sect mod 2 ^ 28) (unat (x - dst)) else bmem s x)"
proof -
  obtain n where n: "boot_waitdisk d s = Some (s\<lparr>polls := n\<rparr>)"
    using boot_waitdisk_ready [OF assms] by blast
  let ?cmd = "[Outb 0x1F2 1, Outb 0x1F3 (ucast sect), Outb 0x1F4 (ucast (drop_bit 8 sect)), Outb 0x1F5 (ucast (drop_bit 16 sect)),
    Outb 0x1F6 (ucast (drop_bit 24 sect) OR 0xE0), Outb 0x1F7 0x20]"
  let ?s = "s\<lparr>polls := n, ata_log := ata_log s @ ?cmd\<rparr>"
  obtain n' where n': "boot_waitdisk d ?s = Some (?s\<lparr>polls := n'\<rparr>)"
    using boot_waitdisk_ready [OF assms] by blast
  have dev: "ucast (drop_bit 24 sect OR 0xE0) = (ucast (drop_bit 24 sect) OR 0xE0 :: u8)"
    by (simp add: unsigned_or_eq)
  have data: "sector_data d (ata_log s @ ?cmd) i = S (unat sect mod 2 ^ 28) i" if "i < 512" for i
    using assms that unfolding disk_serves_def sector_number [symmetric] by blast
  have "boot_readsect d dst sect s = Some (insl d dst 512 (?s\<lparr>polls := n'\<rparr>))"
    using n n' by (simp add: boot_readsect_def boot_outb_def Let_def dev)
  then show ?thesis
    by (auto simp: insl_memory data fun_eq_iff)
qed

lemma boot_readsects_reads:
  assumes "disk_serves d S" and "unat ptr + 512 * n < 2 ^ 64" and "unat end_ptr \<le> unat ptr + 512 * n"
    and "\<forall>j<n. unat ptr + 512 * j < unat end_ptr"
  shows "\<exists>s'. boot_readsects d end_ptr ptr sect s = Some s' \<and>
    (\<forall>x. bmem s' x = (if unat ptr \<le> unat x \<and> unat x < unat ptr + 512 * n
       then S ((unat sect + (unat x - unat ptr) div 512) mod 2 ^ 28) ((unat x - unat ptr) mod 512) else bmem s x))"
  using assms(2-4)
proof (induction n arbitrary: ptr sect s)
  case 0
  then have "\<not> ptr < end_ptr"
    by (simp add: word_less_nat_alt)
  then show ?case
    by (subst boot_readsects.simps) auto
next
  case (Suc n)
  obtain s1 where s1: "boot_readsect d ptr sect s = Some s1"
    "bmem s1 = (\<lambda>x. if unat (x - ptr) < 512 then S (unat sect mod 2 ^ 28) (unat (x - ptr)) else bmem s x)"
    using boot_readsect_reads [OF assms(1)] by blast
  have lt: "ptr < end_ptr"
    using Suc.prems(3) by (auto simp: word_less_nat_alt)
  have p: "unat (ptr + SECTORSIZE) = unat ptr + 512"
    using Suc.prems(1) by (simp add: SECTORSIZE_def unat_word_ariths)
  have "\<forall>j<n. unat (ptr + SECTORSIZE) + 512 * j < unat end_ptr"
    using Suc.prems(3) unfolding p by (metis add.assoc mult_Suc_right Suc_less_eq)
  with Suc.prems(1,2) obtain s' where s': "boot_readsects d end_ptr (ptr + SECTORSIZE) (sect + 1) s1 = Some s'"
    "\<forall>x. bmem s' x = (if unat ptr + 512 \<le> unat x \<and> unat x < unat ptr + 512 + 512 * n
       then S ((unat (sect + 1) + (unat x - (unat ptr + 512)) div 512) mod 2 ^ 28) ((unat x - (unat ptr + 512)) mod 512) else bmem s1 x)"
    using Suc.IH [of "ptr + SECTORSIZE" "sect + 1" s1] unfolding p by auto
  have run: "boot_readsects d end_ptr ptr sect s = Some s'"
    using lt s1(1) s'(1) by (subst boot_readsects.simps) simp
  have "bmem s' x = (if unat ptr \<le> unat x \<and> unat x < unat ptr + 512 * Suc n
       then S ((unat sect + (unat x - unat ptr) div 512) mod 2 ^ 28) ((unat x - unat ptr) mod 512) else bmem s x)" for x
  proof -
    have near: "unat (x - ptr) < 512 \<longleftrightarrow> unat ptr \<le> unat x \<and> unat x < unat ptr + 512"
      using in_range_iff [of ptr 512 x] Suc.prems(1) by (simp add: word_less_nat_alt)
    consider "unat x < unat ptr" | "unat ptr \<le> unat x" "unat x < unat ptr + 512"
      | e where "unat x = unat ptr + 512 + e"
      by (metis le_add_diff_inverse not_le)
    then show ?thesis
    proof cases
      case 2
      then have "unat (x - ptr) = unat x - unat ptr"
        by (simp add: unat_sub word_le_nat_alt)
      then show ?thesis
        using 2 s'(2) s1(2) near by simp
    next
      case (3 e)
      have "unat (sect + 1) mod 2 ^ 28 = (unat sect + 1) mod 2 ^ 28"
        by (simp add: unat_word_ariths mod_mod_cancel)
      then have "(unat (sect + 1) + e div 512) mod 2 ^ 28 = (unat sect + (512 + e) div 512) mod 2 ^ 28"
        using mod_add_left_eq [of "unat (sect + 1)" "2 ^ 28" "e div 512"] mod_add_left_eq [of "unat sect + 1" "2 ^ 28" "e div 512"]
        by (simp add: div_add_self1)
      then show ?thesis
        using 3 s'(2) s1(2) near by simp
    qed (use s'(2) s1(2) near in simp)
  qed
  then show ?case
    using run by blast
qed

lemma boot_clear_clears:
  "\<exists>s'. boot_clear memsz end_ptr s = Some s' \<and>
     (\<forall>x. bmem s' x = (if end_ptr \<le> x \<and> x < memsz then 0 else bmem s x))"
proof (induction "unat memsz - unat end_ptr" arbitrary: end_ptr s)
  case 0
  then have "\<not> end_ptr < memsz"
    by (simp add: word_less_nat_alt)
  then show ?case
    by (subst boot_clear.simps) (auto dest: le_less_trans)
next
  case (Suc n)
  then have lt: "end_ptr < memsz"
    by (simp add: word_less_nat_alt)
  have u: "unat (end_ptr + 1) = unat end_ptr + 1"
    using lt unat_less_2p64 [of memsz] by (simp add: unat_word_ariths word_less_nat_alt)
  obtain s' where s': "boot_clear memsz (end_ptr + 1) (s\<lparr>bmem := (bmem s)(end_ptr := 0)\<rparr>) = Some s'"
    "\<forall>x. bmem s' x = (if end_ptr + 1 \<le> x \<and> x < memsz then 0 else ((bmem s)(end_ptr := 0)) x)"
    using Suc.hyps(1) [of "end_ptr + 1" "s\<lparr>bmem := (bmem s)(end_ptr := 0)\<rparr>"] Suc.hyps(2) u by fastforce
  have "end_ptr \<le> x \<longleftrightarrow> x = end_ptr \<or> end_ptr + 1 \<le> x" for x
    using u by (auto simp: word_le_nat_alt word_unat_eq_iff)
  then show ?case
    using lt s' by (subst boot_clear.simps) auto
qed

section \<open>Loading a segment\<close>

text \<open>The kernel file starts in sector 1.\<close>

definition file_byte :: "(nat \<Rightarrow> nat \<Rightarrow> u8) \<Rightarrow> nat \<Rightarrow> u8" where
  "file_byte S i = S (1 + i div 512) (i mod 512)"

definition loaded :: "(nat \<Rightarrow> nat \<Rightarrow> u8) \<Rightarrow> elf_program \<Rightarrow> mem \<Rightarrow> bool" where
  "loaded S seg m \<longleftrightarrow> (\<forall>x. unat (p_va seg) \<le> unat x \<and> unat x < unat (p_va seg) + unat (p_memsz seg) \<longrightarrow>
     m x = (if unat x < unat (p_va seg) + unat (p_filesz seg)
            then file_byte S (unat (p_offset seg) + (unat x - unat (p_va seg))) else 0))"

text \<open>A segment the boot loader can place: its address and its offset in the file agree modulo the sector size. Whole
  sectors are read, so bytes around the segment may be overwritten (\<open>touched\<close>).\<close>

definition placed :: "elf_program \<Rightarrow> bool" where
  "placed seg \<longleftrightarrow> unat (p_va seg) mod 512 = unat (p_offset seg) mod 512 \<and> unat (p_filesz seg) \<le> unat (p_memsz seg) \<and>
     unat (p_va seg) + unat (p_memsz seg) + 512 \<le> 2 ^ 63 \<and> unat (p_offset seg) + unat (p_filesz seg) + 1024 < 2 ^ 37"

definition touched :: "elf_program \<Rightarrow> u64 \<Rightarrow> bool" where
  "touched seg x \<longleftrightarrow> unat (p_va seg) < unat x + 512 \<and> unat x < unat (p_va seg) + unat (p_memsz seg) + 512"

text \<open>The sector and the offset in it of byte \<open>off + j\<close> of the kernel file, counted from the start of the first sector read.\<close>

lemma sector_of_byte:
  fixes off r j :: nat
  assumes "off mod 512 = r" and "off + j + 1024 < 2 ^ 37"
  shows "S ((off div 512 + 1 + (r + j) div 512) mod 2 ^ 28) ((r + j) mod 512) = file_byte S (off + j)"
proof -
  have "off + j = 512 * (off div 512) + (r + j)"
    using assms(1) mult_div_mod_eq [of 512 off] by linarith
  then have "(off + j) div 512 = off div 512 + (r + j) div 512" "(off + j) mod 512 = (r + j) mod 512"
    by (simp_all only: div_mult_self4 mod_mult_self4)
  moreover have "(off + j) div 512 + 1 < 2 ^ 28"
    using assms(2) by (simp add: div_less_iff_less_mult)
  ultimately show ?thesis
    by (simp add: file_byte_def add_ac)
qed

lemma boot_readseg_loads:
  assumes d: "disk_serves d S" and seg: "placed seg"
  shows "\<exists>s'. boot_readseg d (p_va seg) (ucast (p_offset seg div SECTORSIZE + 1)) (p_filesz seg) (p_memsz seg) s = Some s' \<and>
    loaded S seg (bmem s') \<and> (\<forall>x. \<not> touched seg x \<longrightarrow> bmem s' x = bmem s x)"
proof -
  define va off r fs ms where "va = unat (p_va seg)" and "off = unat (p_offset seg)" and "r = va mod 512"
    and "fs = unat (p_filesz seg)" and "ms = unat (p_memsz seg)"
  let ?ptr = "p_va seg AND NOT (SECTORSIZE - 1)" and ?sect = "ucast (p_offset seg div SECTORSIZE + 1) :: u32"
  let ?fin = "p_va seg + p_filesz seg" and ?mem = "p_memsz seg + p_va seg"
  have ok: "off mod 512 = r" "fs \<le> ms" "va + ms + 512 \<le> 2 ^ 63" "off + fs + 1024 < 2 ^ 37" "r < 512"
    using seg by (auto simp: placed_def va_def off_def r_def fs_def ms_def)
  define n where "n = (r + fs + 511) div 512"
  have "SECTORSIZE - 1 = mask 9"
    by (simp add: SECTORSIZE_def mask_eq_exp_minus_1)
  then have ptr: "unat ?ptr = va - r"
    by (simp only: unat_and_not_mask) (simp add: va_def r_def)
  have q: "off div 512 + 1 < 2 ^ 28"
    using ok(4) by (simp add: div_less_iff_less_mult)
  then have "unat (p_offset seg div SECTORSIZE + 1) = off div 512 + 1"
    by (simp add: SECTORSIZE_def unat_word_ariths unat_div off_def)
  then have sect: "unat ?sect = off div 512 + 1"
    using q by (simp add: unsigned_ucast_eq take_bit_nat_eq_self)
  have ends: "unat ?fin = va + fs" "unat ?mem = va + ms"
    using ok by (simp_all add: va_def fs_def ms_def unat_word_ariths)
  have rva: "r \<le> va"
    by (simp add: r_def)
  have n: "r + fs \<le> 512 * n" "512 * n < r + fs + 512"
    unfolding n_def by linarith+
  obtain s1 where s1: "boot_readsects d ?fin ?ptr ?sect s = Some s1"
    "\<forall>x. bmem s1 x = (if va - r \<le> unat x \<and> unat x < va - r + 512 * n
       then S ((off div 512 + 1 + (unat x - (va - r)) div 512) mod 2 ^ 28) ((unat x - (va - r)) mod 512) else bmem s x)"
  proof -
    have "\<forall>j<n. unat ?ptr + 512 * j < unat ?fin"
    proof (intro allI impI)
      show "unat ?ptr + 512 * j < unat ?fin" if "j < n" for j
        using mult_le_mono2 [of "Suc j" n 512] that n(2) rva by (simp add: ptr ends)
    qed
    moreover have "unat ?ptr + 512 * n < 2 ^ 64" "unat ?fin \<le> unat ?ptr + 512 * n"
      using n ok rva by (simp_all add: ptr ends)
    ultimately show ?thesis
      using boot_readsects_reads [OF d, of ?ptr n ?fin ?sect s] that unfolding ptr sect by auto
  qed
  obtain s' where s': "boot_clear ?mem ?fin s1 = Some s'"
    "\<forall>x. bmem s' x = (if va + fs \<le> unat x \<and> unat x < va + ms then 0 else bmem s1 x)"
    using boot_clear_clears [of ?mem ?fin s1] by (auto simp: word_le_nat_alt word_less_nat_alt ends)
  have run: "boot_readseg d (p_va seg) ?sect (p_filesz seg) (p_memsz seg) s = Some s'"
    using s1(1) s'(1) by (simp add: boot_readseg_def Let_def)
  have byte: "bmem s1 x = file_byte S (off + (unat x - va))" if x: "va \<le> unat x" "unat x < va + fs" for x
  proof -
    define j where "j = unat x - va"
    have j: "unat x = va + j" "j < fs"
      using x by (auto simp: j_def)
    have dist: "unat x - (va - r) = r + j"
      using j rva by simp
    have "va - r \<le> unat x \<and> unat x < va - r + 512 * n"
      using j rva n(1) by linarith
    moreover have "off + j + 1024 < 2 ^ 37"
      using ok(4) j by simp
    ultimately show ?thesis
      using s1(2) [rule_format, of x] dist sector_of_byte [OF ok(1), of j S] by (simp add: j_def [symmetric])
  qed
  have "loaded S seg (bmem s')"
    using s'(2) byte ok(2) by (auto simp: loaded_def va_def [symmetric] fs_def [symmetric] ms_def [symmetric] off_def [symmetric])
  moreover have "bmem s' x = bmem s x" if "\<not> touched seg x" for x
  proof -
    have "unat x + 512 \<le> va \<or> va + ms + 512 \<le> unat x"
      using that by (auto simp: touched_def va_def ms_def)
    then show ?thesis
      using s'(2) s1(2) n(2) ok rva by auto
  qed
  ultimately show ?thesis
    using run by blast
qed

section \<open>Booting\<close>

text \<open>The first page of the file in the scratch space, and the headers in it.\<close>

definition first_page :: "(nat \<Rightarrow> nat \<Rightarrow> u8) \<Rightarrow> mem" where
  "first_page S x = file_byte S (unat x - 0x10000)"

definition boot_header :: "(nat \<Rightarrow> nat \<Rightarrow> u8) \<Rightarrow> elf_header" where
  "boot_header S = read_elf_header (first_page S) ELFHDR"

definition boot_segment :: "(nat \<Rightarrow> nat \<Rightarrow> u8) \<Rightarrow> nat \<Rightarrow> elf_program" where
  "boot_segment S j = read_elf_program (first_page S) (ELFHDR + e_phoff (boot_header S) + of_nat j * SIZEOF_ELF_PROGRAM)"

definition in_scratch :: "u64 \<Rightarrow> bool" where
  "in_scratch x \<longleftrightarrow> 0x10000 \<le> unat x \<and> unat x < 0x11000"

text \<open>A bootable disk: the headers are inside the first page, and the segments can be placed without
  overwriting the scratch space or each other.\<close>

definition bootable :: "(nat \<Rightarrow> nat \<Rightarrow> u8) \<Rightarrow> bool" where
  "bootable S \<longleftrightarrow> e_magic (boot_header S) = ELF_MAGIC \<and>
     unat (e_phoff (boot_header S)) + 56 * unat (e_phnum (boot_header S)) \<le> 4096 \<and>
     (\<forall>j < unat (e_phnum (boot_header S)). placed (boot_segment S j) \<and>
        (\<forall>x. touched (boot_segment S j) x \<longrightarrow> \<not> in_scratch x) \<and>
        (\<forall>i<j. \<forall>x. touched (boot_segment S i) x \<longrightarrow> \<not> touched (boot_segment S j) x))"

lemma loaded_kept:
  assumes "loaded S seg m" and "\<And>x. touched seg x \<Longrightarrow> m' x = m x"
  shows "loaded S seg m'"
  using assms unfolding loaded_def touched_def by auto

lemma boot_first_page:
  assumes "disk_serves d S"
  shows "\<exists>s1. boot_readseg d ELFHDR 1 PAGESIZE PAGESIZE s = Some s1 \<and> (\<forall>x. in_scratch x \<longrightarrow> bmem s1 x = first_page S x)"
proof -
  let ?seg = "\<lparr>p_type = 0, p_flags = 0, p_offset = 0, p_va = ELFHDR, p_pa = 0, p_filesz = PAGESIZE, p_memsz = PAGESIZE, p_align = 0\<rparr>"
  have "placed ?seg"
    by (simp add: placed_def ELFHDR_def PAGESIZE_def)
  from boot_readseg_loads [OF assms this, of s] show ?thesis
    by (auto simp: loaded_def in_scratch_def first_page_def ELFHDR_def PAGESIZE_def SECTORSIZE_def)
qed

lemma scratch_agree:
  assumes "\<forall>x. in_scratch x \<longrightarrow> m x = first_page S x" and "0x10000 \<le> unat a" and "unat a + n \<le> 0x11000" and "j < n"
  shows "m (a + of_nat j) = first_page S (a + of_nat j)"
proof -
  have "unat (a + of_nat j) = unat a + j"
    using assms(3,4) by (simp add: unat_word_ariths unat_of_nat)
  then show ?thesis
    using assms by (simp add: in_scratch_def)
qed

lemma scratch_header:
  assumes "\<forall>x. in_scratch x \<longrightarrow> m x = first_page S x"
  shows "read_elf_header m ELFHDR = boot_header S"
  unfolding boot_header_def using scratch_agree [OF assms, of ELFHDR 64]
  by (intro read_elf_header_cong) (auto simp: ELFHDR_def)

lemma boot_segments_loads:
  assumes d: "disk_serves d S" and bt: "bootable S" and N: "N = unat (e_phnum (boot_header S))"
    and ph0: "ph0 = ELFHDR + e_phoff (boot_header S)"
  shows "j + n = N \<Longrightarrow> \<forall>x. in_scratch x \<longrightarrow> bmem s x = first_page S x \<Longrightarrow>
    \<forall>i<j. loaded S (boot_segment S i) (bmem s) \<Longrightarrow>
    \<exists>s'. boot_segments d (ph0 + of_nat N * SIZEOF_ELF_PROGRAM) (ph0 + of_nat j * SIZEOF_ELF_PROGRAM) s = Some s' \<and>
      (\<forall>x. in_scratch x \<longrightarrow> bmem s' x = first_page S x) \<and> (\<forall>i<N. loaded S (boot_segment S i) (bmem s'))"
proof (induction n arbitrary: j s)
  case 0
  then show ?case
    by (subst boot_segments.simps) simp
next
  case (Suc n)
  let ?ph = "ph0 + of_nat j * SIZEOF_ELF_PROGRAM" and ?seg = "boot_segment S j"
  have size: "unat (e_phoff (boot_header S)) + 56 * N \<le> 4096"
    using bt by (simp add: bootable_def N)
  have at: "unat (ph0 + of_nat i * SIZEOF_ELF_PROGRAM) = 0x10000 + unat (e_phoff (boot_header S)) + 56 * i" if "i \<le> N" for i
    using size that by (simp add: ph0 ELFHDR_def SIZEOF_ELF_PROGRAM_def unat_word_ariths unat_of_nat)
  have j: "j < N"
    using Suc.prems(1) by simp
  have lt: "?ph < ph0 + of_nat N * SIZEOF_ELF_PROGRAM"
    using at [of j] at [of N] j by (simp add: word_less_nat_alt)
  have "read_elf_program (bmem s) ?ph = read_elf_program (first_page S) ?ph"
    using scratch_agree [OF Suc.prems(2), of ?ph 56] at [of j] size mult_le_mono2 [of "Suc j" N 56] j
    by (intro read_elf_program_cong) auto
  then have seg: "read_elf_program (bmem s) ?ph = ?seg"
    by (simp add: boot_segment_def ph0)
  have bj: "placed ?seg" "\<And>x. touched ?seg x \<Longrightarrow> \<not> in_scratch x" "\<And>i x. i < j \<Longrightarrow> touched (boot_segment S i) x \<Longrightarrow> \<not> touched ?seg x"
    using bt j unfolding bootable_def N by blast+
  obtain s1 where s1: "boot_readseg d (p_va ?seg) (ucast (p_offset ?seg div SECTORSIZE + 1)) (p_filesz ?seg) (p_memsz ?seg) s = Some s1"
    "loaded S ?seg (bmem s1)" "\<forall>x. \<not> touched ?seg x \<longrightarrow> bmem s1 x = bmem s x"
    using boot_readseg_loads [OF d bj(1)] by blast
  have scr: "\<forall>x. in_scratch x \<longrightarrow> bmem s1 x = first_page S x"
    using s1(3) bj(2) Suc.prems(2) by metis
  have "loaded S (boot_segment S i) (bmem s1)" if "i < Suc j" for i
  proof (cases "i = j")
    case False
    then have i: "i < j"
      using that by simp
    have kept: "bmem s1 x = bmem s x" if "touched (boot_segment S i) x" for x
      using s1(3) bj(3) [OF i that] by simp
    show ?thesis
      by (rule loaded_kept [OF Suc.prems(3) [rule_format, OF i]]) (rule kept)
  qed (use s1(2) in simp)
  with Suc.IH [of "Suc j" s1] Suc.prems(1) scr obtain s' where
    s': "boot_segments d (ph0 + of_nat N * SIZEOF_ELF_PROGRAM) (ph0 + of_nat (Suc j) * SIZEOF_ELF_PROGRAM) s1 = Some s'"
    "\<forall>x. in_scratch x \<longrightarrow> bmem s' x = first_page S x" "\<forall>i<N. loaded S (boot_segment S i) (bmem s')"
    by auto
  have next_ph: "?ph + SIZEOF_ELF_PROGRAM = ph0 + of_nat (Suc j) * SIZEOF_ELF_PROGRAM"
    by (simp add: algebra_simps)
  have "boot_segments d (ph0 + of_nat N * SIZEOF_ELF_PROGRAM) ?ph s = Some s'"
    using lt s1(1) s'(1) by (subst boot_segments.simps) (simp only: seg Let_def next_ph if_True option.simps bind.simps)
  then show ?case
    using s'(2,3) by blast
qed

text \<open>Booting from a bootable disk: the boot loader returns from all its waits and jumps to the entry point in the ELF
  header; every segment of the kernel is then in memory at its address, with the bytes of the file followed
  by zeros up to its memory size.\<close>

theorem boot_loads_kernel:
  assumes "disk_serves d S" and "bootable S"
  shows "\<exists>s'. boot d s = Some (e_entry (boot_header S), s') \<and>
    (\<forall>j < unat (e_phnum (boot_header S)). loaded S (boot_segment S j) (bmem s'))"
proof -
  obtain s1 where s1: "boot_readseg d ELFHDR 1 PAGESIZE PAGESIZE s = Some s1" "\<forall>x. in_scratch x \<longrightarrow> bmem s1 x = first_page S x"
    using boot_first_page [OF assms(1)] by blast
  have hdr: "read_elf_header (bmem s1) ELFHDR = boot_header S"
    by (rule scratch_header [OF s1(2)])
  let ?ph = "ELFHDR + e_phoff (boot_header S)" and ?N = "unat (e_phnum (boot_header S))"
  obtain s' where s': "boot_segments d (?ph + of_nat ?N * SIZEOF_ELF_PROGRAM) ?ph s1 = Some s'"
      "\<forall>x. in_scratch x \<longrightarrow> bmem s' x = first_page S x" "\<forall>i<?N. loaded S (boot_segment S i) (bmem s')"
    using boot_segments_loads [OF assms refl refl, of 0 ?N s1] s1(2) by auto
  have "(of_nat ?N :: u64) = ucast (e_phnum (boot_header S))"
    by simp
  then have "boot d s = Some (e_entry (boot_header S), s')"
    using s1(1) s'(1) hdr assms(2) scratch_header [OF s'(2)] by (simp add: boot_def Let_def bootable_def)
  then show ?thesis
    using s'(3) by blast
qed

text \<open>Without an ELF image in sector 1 the boot loader never leaves its loop.\<close>

theorem boot_needs_kernel:
  assumes "disk_serves d S" and "e_magic (boot_header S) \<noteq> ELF_MAGIC"
  shows "boot d s = None"
proof -
  obtain s1 where s1: "boot_readseg d ELFHDR 1 PAGESIZE PAGESIZE s = Some s1" "\<forall>x. in_scratch x \<longrightarrow> bmem s1 x = first_page S x"
    using boot_first_page [OF assms(1)] by blast
  then show ?thesis
    using scratch_header [OF s1(2)] assms(2) by (simp add: boot_def)
qed

section \<open>A small disk\<close>

text \<open>A controller that is always ready and decodes the block address from the last command, with a kernel file of one segment:
  two bytes of code and one byte of zeros at \<open>0x40000\<close>.\<close>

fun block_address :: "port_write list \<Rightarrow> nat" where
  "block_address (Outb _ _ # Outb _ e # Outb _ c # Outb _ b # Outb _ a # _)
     = unat a + 2 ^ 8 * unat b + 2 ^ 16 * unat c + 2 ^ 24 * (unat e mod 16)"
| "block_address _ = 0"

definition small_disk :: "(nat \<Rightarrow> u8) \<Rightarrow> nat \<Rightarrow> nat \<Rightarrow> u8" where
  "small_disk file n i = file (512 * (n - 1) + i)"

definition small_ata :: "(nat \<Rightarrow> nat \<Rightarrow> u8) \<Rightarrow> ata" where
  "small_ata S = \<lparr>status = (\<lambda>_. 0x40), sector_data = (\<lambda>log i. S (block_address (rev log)) i)\<rparr>"

definition small_kernel_file :: "nat \<Rightarrow> u8" where
  "small_kernel_file = (\<lambda>_. 0)(0 := 0x7F, 1 := 0x45, 2 := 0x4C, 3 := 0x46, 26 := 4, 32 := 0x40, 56 := 1,
     64 := 1, 73 := 0x10, 82 := 4, 96 := 2, 104 := 3, 4096 := 0x90, 4097 := 0xC3)"

definition small_bootstate :: bootstate where
  "small_bootstate = \<lparr>bmem = (\<lambda>_. 0), ata_log = [], polls = 0\<rparr>"

lemma small_ata_serves: "disk_serves (small_ata S) S"
proof -
  have "unat (e OR 0xE0) mod 16 = unat e mod 16" for e :: u8
  proof -
    have "unat (take_bit 4 (e OR 0xE0)) = unat (take_bit 4 e)"
      by (simp add: take_bit_or)
    then show ?thesis
      by (simp only: unsigned_take_bit_eq) (simp add: take_bit_eq_mod)
  qed
  then show ?thesis
    unfolding disk_serves_def small_ata_def by auto
qed

lemma small_file_byte: "file_byte (small_disk file) i = file i"
  by (simp add: file_byte_def small_disk_def)

lemma small_first_page: "first_page (small_disk file) x = file (unat x - 0x10000)"
  by (simp add: first_page_def small_file_byte)

lemma small_boot_header:
  "e_magic (boot_header (small_disk small_kernel_file)) = ELF_MAGIC" "e_entry (boot_header (small_disk small_kernel_file)) = 0x40000"
  "e_phoff (boot_header (small_disk small_kernel_file)) = 0x40" "e_phnum (boot_header (small_disk small_kernel_file)) = 1"
  by (simp_all add: boot_header_def read_elf_header_def load16_def load32_def load64_def small_first_page small_kernel_file_def
      ELF_MAGIC_def ELFHDR_def del: upt_rec_numeral)

lemma small_boot_segment:
  "boot_segment (small_disk small_kernel_file) 0 = \<lparr>p_type = 1, p_flags = 0, p_offset = 0x1000, p_va = 0x40000, p_pa = 0,
     p_filesz = 2, p_memsz = 3, p_align = 0\<rparr>"
  unfolding boot_segment_def small_boot_header
  by (simp add: read_elf_program_def load32_def load64_def small_first_page small_kernel_file_def ELFHDR_def)

lemma small_disk_bootable: "bootable (small_disk small_kernel_file)"
  by (auto simp: bootable_def small_boot_header small_boot_segment placed_def touched_def in_scratch_def)

theorem boot_loads_kernel_witness:
  "\<exists>s'. boot (small_ata (small_disk small_kernel_file)) small_bootstate = Some (0x40000, s') \<and>
     bmem s' 0x40001 = 0xC3 \<and> bmem s' 0x40002 = 0"
proof -
  have f: "small_kernel_file 4097 = 0xC3"
    by (simp add: small_kernel_file_def)
  obtain s' where s': "boot (small_ata (small_disk small_kernel_file)) small_bootstate = Some (0x40000, s')"
    "loaded (small_disk small_kernel_file) (boot_segment (small_disk small_kernel_file) 0) (bmem s')"
    using boot_loads_kernel [OF small_ata_serves small_disk_bootable, of small_bootstate] by (auto simp: small_boot_header)
  then show ?thesis
    using f by (intro exI [of _ s']) (simp add: loaded_def small_boot_segment small_file_byte)
qed

theorem boot_needs_kernel_witness:
  "boot (small_ata (small_disk (\<lambda>_. 0))) small_bootstate = None"
proof (rule boot_needs_kernel [OF small_ata_serves])
  show "e_magic (boot_header (small_disk (\<lambda>_. 0))) \<noteq> ELF_MAGIC"
    by (simp add: boot_header_def read_elf_header_def load32_def small_first_page ELF_MAGIC_def)
qed

end
