(* ===== verification/Boot_Disk.thy ===== *)
theory Boot_Disk
  imports Boot
begin

text \<open>
  The tool that writes the disk image (\<^verbatim>\<open>build/mkbootdisk.c\<close>): the boot sector with its signature, the files behind it
  in whole sectors, the search for a partition, and the multiboot header. The files it can open and the answers of
  the system call \<open>write\<close> are parameters. Messages on the error output are left out; \<open>usage\<close> ends the program with status 1.
\<close>

section \<open>The host\<close>

text \<open>One call of \<open>write\<close>: it writes some bytes, it is interrupted (\<open>EINTR\<close>), or it fails. \<open>write_result h n amt\<close> is the
  answer to the \<open>n\<close>-th call, with \<open>amt\<close> bytes to write.\<close>

datatype write_answer = Wrote nat | Interrupted | Write_error

record host =
  files :: "u8 list \<Rightarrow> u8 list option"
  write_result :: "nat \<Rightarrow> nat \<Rightarrow> write_answer"

text \<open>The file behind \<open>diskfd\<close> with its offset, the globals \<open>curoff\<close> and \<open>maxoff\<close>, and the number of calls of \<open>write\<close> so far.\<close>

record diskio =
  disk :: "nat \<Rightarrow> u8"
  disk_size :: nat
  offset :: nat
  curoff :: u64
  maxoff :: u64
  writes :: nat

definition usage :: "'a outcome" where
  "usage = fail (Exit 1)"

definition fopencheck :: "host \<Rightarrow> u8 list \<Rightarrow> u8 list outcome" where
  "fopencheck h name = (case files h name of Some content \<Rightarrow> ret content | None \<Rightarrow> usage)"

text \<open>\<open>open\<close> for reading and writing.\<close>

definition open_disk :: "host \<Rightarrow> u8 list \<Rightarrow> diskio \<Rightarrow> diskio outcome" where
  "open_disk h name s =
     bindo (fopencheck h name) (\<lambda>content.
       ret (s\<lparr>disk := \<lambda>x. if x < length content then content ! x else 0, disk_size := length content, offset := 0\<rparr>))"

definition put_bytes :: "u8 list \<Rightarrow> diskio \<Rightarrow> diskio" where
  "put_bytes bs s =
     s\<lparr>disk := \<lambda>x. if offset s \<le> x \<and> x < offset s + length bs then bs ! (x - offset s) else disk s x,
       disk_size := (if bs = [] then disk_size s else max (disk_size s) (offset s + length bs)), offset := offset s + length bs\<rparr>"

section \<open>Writing\<close>

partial_function (option) write_all :: "host \<Rightarrow> u8 list \<Rightarrow> diskio \<Rightarrow> diskio outcome" where
  "write_all h data s =
     (if data = [] then ret s
      else let s1 = s\<lparr>writes := writes s + 1\<rparr>
           in case write_result h (writes s) (length data) of
                Interrupted \<Rightarrow> write_all h data s1
              | Write_error \<Rightarrow> usage
              | Wrote w \<Rightarrow>
                  if w = 0 then usage
                  else write_all h (drop w data) ((put_bytes (take w data) s1)\<lparr>curoff := curoff s + of_nat w\<rparr>))"

definition diskwrite :: "host \<Rightarrow> u8 list \<Rightarrow> diskio \<Rightarrow> diskio outcome" where
  "diskwrite h data s =
     (if maxoff s \<noteq> 0 \<and> curoff s + of_nat (length data) > maxoff s then usage else write_all h data s)"

definition zerobuf :: "nat \<Rightarrow> u8 list" where
  "zerobuf n = replicate n 0"

text \<open>The loop over \<open>fread\<close>, which delivers 4096 bytes at a time.\<close>

function copy_file :: "host \<Rightarrow> u8 list \<Rightarrow> diskio \<Rightarrow> diskio outcome" where
  "copy_file h content s =
     (if content = [] then ret s
      else bindo (diskwrite h (take 4096 content) s) (\<lambda>s1. copy_file h (drop 4096 content) s1))"
  by auto
termination
  by (relation "measure (\<lambda>(h, content, s). length content)") auto

declare copy_file.simps [simp del]

text \<open>Writing sectors of zeros until \<open>nsectors\<close> reaches a number.\<close>

partial_function (option) skip_sectors :: "host \<Rightarrow> u64 \<Rightarrow> u64 \<Rightarrow> diskio \<Rightarrow> (u64 \<times> diskio) outcome" where
  "skip_sectors h skipto nsectors s =
     (if nsectors < skipto
      then bindo (diskwrite h (zerobuf 512) s) (\<lambda>s1. skip_sectors h skipto (nsectors + 1) s1)
      else ret (nsectors, s))"

definition write_file :: "host \<Rightarrow> u8 list \<Rightarrow> u64 \<Rightarrow> diskio \<Rightarrow> (u64 \<times> diskio) outcome" where
  "write_file h content nsectors s =
     bindo (copy_file h content s) (\<lambda>s1.
       let n = length content; pad = (if n mod 512 \<noteq> 0 then 512 - n mod 512 else 0)
       in bindo (if n mod 512 \<noteq> 0 then diskwrite h (zerobuf pad) s1 else ret s1) (\<lambda>s2.
            ret (nsectors + of_nat ((n + pad) div 512), s2)))"

section \<open>Arguments\<close>

text \<open>\<open>strtoul\<close> with base 0 on a string that starts with a digit: the number, saturated, and the rest of the string.\<close>

definition digit_of :: "u8 \<Rightarrow> nat" where
  "digit_of c =
     (if 48 \<le> c \<and> c \<le> 57 then unat c - 48 else if 97 \<le> c \<and> c \<le> 122 then unat c - 87
      else if 65 \<le> c \<and> c \<le> 90 then unat c - 55 else 99)"

fun take_number :: "nat \<Rightarrow> nat \<Rightarrow> u8 list \<Rightarrow> nat \<times> u8 list" where
  "take_number b n [] = (n, [])"
| "take_number b n (c # cs) = (if digit_of c < b then take_number b (n * b + digit_of c) cs else (n, c # cs))"

definition strtoul :: "u8 list \<Rightarrow> u64 \<times> u8 list" where
  "strtoul cs =
     (let (n, rest) =
        (if hd cs = 48
         then if length cs \<ge> 3 \<and> (cs ! 1 = 120 \<or> cs ! 1 = 88) \<and> digit_of (cs ! 2) < 16
              then take_number 16 0 (drop 2 cs) else take_number 8 0 cs
         else take_number 10 0 cs)
      in (of_nat (min n (2 ^ 64 - 1)), rest))"

text \<open>An argument of the form @ number.\<close>

definition skip_argument :: "u8 list \<Rightarrow> u64 option" where
  "skip_argument arg =
     (case arg of
        c # d # ds \<Rightarrow>
          if c = 64 \<and> 48 \<le> d \<and> d \<le> 57 \<and> snd (strtoul (d # ds)) = [] then Some (fst (strtoul (d # ds))) else None
      | _ \<Rightarrow> None)"

fun write_arguments :: "host \<Rightarrow> u8 list list \<Rightarrow> u64 \<Rightarrow> diskio \<Rightarrow> (u64 \<times> diskio) outcome" where
  "write_arguments h [] nsectors s = ret (nsectors, s)"
| "write_arguments h (arg # args) nsectors s =
     (case skip_argument arg of
        Some skipto \<Rightarrow>
          if nsectors > skipto then usage
          else bindo (skip_sectors h skipto nsectors s) (\<lambda>(n, s1). write_arguments h args n s1)
      | None \<Rightarrow>
          bindo (fopencheck h arg) (\<lambda>content.
          bindo (write_file h content nsectors s) (\<lambda>(n, s1). write_arguments h args n s1)))"

section \<open>Partitions\<close>

definition readsect :: "u32 \<Rightarrow> diskio \<Rightarrow> ((nat \<Rightarrow> u8) \<times> diskio) outcome" where
  "readsect sectno s =
     (let start = unat sectno * 512
      in if disk_size s < start + 512 then usage else ret (\<lambda>i. disk s (start + i), s\<lparr>offset := start + 512\<rparr>))"

definition PTABLE_OFFSET :: nat where "PTABLE_OFFSET = 446"
definition PTABLE_MAGIC_OFFSET :: nat where "PTABLE_MAGIC_OFFSET = 510"
definition PTABLE_MAGIC1 :: u8 where "PTABLE_MAGIC1 = 0x55"
definition PTABLE_MAGIC2 :: u8 where "PTABLE_MAGIC2 = 0xAA"
definition PTYPE_JOS_KERN :: u8 where "PTYPE_JOS_KERN = 0x27"
definition PTYPE_DOS_EXTENDED :: u8 where "PTYPE_DOS_EXTENDED = 0x05"
definition PTYPE_W95_EXTENDED :: u8 where "PTYPE_W95_EXTENDED = 0x0F"
definition PTYPE_LINUX_EXTENDED :: u8 where "PTYPE_LINUX_EXTENDED = 0x85"

text \<open>The fields of a partition descriptor that the program reads.\<close>

record Partitiondesc =
  pd_type :: u8
  lba_start :: u32
  lba_length :: u32

definition partition_at :: "(nat \<Rightarrow> u8) \<Rightarrow> nat \<Rightarrow> Partitiondesc" where
  "partition_at buf i =
     (let base = PTABLE_OFFSET + 16 * i; m = (\<lambda>a :: u64. buf (base + unat a))
      in \<lparr>pd_type = m 4, lba_start = load32 m 8, lba_length = load32 m 12\<rparr>)"

definition has_magic :: "(nat \<Rightarrow> u8) \<Rightarrow> bool" where
  "has_magic buf \<longleftrightarrow> buf PTABLE_MAGIC_OFFSET = PTABLE_MAGIC1 \<and> buf (PTABLE_MAGIC_OFFSET + 1) = PTABLE_MAGIC2"

text \<open>The loop over the four entries of a table; for an extended partition it continues with the table found there.\<close>

partial_function (option) find_entries ::
  "(nat \<Rightarrow> u8) \<Rightarrow> u64 \<Rightarrow> u64 \<Rightarrow> u32 \<Rightarrow> nat \<Rightarrow> diskio \<Rightarrow> (u32 \<times> diskio) outcome" where
  "find_entries buf partition_sect extended_sect partoff i s =
     (if i < 4 then
        let p = partition_at buf i
        in if lba_length p = 0 then find_entries buf partition_sect extended_sect partoff (i + 1) s
           else if pd_type p = PTYPE_JOS_KERN then
             ret (1, s\<lparr>offset := unat ((partition_sect + ucast (lba_start p)) * 512), maxoff := ucast (lba_length p) * 512\<rparr>)
           else if pd_type p = PTYPE_DOS_EXTENDED \<or> pd_type p = PTYPE_W95_EXTENDED \<or> pd_type p = PTYPE_LINUX_EXTENDED then
             let inner_sect = (if extended_sect = 0 then ucast (lba_start p) else extended_sect);
                 sect = ucast (lba_start p) + extended_sect
             in bindo (readsect (ucast sect) s) (\<lambda>(buf1, s1).
                bindo (if has_magic buf1
                       then find_entries buf1 sect inner_sect (if partoff \<noteq> 0 then partoff + 1 else 4) 0 s1
                       else ret (0, s1)) (\<lambda>(r, s2).
                  if sint r > 0 then ret (r, s2)
                  else find_entries buf partition_sect extended_sect partoff (i + 1) s2))
           else find_entries buf partition_sect extended_sect partoff (i + 1) s
      else ret (0, s))"

definition find_partition :: "u64 \<Rightarrow> u64 \<Rightarrow> u32 \<Rightarrow> diskio \<Rightarrow> (u32 \<times> diskio) outcome" where
  "find_partition partition_sect extended_sect partoff s =
     bindo (readsect (ucast partition_sect) s) (\<lambda>(buf, s1).
       if \<not> has_magic buf then ret (0, s1) else find_entries buf partition_sect extended_sect partoff 0 s1)"

section \<open>The program\<close>

definition multiboot_header :: "u8 list" where
  "multiboot_header = [0x02, 0xB0, 0xAD, 0x1B, 0, 0, 0, 0, 0xFE, 0x4F, 0x52, 0xE4]"

definition do_multiboot :: "host \<Rightarrow> u8 list \<Rightarrow> diskio \<Rightarrow> diskio outcome" where
  "do_multiboot h filename s =
     bindo (open_disk h filename s) (\<lambda>s1.
     bindo (readsect 0 s1) (\<lambda>(buf, s2).
       let elfh = read_elf_header (\<lambda>a. buf (unat a)) 0
       in if e_magic elfh \<noteq> ELF_MAGIC then usage
          else let pos = e_phoff elfh + SIZEOF_ELF_PROGRAM * ucast (e_phnum elfh)
               in if pos \<ge> 4096 - of_nat (length multiboot_header) then usage
                  else diskwrite h multiboot_header (s2\<lparr>offset := unat pos\<rparr>)))"

definition boot_sector :: "u8 list \<Rightarrow> u8 list" where
  "boot_sector content = content @ zerobuf (510 - length content) @ [0x55, 0xAA]"

definition write_boot_sector :: "host \<Rightarrow> u8 list \<Rightarrow> diskio \<Rightarrow> diskio outcome" where
  "write_boot_sector h name s =
     bindo (fopencheck h name) (\<lambda>content.
       if length (take 4096 content) > 510 then usage else diskwrite h (boot_sector content) s)"

definition dash_p :: "u8 list" where "dash_p = [45, 112]"
definition dash_m :: "u8 list" where "dash_m = [45, 109]"

text \<open>\<open>main\<close>; \<open>args\<close> are the arguments without the name of the program.\<close>

definition mkbootdisk :: "host \<Rightarrow> u8 list list \<Rightarrow> diskio \<Rightarrow> diskio outcome" where
  "mkbootdisk h args0 s0 =
     bindo (if args0 \<noteq> [] \<and> hd args0 = dash_p then
              if length args0 < 2 then usage
              else bindo (open_disk h (args0 ! 1) s0) (\<lambda>s1.
                   bindo (find_partition 0 0 0 s1) (\<lambda>(r, s2).
                     if sint r \<le> 0 then usage else ret (False, drop 2 args0, s2)))
            else ret (True, args0, s0)) (\<lambda>(bootsector_special, args, s1).
       if args \<noteq> [] \<and> hd args = dash_m then if length args < 2 then usage else do_multiboot h (args ! 1) s1
       else if args = [] then usage
       else bindo (if bootsector_special
                   then bindo (write_boot_sector h (hd args) s1) (\<lambda>s2. ret (1, tl args, s2))
                   else ret (0, args, s1)) (\<lambda>(nsectors, rest, s2).
            bindo (write_arguments h rest nsectors s2) (\<lambda>(n, s3).
            bindo (skip_sectors h 1024 n s3) (\<lambda>(_, s4). ret s4))))"

section \<open>Writes that make progress\<close>

text \<open>What the tool relies on: a call of \<open>write\<close> never writes more than it was given; it never fails or writes nothing, and it is
  not interrupted forever.\<close>

definition writes_bounded :: "host \<Rightarrow> bool" where
  "writes_bounded h \<longleftrightarrow> (\<forall>n amt w. write_result h n amt = Wrote w \<longrightarrow> w \<le> amt)"

definition writes_progress :: "host \<Rightarrow> bool" where
  "writes_progress h \<longleftrightarrow> writes_bounded h \<and>
     (\<forall>n amt. 0 < amt \<longrightarrow> write_result h n amt \<noteq> Write_error \<and> write_result h n amt \<noteq> Wrote 0 \<and>
        (\<exists>k\<ge>n. write_result h k amt \<noteq> Interrupted))"

text \<open>The state after the bytes \<open>bs\<close> have been written at the offset, by any number of calls.\<close>

definition appended :: "u8 list \<Rightarrow> diskio \<Rightarrow> diskio \<Rightarrow> bool" where
  "appended bs s s' \<longleftrightarrow> (\<exists>k. s' = (put_bytes bs s)\<lparr>curoff := curoff s + of_nat (length bs), writes := k\<rparr>)"

lemma appended_Nil [intro, simp]: "appended [] s s"
  unfolding appended_def put_bytes_def by (intro exI [of _ "writes s"]) (cases s; auto simp: fun_eq_iff)

lemma appended_trans [trans]: "appended a s s1 \<Longrightarrow> appended b s1 s2 \<Longrightarrow> appended (a @ b) s s2"
  unfolding appended_def put_bytes_def by (cases s) (auto simp: fun_eq_iff nth_append)

lemma appended_fields:
  assumes "appended bs s s'"
  shows "offset s' = offset s + length bs" and "maxoff s' = maxoff s" and "curoff s' = curoff s + of_nat (length bs)"
    and "disk_size s' = (if bs = [] then disk_size s else max (disk_size s) (offset s + length bs))"
    and "disk s' x = (if offset s \<le> x \<and> x < offset s + length bs then bs ! (x - offset s) else disk s x)"
  using assms by (auto simp: appended_def put_bytes_def)

lemma appended_step:
  assumes "w \<le> length data" and "appended (drop w data) ((put_bytes (take w data) (s\<lparr>writes := k\<rparr>))\<lparr>curoff := curoff s + of_nat w\<rparr>) s'"
  shows "appended data s s'"
proof -
  have "appended (take w data) s ((put_bytes (take w data) (s\<lparr>writes := k\<rparr>))\<lparr>curoff := curoff s + of_nat w\<rparr>)"
    using assms(1) unfolding appended_def put_bytes_def by (intro exI [of _ k]) (cases s; auto cong: if_cong)
  from appended_trans [OF this assms(2)] show ?thesis
    by simp
qed

lemma appended_interrupted: "appended data (s\<lparr>writes := k\<rparr>) s' \<Longrightarrow> appended data s s'"
  by (cases s) (simp add: appended_def put_bytes_def cong: if_cong)

lemma write_all_appended:
  assumes "write_all h data s = Some r" and "writes_bounded h"
  shows "\<forall>s'. r = Inr s' \<longrightarrow> appended data s s'"
proof (rule write_all.raw_induct [where P = "\<lambda>h data s r. writes_bounded h \<longrightarrow> (\<forall>s'. r = Inr s' \<longrightarrow> appended data s s')",
      OF _ assms(1), THEN mp, OF _ assms(2)], intro allI impI)
  fix f :: "host \<Rightarrow> u8 list \<Rightarrow> diskio \<Rightarrow> diskio outcome" and h data s r s'
  assume IH: "\<And>h data s r. f h data s = Some r \<Longrightarrow> writes_bounded h \<longrightarrow> (\<forall>s'. r = Inr s' \<longrightarrow> appended data s s')"
    and body: "(if data = [] then ret s
      else let s1 = s\<lparr>writes := writes s + 1\<rparr>
           in case write_result h (writes s) (length data) of
                Wrote w \<Rightarrow>
                  if w = 0 then usage
                  else f h (drop w data) ((put_bytes (take w data) s1)\<lparr>curoff := curoff s + of_nat w\<rparr>)
              | Interrupted \<Rightarrow> f h data s1
              | Write_error \<Rightarrow> usage) = Some r"
    and h: "writes_bounded h" and r: "r = Inr s'"
  have no: "usage \<noteq> Some (Inr s')"
    by (simp add: usage_def fail_def)
  consider "data = []" | "data \<noteq> []" "write_result h (writes s) (length data) = Interrupted"
    | w where "data \<noteq> []" "write_result h (writes s) (length data) = Wrote w" "w \<noteq> 0"
    using body no unfolding r by (cases "write_result h (writes s) (length data)") (fastforce split: if_splits)+
  then show "appended data s s'"
  proof cases
    case 1
    then show ?thesis
      using body unfolding r by (simp add: ret_def)
  next
    case 2
    then have "f h data (s\<lparr>writes := writes s + 1\<rparr>) = Some r"
      using body by simp
    then show ?thesis
      using IH h r appended_interrupted by blast
  next
    case (3 w)
    then have "f h (drop w data) ((put_bytes (take w data) (s\<lparr>writes := writes s + 1\<rparr>))\<lparr>curoff := curoff s + of_nat w\<rparr>) = Some r"
      using body by simp
    moreover have "w \<le> length data"
      using h 3(2) unfolding writes_bounded_def by blast
    ultimately show ?thesis
      using IH h r appended_step by blast
  qed
qed

lemma write_all_returns:
  assumes "writes_progress h"
  shows "\<exists>s'. write_all h data s = ret s'"
proof (induction "length data" arbitrary: data s rule: less_induct)
  case less
  show ?case
  proof (cases "data = []")
    case True
    then show ?thesis
      by (subst write_all.simps) simp
  next
    case False
    then have amt: "0 < length data"
      by simp
    obtain k where k: "writes s \<le> k" "write_result h k (length data) \<noteq> Interrupted"
      using assms amt unfolding writes_progress_def by blast
    then show ?thesis
    proof (induction "k - writes s" arbitrary: s rule: less_induct)
      case inner: less
      show ?case
      proof (cases "write_result h (writes s) (length data)")
        case (Wrote w)
        have "w \<noteq> 0"
          using assms amt Wrote unfolding writes_progress_def by metis
        with less(1) [of "drop w data"] amt Wrote False show ?thesis
          by (subst write_all.simps) auto
      next
        case Interrupted
        then have "writes s < k"
          using inner.prems by (cases "writes s = k") auto
        with inner.hyps [of "s\<lparr>writes := writes s + 1\<rparr>"] inner.prems Interrupted False show ?thesis
          by (subst write_all.simps) auto
      next
        case Write_error
        then show ?thesis
          using assms amt unfolding writes_progress_def by blast
      qed
    qed
  qed
qed

lemma diskwrite_appended: "diskwrite h data s = ret s' \<Longrightarrow> writes_bounded h \<Longrightarrow> appended data s s'"
  using write_all_appended by (auto simp: diskwrite_def ret_def usage_def fail_def split: if_splits)

text \<open>There is no limit, or \<open>k\<close> more bytes stay below it.\<close>

definition room :: "diskio \<Rightarrow> nat \<Rightarrow> bool" where
  "room s k \<longleftrightarrow> maxoff s = 0 \<or> unat (curoff s) + k \<le> unat (maxoff s)"

lemma room_appended: "room s (length bs + k) \<Longrightarrow> appended bs s s' \<Longrightarrow> room s' k"
  using appended_fields [of bs s s'] unat_less_2p64 [of "maxoff s"] by (auto simp: room_def unat_word_ariths unat_of_nat)

lemma diskwrite_returns:
  assumes "writes_progress h" and "room s (length data)"
  shows "\<exists>s'. diskwrite h data s = ret s' \<and> appended data s s'"
proof -
  obtain s' where "write_all h data s = ret s'"
    using write_all_returns [OF assms(1)] by blast
  moreover have "maxoff s = 0 \<or> curoff s + of_nat (length data) \<le> maxoff s"
    using assms(2) unat_less_2p64 [of "maxoff s"]
    by (auto simp: room_def word_le_nat_alt unat_word_ariths unat_of_nat)
  ultimately have "diskwrite h data s = ret s'"
    by (auto simp: diskwrite_def not_less)
  then show ?thesis
    using diskwrite_appended assms(1) unfolding writes_progress_def by blast
qed

section \<open>The image\<close>

text \<open>The image the arguments describe: every file padded to whole sectors, zeros up to a sector given as @ number (which must not
  be behind), and zeros up to 1024 sectors. It is undefined when a file does not exist or a number is too small.\<close>

definition padded :: "u8 list \<Rightarrow> u8 list" where
  "padded c = c @ zerobuf ((512 - length c mod 512) mod 512)"

definition zero_filled :: "nat \<Rightarrow> u8 list \<Rightarrow> u8 list" where
  "zero_filled n img = img @ zerobuf (512 * n - length img)"

fun image_layout :: "host \<Rightarrow> u8 list list \<Rightarrow> u8 list \<Rightarrow> u8 list option" where
  "image_layout h [] img = Some (zero_filled 1024 img)"
| "image_layout h (arg # args) img =
     (case skip_argument arg of
        Some n \<Rightarrow> if 512 * unat n < length img then None else image_layout h args (zero_filled (unat n) img)
      | None \<Rightarrow> (case files h arg of None \<Rightarrow> None | Some c \<Rightarrow> image_layout h args (img @ padded c)))"

text \<open>An upper bound for the number of sectors the arguments add.\<close>

fun sector_count :: "host \<Rightarrow> u8 list list \<Rightarrow> nat" where
  "sector_count h [] = 0"
| "sector_count h (arg # args) =
     (case skip_argument arg of Some n \<Rightarrow> unat n
      | None \<Rightarrow> (case files h arg of None \<Rightarrow> 0 | Some c \<Rightarrow> length (padded c) div 512)) + sector_count h args"

lemma length_zerobuf [simp]: "length (zerobuf n) = n"
  by (simp add: zerobuf_def)

lemma zerobuf_append: "zerobuf m @ zerobuf n = zerobuf (m + n)"
  by (simp add: zerobuf_def replicate_add)

lemma dvd_padded [simp]: "512 dvd length (padded c)"
proof (cases "length c mod 512 = 0")
  case False
  have whole: "n + (512 - r) = 512 * (q + 1)" if "n = 512 * q + r" and "r < 512" for n q r :: nat
    using that by simp
  have "length c + (512 - length c mod 512) = 512 * (length c div 512 + 1)"
    using whole [OF mult_div_mod_eq [symmetric, of "length c" 512] mod_less_divisor [OF zero_less_numeral]] .
  then show ?thesis
    using False by (simp add: padded_def)
qed (auto simp: padded_def mod_eq_0_iff_dvd)

text \<open>The disk holds exactly the image \<open>img\<close>, and the next byte goes behind it.\<close>

definition holds :: "u8 list \<Rightarrow> diskio \<Rightarrow> bool" where
  "holds img s \<longleftrightarrow> maxoff s = 0 \<and> offset s = length img \<and> disk_size s = length img \<and>
     (\<forall>x. disk s x = (if x < length img then img ! x else 0))"

lemma holds_appended: "holds img s \<Longrightarrow> appended bs s s' \<Longrightarrow> holds (img @ bs) s'"
  using appended_fields [of bs s s'] by (auto simp: holds_def nth_append)

lemma copy_file_returns:
  assumes "writes_progress h"
  shows "room s (length c) \<Longrightarrow> \<exists>s'. copy_file h c s = ret s' \<and> appended c s s'"
proof (induction "length c" arbitrary: c s rule: less_induct)
  case less
  show ?case
  proof (cases "c = []")
    case True
    then show ?thesis
      by (subst copy_file.simps) auto
  next
    case False
    have r: "room s (length (take 4096 c) + length (drop 4096 c))"
      using less.prems unfolding length_append [symmetric] append_take_drop_id .
    then have "room s (length (take 4096 c))"
      by (auto simp: room_def)
    then obtain s1 where s1: "diskwrite h (take 4096 c) s = ret s1" "appended (take 4096 c) s s1"
      using diskwrite_returns [OF assms] by blast
    obtain s2 where s2: "copy_file h (drop 4096 c) s1 = ret s2" "appended (drop 4096 c) s1 s2"
      using less.hyps [OF _ room_appended [OF r s1(2)]] False by auto
    have "copy_file h c s = ret s2"
      using False s1(1) s2(1) by (subst copy_file.simps) simp
    then show ?thesis
      using appended_trans [OF s1(2) s2(2)] by simp
  qed
qed

lemma skip_sectors_returns:
  assumes "writes_progress h"
  shows "room s (512 * (unat skipto - unat n)) \<Longrightarrow> \<exists>s'. skip_sectors h skipto n s = ret (max skipto n, s') \<and>
     appended (zerobuf (512 * (unat skipto - unat n))) s s'"
proof (induction "unat skipto - unat n" arbitrary: n s)
  case 0
  then have "\<not> n < skipto"
    by (simp add: word_less_nat_alt)
  then have "skip_sectors h skipto n s = ret (max skipto n, s)"
    by (subst skip_sectors.simps) (auto simp: max_def not_less)
  then show ?case
    using 0 by (auto simp: zerobuf_def)
next
  case (Suc k)
  then have lt: "n < skipto"
    by (simp add: word_less_nat_alt)
  have u: "unat (n + 1) = unat n + 1"
    using lt unat_less_2p64 [of skipto] by (simp add: unat_word_ariths word_less_nat_alt)
  have mx: "max skipto (n + 1) = max skipto n"
    using lt u by (auto simp: max_def word_le_nat_alt word_less_nat_alt word_unat_eq_iff)
  have k: "k = unat skipto - unat (n + 1)" "512 + 512 * (unat skipto - unat (n + 1)) = 512 * (unat skipto - unat n)"
    using Suc.hyps(2) u by simp_all
  then have r: "room s (length (zerobuf 512) + 512 * (unat skipto - unat (n + 1)))"
    using Suc.prems by simp
  then have "room s (length (zerobuf 512))"
    by (auto simp: room_def)
  then obtain s1 where s1: "diskwrite h (zerobuf 512) s = ret s1" "appended (zerobuf 512) s s1"
    using diskwrite_returns [OF assms] by blast
  obtain s2 where s2: "skip_sectors h skipto (n + 1) s1 = ret (max skipto (n + 1), s2)"
      "appended (zerobuf (512 * (unat skipto - unat (n + 1)))) s1 s2"
    using Suc.hyps(1) [OF k(1) room_appended [OF r s1(2)]] by blast
  have "appended (zerobuf (512 * (unat skipto - unat n))) s s2"
    using appended_trans [OF s1(2) s2(2)] k(2) by (simp add: zerobuf_append)
  moreover have "skip_sectors h skipto n s = ret (max skipto n, s2)"
    using lt s1(1) s2(1) mx by (subst skip_sectors.simps) simp
  ultimately show ?case
    by blast
qed

lemma write_file_returns:
  assumes "writes_progress h" and "room s (length (padded c))"
  shows "\<exists>s'. write_file h c n s = ret (n + of_nat (length (padded c) div 512), s') \<and> appended (padded c) s s'"
proof -
  have "room s (length c)"
    using assms(2) by (auto simp: room_def padded_def)
  then obtain s1 where s1: "copy_file h c s = ret s1" "appended c s s1"
    using copy_file_returns [OF assms(1)] by blast
  show ?thesis
  proof (cases "length c mod 512 = 0")
    case True
    then show ?thesis
      using s1 by (simp add: write_file_def padded_def zerobuf_def)
  next
    case False
    let ?zeros = "zerobuf (512 - length c mod 512)"
    have pad: "padded c = c @ ?zeros"
      using False by (simp add: padded_def)
    then have "room s (length c + length ?zeros)"
      using assms(2) by simp
    then obtain s2 where s2: "diskwrite h ?zeros s1 = ret s2" "appended ?zeros s1 s2"
      using diskwrite_returns [OF assms(1)] room_appended s1(2) by blast
    then show ?thesis
      using appended_trans [OF s1(2) s2(2)] s1(1) False by (simp add: write_file_def Let_def pad)
  qed
qed

lemma zero_filled_sectors: "length img = 512 * m \<Longrightarrow> length (zero_filled n img) = 512 * max m n"
  by (simp add: zero_filled_def max_def) 

lemma skip_fills:
  assumes h: "writes_progress h" and s: "holds img s" and n: "length img = 512 * unat n"
  shows "\<exists>s'. skip_sectors h skipto n s = ret (max skipto n, s') \<and> holds (zero_filled (unat skipto) img) s'"
proof -
  obtain s' where s': "skip_sectors h skipto n s = ret (max skipto n, s')" "appended (zerobuf (512 * (unat skipto - unat n))) s s'"
    using skip_sectors_returns [OF h] s unfolding holds_def room_def by blast
  moreover have "holds (zero_filled (unat skipto) img) s'"
    using holds_appended [OF s s'(2)] n by (simp add: zero_filled_def right_diff_distrib')
  ultimately show ?thesis
    by blast
qed

lemma write_arguments_image:
  assumes h: "writes_progress h"
  shows "holds img s \<Longrightarrow> length img = 512 * unat n \<Longrightarrow> unat n + sector_count h args < 2 ^ 64 \<Longrightarrow>
    (case image_layout h args img of
       None \<Rightarrow> write_arguments h args n s = fail (Exit 1)
     | Some final \<Rightarrow> \<exists>n' s' s''. write_arguments h args n s = ret (n', s') \<and> skip_sectors h 1024 n' s' = ret (max 1024 n', s'') \<and> holds final s'')"
proof (induction args arbitrary: img n s)
  case Nil
  then show ?case
    using skip_fills [OF h Nil.prems(1,2), of 1024] by auto
next
  case (Cons arg args)
  show ?case
  proof (cases "skip_argument arg")
    case (Some m)
    have cmp: "m < n \<longleftrightarrow> 512 * unat m < length img"
      using Cons.prems(2) by (simp add: word_less_nat_alt)
    show ?thesis
    proof (cases "m < n")
      case False
      obtain s1 where s1: "skip_sectors h m n s = ret (max m n, s1)" "holds (zero_filled (unat m) img) s1"
        using skip_fills [OF h Cons.prems(1,2)] by blast
      have "max m n = m"
        using False by (auto simp: max_def not_less)
      moreover have "length (zero_filled (unat m) img) = 512 * unat m"
        using False zero_filled_sectors [OF Cons.prems(2)] by (simp add: max_def word_less_nat_alt)
      ultimately show ?thesis
        using Cons.IH [OF s1(2), of m] Cons.prems(3) s1(1) Some False cmp by (auto split: option.splits)
    qed (use Some cmp in \<open>simp add: usage_def\<close>)
  next
    case None
    show ?thesis
    proof (cases "files h arg")
      case (Some c)
      let ?k = "length (padded c) div 512"
      obtain s1 where s1: "write_file h c n s = ret (n + of_nat ?k, s1)" "appended (padded c) s s1"
        using write_file_returns [OF h] Cons.prems(1) unfolding holds_def room_def by blast
      have k: "unat n + ?k + sector_count h args < 2 ^ 64"
        using Cons.prems(3) None Some by simp
      then have u: "unat (n + of_nat ?k) = unat n + ?k"
        by (simp add: unat_word_ariths unat_of_nat)
      have "length (img @ padded c) = 512 * unat (n + of_nat ?k)"
        using Cons.prems(2) unfolding u by (simp add: distrib_left)
      from Cons.IH [OF holds_appended [OF Cons.prems(1) s1(2)] this] k u s1(1) None Some show ?thesis
        by (auto simp: fopencheck_def split: option.splits)
    qed (simp add: None fopencheck_def usage_def)
  qed
qed

section \<open>Properties of the tool\<close>

definition fresh_output :: "diskio \<Rightarrow> bool" where
  "fresh_output s \<longleftrightarrow> maxoff s = 0 \<and> offset s = 0 \<and> disk_size s = 0 \<and> disk s = (\<lambda>_. 0)"

definition expected_image :: "host \<Rightarrow> u8 list \<Rightarrow> u8 list list \<Rightarrow> u8 list option" where
  "expected_image h name args =
     (case files h name of
        None \<Rightarrow> None
      | Some c \<Rightarrow> if 510 < length c then None else image_layout h args (boot_sector c))"

lemma mkbootdisk_result:
  assumes h: "writes_progress h" and s: "fresh_output s" and b: "name \<noteq> dash_p" "name \<noteq> dash_m"
    and sectors: "sector_count h args + 1 < 2 ^ 64"
  shows "case expected_image h name args of
     None \<Rightarrow> mkbootdisk h (name # args) s = fail (Exit 1)
   | Some img \<Rightarrow> \<exists>s'. mkbootdisk h (name # args) s = ret s' \<and> holds img s'"
proof (cases "files h name")
  case (Some c)
  show ?thesis
  proof (cases "510 < length c")
    case False
    let ?sector = "boot_sector c"
    have len: "length ?sector = 512"
      using False by (simp add: boot_sector_def)
    have empty: "holds [] s"
      using s by (simp add: fresh_output_def holds_def)
    obtain s1 where s1: "diskwrite h ?sector s = ret s1" "appended ?sector s s1"
      using diskwrite_returns [OF h] s unfolding fresh_output_def room_def by blast
    have "holds ?sector s1"
      using holds_appended [OF empty s1(2)] by simp
    from write_arguments_image [OF h this, of 1 args] len sectors
    have "case image_layout h args ?sector of
       None \<Rightarrow> write_arguments h args 1 s1 = fail (Exit 1)
     | Some final \<Rightarrow> \<exists>n' s' s''. write_arguments h args 1 s1 = ret (n', s') \<and> skip_sectors h 1024 n' s' = ret (max 1024 n', s'') \<and> holds final s''"
      by simp
    moreover have "write_boot_sector h name s = ret s1"
      using s1(1) False Some by (simp add: write_boot_sector_def fopencheck_def)
    ultimately show ?thesis
      using Some False b by (auto simp: expected_image_def mkbootdisk_def split: option.splits)
  qed (use Some b in \<open>simp add: expected_image_def mkbootdisk_def write_boot_sector_def fopencheck_def usage_def\<close>)
qed (use b in \<open>simp add: expected_image_def mkbootdisk_def write_boot_sector_def fopencheck_def usage_def\<close>)

text \<open>C38. However the writes are cut up and interrupted, the tool ends, and its output is the image the arguments
  describe: the boot sector with the signature, every file in whole sectors, the gaps asked for, and zeros up to 1024
  sectors. A missing file, a boot sector over 510 bytes or a gap that ends behind the data gives the exit status 1.\<close>

theorem mkbootdisk_writes_image:
  assumes "writes_progress h" and "fresh_output s" and "name \<noteq> dash_p" and "name \<noteq> dash_m"
    and "sector_count h args + 1 < 2 ^ 64"
  shows "case expected_image h name args of
     None \<Rightarrow> mkbootdisk h (name # args) s = fail (Exit 1)
   | Some img \<Rightarrow> (\<exists>s'. mkbootdisk h (name # args) s = ret s' \<and> disk_size s' = length img \<and> (\<forall>x<length img. disk s' x = img ! x))"
  using mkbootdisk_result [OF assms] by (auto simp: holds_def split: option.splits)

text \<open>A write that fits ends after finitely many calls of the system, with all bytes in place and nothing else changed, even when
  the system writes in pieces and interrupts; one that does not fit in the partition ends the program before anything is written.\<close>

theorem diskwrite_completes:
  assumes "writes_progress h" and "unat (curoff s) + length data < 2 ^ 64"
  shows "if maxoff s \<noteq> 0 \<and> unat (maxoff s) < unat (curoff s) + length data then diskwrite h data s = fail (Exit 1)
     else \<exists>s'. diskwrite h data s = ret s' \<and> offset s' = offset s + length data \<and> unat (curoff s') = unat (curoff s) + length data \<and>
       (\<forall>x. disk s' x = (if offset s \<le> x \<and> x < offset s + length data then data ! (x - offset s) else disk s x))"
proof -
  have u: "unat (curoff s + of_nat (length data)) = unat (curoff s) + length data"
    using assms(2) by (simp add: unat_word_ariths unat_of_nat)
  show ?thesis
  proof (cases "maxoff s \<noteq> 0 \<and> unat (maxoff s) < unat (curoff s) + length data")
    case True
    then show ?thesis
      by (simp add: diskwrite_def usage_def word_less_nat_alt u)
  next
    case False
    then have "room s (length data)"
      by (auto simp: room_def)
    then obtain s' where s': "diskwrite h data s = ret s'" "appended data s s'"
      using diskwrite_returns [OF assms(1)] by blast
    show ?thesis
      unfolding if_not_P [OF False] using s'(1) appended_fields [OF s'(2)] u by (intro exI [of _ s']) simp
  qed
qed

section \<open>Staying inside the partition\<close>

text \<open>What every call of \<open>diskwrite\<close> of the main program keeps, the whole program keeps.\<close>

locale write_invariant =
  fixes inv :: "host \<Rightarrow> diskio \<Rightarrow> bool"
  assumes diskwrite_keeps: "inv h s \<Longrightarrow> length data \<le> 4096 \<Longrightarrow> diskwrite h data s = ret s' \<Longrightarrow> inv h s'"
begin

lemma copy_file_keeps: "inv h s \<Longrightarrow> copy_file h c s = ret s' \<Longrightarrow> inv h s'"
proof (induction h c s rule: copy_file.induct)
  case (1 h c s)
  show ?case
  proof (cases "c = []")
    case True
    then show ?thesis
      using 1(2,3) by (simp add: copy_file.simps)
  next
    case False
    then obtain s1 where s1: "diskwrite h (take 4096 c) s = ret s1" "copy_file h (drop 4096 c) s1 = ret s'"
      using 1(3) unfolding copy_file.simps [of h c] by (auto simp: bindo_eq_ret)
    then show ?thesis
      using 1(1) [OF False s1(1) _ s1(2)] diskwrite_keeps [OF 1(2) _ s1(1)] by simp
  qed
qed

lemma skip_sectors_ends:
  assumes "skip_sectors h skipto n s = Some r"
  shows "inv h s \<longrightarrow> (\<forall>n' s'. r = Inr (n', s') \<longrightarrow> inv h s')"
proof (rule skip_sectors.raw_induct [where P = "\<lambda>h skipto n s r. inv h s \<longrightarrow> (\<forall>n' s'. r = Inr (n', s') \<longrightarrow> inv h s')",
      OF _ assms], intro allI impI)
  fix f :: "host \<Rightarrow> u64 \<Rightarrow> u64 \<Rightarrow> diskio \<Rightarrow> (u64 \<times> diskio) outcome" and h skipto n s r n' s'
  assume IH: "\<And>h skipto n s r. f h skipto n s = Some r \<Longrightarrow> inv h s \<longrightarrow> (\<forall>n' s'. r = Inr (n', s') \<longrightarrow> inv h s')"
    and body: "(if n < skipto then bindo (diskwrite h (zerobuf 512) s) (\<lambda>s1. f h skipto (n + 1) s1) else ret (n, s)) = Some r"
    and s: "inv h s" and r: "r = Inr (n', s')"
  show "inv h s'"
  proof (cases "n < skipto")
    case True
    then obtain s1 where "diskwrite h (zerobuf 512) s = ret s1" "f h skipto (n + 1) s1 = Some (Inr (n', s'))"
      using body unfolding r by (simp only: if_True bindo_eq_ret ret_def [symmetric], blast)
    then show ?thesis
      using IH diskwrite_keeps [OF s, of "zerobuf 512" s1] by auto
  qed (use body r s in \<open>simp add: ret_def\<close>)
qed

lemma skip_sectors_keeps: "inv h s \<Longrightarrow> skip_sectors h skipto n s = ret (n', s') \<Longrightarrow> inv h s'"
  using skip_sectors_ends by (simp add: ret_def)

lemma write_file_keeps:
  assumes "inv h s" and "write_file h c n s = ret (n', s')"
  shows "inv h s'"
proof -
  let ?pad = "512 - length c mod 512"
  obtain s1 where s1: "copy_file h c s = ret s1"
      "(if length c mod 512 \<noteq> 0 then diskwrite h (zerobuf ?pad) s1 else ret s1) = ret s'"
    using assms(2) by (auto simp: write_file_def Let_def bindo_eq_ret split: if_splits)
  have "inv h s1"
    using copy_file_keeps [OF assms(1) s1(1)] .
  then show ?thesis
    using s1(2) diskwrite_keeps [of h s1 "zerobuf ?pad" s'] by (auto split: if_splits)
qed

lemma write_arguments_keeps: "inv h s \<Longrightarrow> write_arguments h args n s = ret (n', s') \<Longrightarrow> inv h s'"
proof (induction args arbitrary: n s)
  case (Cons arg args)
  show ?case
  proof (cases "skip_argument arg")
    case (Some m)
    then obtain n1 s1 where "skip_sectors h m n s = ret (n1, s1)" "write_arguments h args n1 s1 = ret (n', s')"
      using Cons.prems(2) by (auto simp: bindo_eq_ret usage_def split: if_splits)
    then show ?thesis
      using Cons.IH skip_sectors_keeps [OF Cons.prems(1)] by blast
  next
    case None
    then obtain c n1 s1 where "write_file h c n s = ret (n1, s1)" "write_arguments h args n1 s1 = ret (n', s')"
      using Cons.prems(2) by (auto simp: bindo_eq_ret)
    then show ?thesis
      using Cons.IH write_file_keeps [OF Cons.prems(1)] by blast
  qed
qed simp

end

text \<open>The state \<open>s\<close> after writes that started in state \<open>t\<close> at the beginning of a partition: the offset is inside the partition and
  nothing outside has changed.\<close>

definition confined :: "diskio \<Rightarrow> host \<Rightarrow> diskio \<Rightarrow> bool" where
  "confined t h s \<longleftrightarrow> writes_bounded h \<and> 0 < unat (maxoff t) \<and> unat (maxoff t) < 2 ^ 63 \<and> maxoff s = maxoff t \<and>
     offset s = offset t + unat (curoff s) \<and> unat (curoff s) \<le> unat (maxoff t) \<and>
     (\<forall>x. x < offset t \<or> offset t + unat (maxoff t) \<le> x \<longrightarrow> disk s x = disk t x)"

lemma diskwrite_confined:
  assumes s: "confined t h s" and len: "length data \<le> 4096" and w: "diskwrite h data s = ret s'"
  shows "confined t h s'"
proof -
  let ?n = "length data"
  have app: "appended data s s'"
    using diskwrite_appended [OF w] s by (simp add: confined_def)
  have s1: "maxoff s \<noteq> 0" "unat (curoff s) \<le> unat (maxoff t)" "unat (maxoff t) < 2 ^ 63" "maxoff s = maxoff t"
    using s by (auto simp: confined_def)
  have u: "unat (curoff s + of_nat ?n) = unat (curoff s) + ?n"
    using s1(2,3) len by (simp add: unat_word_ariths unat_of_nat)
  have "curoff s + of_nat ?n \<le> maxoff t"
    using w s1(1,4) by (auto simp: diskwrite_def usage_def not_less split: if_splits)
  then have "unat (curoff s) + ?n \<le> unat (maxoff t)"
    unfolding u [symmetric] by (simp add: word_le_nat_alt)
  then show ?thesis
    using s appended_fields [OF app] u by (auto simp: confined_def)
qed

interpretation part: write_invariant "confined t" for t
  by unfold_locales (rule diskwrite_confined)

section \<open>The partition that is found\<close>

definition sector_at :: "diskio \<Rightarrow> u32 \<Rightarrow> nat \<Rightarrow> u8" where
  "sector_at s sectno i = disk s (unat sectno * 512 + i)"

lemma sector_at_offset [simp]: "sector_at (s\<lparr>offset := k\<rparr>) = sector_at s"
  by (simp add: sector_at_def fun_eq_iff)

text \<open>Entry \<open>i\<close> of the partition table in sector \<open>sect\<close> describes a kernel partition, and \<open>t\<close> is the state that is ready to write to it.\<close>

definition selects :: "diskio \<Rightarrow> u64 \<Rightarrow> nat \<Rightarrow> diskio \<Rightarrow> bool" where
  "selects s sect i t \<longleftrightarrow>
     (let p = partition_at (sector_at s (ucast sect)) i
      in i < 4 \<and> has_magic (sector_at s (ucast sect)) \<and> pd_type p = PTYPE_JOS_KERN \<and> lba_length p \<noteq> 0 \<and>
         t = s\<lparr>offset := unat ((sect + ucast (lba_start p)) * 512), maxoff := ucast (lba_length p) * 512\<rparr>)"

lemma selects_offset: "selects (s\<lparr>offset := k\<rparr>) sect i t \<longleftrightarrow> selects s sect i t"
  by (simp add: selects_def Let_def)

lemma readsect_ret:
  assumes "readsect n s = ret (buf, s1)"
  shows "buf = sector_at s n" and "\<exists>k. s1 = s\<lparr>offset := k\<rparr>"
  using assms by (auto simp: readsect_def usage_def sector_at_def fun_eq_iff Let_def split: if_splits)

definition search_result :: "diskio \<Rightarrow> u32 \<Rightarrow> diskio \<Rightarrow> bool" where
  "search_result s r t \<longleftrightarrow> r = 0 \<and> (\<exists>k. t = s\<lparr>offset := k\<rparr>) \<or> r = 1 \<and> (\<exists>sect i. selects s sect i t)"

lemma search_result_offset: "search_result (s\<lparr>offset := k\<rparr>) r t = search_result s r t"
  by (simp add: search_result_def selects_offset)

lemma search_continues:
  assumes "search_result s r1 s1" and "(if 0 < sint r1 then ret (r1, s1) else continue s1) = ret (r, t)"
    and "\<And>k. continue (s\<lparr>offset := k\<rparr>) = ret (r, t) \<Longrightarrow> search_result (s\<lparr>offset := k\<rparr>) r t"
  shows "search_result s r t"
  using assms(1) unfolding search_result_def [of s r1]
proof (elim disjE conjE exE)
  fix k
  assume "r1 = 0" "s1 = s\<lparr>offset := k\<rparr>"
  then show ?thesis
    using assms(2) assms(3) [of k] by (simp add: search_result_offset)
next
  assume "r1 = 1"
  then show ?thesis
    using assms(1,2) by simp
qed

lemma search_sector:
  assumes "readsect (ucast sect) s = ret (buf, s1)" and "(if has_magic buf then inner else ret (0, s1)) = ret (r, t)"
    and "inner = ret (r, t) \<Longrightarrow> buf = sector_at s1 (ucast sect) \<Longrightarrow> has_magic buf \<Longrightarrow> search_result s1 r t"
  shows "search_result s r t"
proof -
  obtain k where s1: "buf = sector_at s (ucast sect)" "s1 = s\<lparr>offset := k\<rparr>"
    using readsect_ret [OF assms(1)] by blast
  then show ?thesis
    using assms(2,3) by (cases "has_magic buf") (auto simp: search_result_offset, auto simp: search_result_def)
qed

lemma find_entries_result:
  assumes "find_entries buf sect ext po i s = Some res" and "buf = sector_at s (ucast sect)" and "has_magic buf"
  shows "\<forall>r t. res = Inr (r, t) \<longrightarrow> search_result s r t"
proof (rule find_entries.raw_induct [where P = "\<lambda>buf sect ext po i s res. buf = sector_at s (ucast sect) \<and> has_magic buf \<longrightarrow>
      (\<forall>r t. res = Inr (r, t) \<longrightarrow> search_result s r t)", OF _ assms(1), THEN mp, OF _ conjI [OF assms(2,3)]], intro allI impI)
  fix f :: "(nat \<Rightarrow> u8) \<Rightarrow> u64 \<Rightarrow> u64 \<Rightarrow> u32 \<Rightarrow> nat \<Rightarrow> diskio \<Rightarrow> (u32 \<times> diskio) outcome"
    and buf sect ext po i s res r t
  let ?p = "partition_at buf i"
  let ?next = "\<lambda>s. f buf sect ext po (i + 1) s"
  assume IH: "\<And>buf sect ext po i s res. f buf sect ext po i s = Some res \<Longrightarrow> buf = sector_at s (ucast sect) \<and> has_magic buf \<longrightarrow>
      (\<forall>r t. res = Inr (r, t) \<longrightarrow> search_result s r t)"
    and body: "(if i < 4 then
        let p = partition_at buf i
        in if lba_length p = 0 then f buf sect ext po (i + 1) s
           else if pd_type p = PTYPE_JOS_KERN then
             ret (1, s\<lparr>offset := unat ((sect + ucast (lba_start p)) * 512), maxoff := ucast (lba_length p) * 512\<rparr>)
           else if pd_type p = PTYPE_DOS_EXTENDED \<or> pd_type p = PTYPE_W95_EXTENDED \<or> pd_type p = PTYPE_LINUX_EXTENDED then
             let inner_sect = (if ext = 0 then ucast (lba_start p) else ext);
                 sect' = ucast (lba_start p) + ext
             in bindo (readsect (ucast sect') s) (\<lambda>(buf1, s1).
                bindo (if has_magic buf1
                       then f buf1 sect' inner_sect (if po \<noteq> 0 then po + 1 else 4) 0 s1
                       else ret (0, s1)) (\<lambda>(r, s2).
                  if 0 < sint r then ret (r, s2)
                  else f buf sect ext po (i + 1) s2))
           else f buf sect ext po (i + 1) s
      else ret (0, s)) = Some res"
    and buf: "buf = sector_at s (ucast sect) \<and> has_magic buf" and res: "res = Inr (r, t)"
  have IH': "search_result s r t" if "f b se e p j s = ret (r, t)" "b = sector_at s (ucast se)" "has_magic b" for b se e p j s r t
    using IH [of b se e p j s "Inr (r, t)"] that by (simp add: ret_def)
  consider "i \<ge> 4" | "?next s = ret (r, t)"
    | "i < 4" "lba_length ?p \<noteq> 0" "pd_type ?p = PTYPE_JOS_KERN"
    | se e p' where "bindo (readsect (ucast se) s) (\<lambda>(buf1, s1).
        bindo (if has_magic buf1 then f buf1 se e p' 0 s1 else ret (0, s1)) (\<lambda>(r, s2).
          if 0 < sint r then ret (r, s2) else ?next s2)) = ret (r, t)"
    using body unfolding res ret_def [symmetric] Let_def by (metis linorder_not_less)
  then show "search_result s r t"
  proof cases
    case 1
    then have "r = 0" "t = s"
      using body unfolding res by (simp_all add: ret_def)
    then show ?thesis
      by (auto simp: search_result_def intro: exI [of _ "offset s"])
  next
    case 2
    then show ?thesis
      using IH' buf by blast
  next
    case 3
    then have "r = 1" "selects s sect i t"
      using body buf unfolding res by (auto simp: ret_def selects_def Let_def)
    then show ?thesis
      by (auto simp: search_result_def)
  next
    case (4 se e p')
    then obtain buf1 s1 r1 s2 where read: "readsect (ucast se) s = ret (buf1, s1)"
      and inner: "(if has_magic buf1 then f buf1 se e p' 0 s1 else ret (0, s1)) = ret (r1, s2)"
      and rest: "(if 0 < sint r1 then ret (r1, s2) else ?next s2) = ret (r, t)"
      by (auto simp: bindo_eq_ret)
    have "search_result s r1 s2"
      using search_sector [OF read inner] IH' by blast
    then show ?thesis
      using rest by (rule search_continues) (use IH' buf in auto)
  qed
qed

lemma find_partition_result:
  assumes "find_partition sect ext po s = ret (r, t)"
  shows "search_result s r t"
proof -
  obtain buf s1 where read: "readsect (ucast sect) s = ret (buf, s1)"
    and inner: "(if has_magic buf then find_entries buf sect ext po 0 s1 else ret (0, s1)) = ret (r, t)"
    using assms by (auto simp: find_partition_def bindo_eq_ret split: if_splits)
  show ?thesis
    using search_sector [OF read inner] find_entries_result [of buf sect ext po 0 s1 "Inr (r, t)"] by (simp add: ret_def)
qed

text \<open>C39. With the option for a partition, the program writes only inside the first kernel partition it finds: when it succeeds, an entry of
  type 0x27 in a partition table of the disk describes the bytes it may write, and every byte outside is as before.\<close>

theorem partition_confines:
  assumes h: "writes_bounded h" and s: "curoff s = 0" and c: "files h name = Some content"
    and args: "args \<noteq> []" "hd args \<noteq> dash_m" and run: "mkbootdisk h (dash_p # name # args) s = ret s'"
  shows "\<exists>s0 t sect i. open_disk h name s = ret s0 \<and> find_partition 0 0 0 s0 = ret (1, t) \<and> selects s0 sect i t \<and>
    (\<forall>x. x < offset t \<or> offset t + unat (maxoff t) \<le> x \<longrightarrow> disk s' x = (if x < length content then content ! x else 0))"
proof -
  define s0 where "s0 = s\<lparr>disk := \<lambda>x. if x < length content then content ! x else 0, disk_size := length content, offset := 0\<rparr>"
  have op: "open_disk h name s = ret s0"
    by (simp add: open_disk_def fopencheck_def c s0_def)
  obtain r t n1 s1 n2 where find: "find_partition 0 0 0 s0 = ret (r, t)" "\<not> sint r \<le> 0"
    and main: "write_arguments h args 0 t = ret (n1, s1)" "skip_sectors h 1024 n1 s1 = ret (n2, s')"
    using run args op by (auto simp: mkbootdisk_def bindo_eq_ret usage_def split: if_splits)
  obtain sect i where r: "r = 1" and t: "selects s0 sect i t"
    using find_partition_result [OF find(1)] find(2) by (auto simp: search_result_def)
  obtain len :: u32 where len: "len \<noteq> 0" "maxoff t = ucast len * 512" "curoff t = 0" "disk t = disk s0"
    using t s by (auto simp: selects_def Let_def s0_def)
  have "unat len < 2 ^ 32" "0 < unat len"
    using unsigned_less [of len] len(1) by (simp_all add: unat_gt_0)
  then have m: "unat (maxoff t) = unat len * 512"
    unfolding len(2) by (simp add: unat_word_ariths unsigned_ucast_eq take_bit_nat_eq_self)
  have "confined t h t"
    using h len(3) m \<open>unat len < 2 ^ 32\<close> \<open>0 < unat len\<close> by (simp add: confined_def)
  then have "confined t h s'"
    using part.write_arguments_keeps [OF _ main(1)] part.skip_sectors_keeps [OF _ main(2)] by blast
  then show ?thesis
    using op find(1) r t len(4) by (intro exI [of _ s0] exI [of _ t] exI [of _ sect] exI [of _ i]) (simp add: confined_def s0_def)
qed

section \<open>The image boots\<close>

definition disk_sectors :: "diskio \<Rightarrow> nat \<Rightarrow> nat \<Rightarrow> u8" where
  "disk_sectors s n i = disk s (512 * n + i)"

text \<open>A disk with the file \<open>c\<close> from sector 1, and zeros elsewhere.\<close>

definition kernel_disk :: "u8 list \<Rightarrow> nat \<Rightarrow> nat \<Rightarrow> u8" where
  "kernel_disk c n i = (let x = 512 * (n - 1) + i in if x < length c then c ! x else 0)"

text \<open>The boot loader sees a disk only from sector 1.\<close>

lemma same_file_boots:
  assumes "file_byte S = file_byte S'"
  shows "boot_header S = boot_header S'" and "boot_segment S j = boot_segment S' j" and "bootable S = bootable S'"
    and "loaded S seg m = loaded S' seg m"
proof -
  have page: "first_page S = first_page S'"
    by (simp add: fun_eq_iff first_page_def assms)
  then show "boot_header S = boot_header S'" "boot_segment S j = boot_segment S' j" "bootable S = bootable S'"
    by (simp_all add: boot_header_def boot_segment_def bootable_def)
  show "loaded S seg m = loaded S' seg m"
    by (simp add: loaded_def assms)
qed

lemma zerobuf_nth:
  "(if j < length (xs @ zerobuf n) then (xs @ zerobuf n) ! j else 0) = (if j < length xs then xs ! j else 0)"
  by (auto simp: zerobuf_def nth_append)

lemma image_file_byte:
  assumes s: "holds (zero_filled 1024 (boot_sector b @ padded c)) s" and b: "length b \<le> 510"
  shows "file_byte (disk_sectors s) = file_byte (kernel_disk c)"
proof
  fix i
  let ?img = "zero_filled 1024 (boot_sector b @ padded c)"
  have "disk s (512 + i) = (if i < length c then c ! i else 0)"
  proof -
    have "length (boot_sector b) = 512"
      using b by (simp add: boot_sector_def)
    then have "(boot_sector b @ ys) ! (512 + i) = ys ! i" "512 + i < length (boot_sector b @ ys) \<longleftrightarrow> i < length ys" for ys
      using nth_append_length_plus [of "boot_sector b" ys i] by simp_all
    then show ?thesis
      using s unfolding holds_def zero_filled_def padded_def append_assoc zerobuf_append by (simp only: zerobuf_nth)
  qed
  moreover have "512 * (1 + i div 512) + i mod 512 = 512 + i"
    by simp
  ultimately show "file_byte (disk_sectors s) i = file_byte (kernel_disk c) i"
    by (simp add: file_byte_def disk_sectors_def kernel_disk_def add.commute)
qed

text \<open>C37. From the build to the kernel: when the boot loader's file fits and the kernel file is one the boot loader can place, the image the tool
  writes makes the boot loader load every segment of the kernel file and jump to its entry point.\<close>

theorem image_boots:
  assumes h: "writes_progress h" and s: "fresh_output s" and b: "name \<noteq> dash_p" "name \<noteq> dash_m" "files h name = Some b" "length b \<le> 510"
    and k: "skip_argument kname = None" "files h kname = Some kfile" "length kfile < 2 ^ 64" "bootable (kernel_disk kfile)"
  shows "\<exists>s'. mkbootdisk h [name, kname] s = ret s' \<and>
    (\<forall>d t. disk_serves d (disk_sectors s') \<longrightarrow>
       (\<exists>t'. boot d t = Some (e_entry (boot_header (kernel_disk kfile)), t') \<and>
          (\<forall>j < unat (e_phnum (boot_header (kernel_disk kfile))).
             loaded (kernel_disk kfile) (boot_segment (kernel_disk kfile) j) (bmem t'))))"
proof -
  let ?img = "zero_filled 1024 (boot_sector b @ padded kfile)"
  have "length (padded kfile) < length kfile + 512"
    by (simp add: padded_def)
  then have "sector_count h [kname] + 1 < 2 ^ 64"
    using k by (simp add: less_mult_imp_div_less div_less_iff_less_mult)
  with mkbootdisk_result [OF h s b(1,2), of "[kname]"]
  obtain s' where s': "mkbootdisk h [name, kname] s = ret s'" "holds ?img s'"
    using b k by (auto simp: expected_image_def)
  note same = same_file_boots [OF image_file_byte [OF s'(2) b(4)]]
  show ?thesis
    using s'(1) boot_loads_kernel [of _ "disk_sectors s'"] k(4) unfolding same by blast
qed

section \<open>A small build\<close>

text \<open>A host that writes at most 1000 bytes at a time and interrupts every second call, with a boot sector of one byte, the kernel file of
  the small disk, and a disk with one kernel partition of 2000 sectors from sector 2.\<close>

definition name_boot :: "u8 list" where "name_boot = [98]"
definition name_kernel :: "u8 list" where "name_kernel = [107]"
definition name_disk :: "u8 list" where "name_disk = [100]"

definition small_kernel :: "u8 list" where
  "small_kernel = map small_kernel_file [0..<4098]"

definition partitioned_disk :: "u8 list" where
  "partitioned_disk = zerobuf 450 @ [0x27, 0, 0, 0, 2, 0, 0, 0, 0xD0, 0x07, 0, 0] @ zerobuf 48 @ [0x55, 0xAA]"

definition small_host :: host where
  "small_host =
     \<lparr>files = [name_boot \<mapsto> [0xF4], name_kernel \<mapsto> small_kernel, name_disk \<mapsto> partitioned_disk],
      write_result = (\<lambda>n amt. if even n then Interrupted else Wrote (min amt 1000))\<rparr>"

definition small_output :: diskio where
  "small_output = \<lparr>disk = (\<lambda>_. 0), disk_size = 0, offset = 0, curoff = 0, maxoff = 0, writes = 0\<rparr>"

lemma small_names [simp]:
  "name_boot \<noteq> dash_p" "name_boot \<noteq> dash_m" "name_kernel \<noteq> dash_m" "skip_argument name_kernel = None" "skip_argument [64, 49] = Some 1"
  "files small_host name_boot = Some [0xF4]" "files small_host name_kernel = Some small_kernel"
  "files small_host name_disk = Some partitioned_disk"
  by (simp_all add: name_boot_def name_kernel_def name_disk_def dash_p_def dash_m_def skip_argument_def small_host_def
      strtoul_def digit_of_def)

lemma length_small_kernel [simp]: "length small_kernel = 4098"
  by (simp add: small_kernel_def)

lemma small_host_progress: "writes_progress small_host"
proof -
  have "\<exists>k\<ge>n. write_result small_host k amt \<noteq> Interrupted" for n amt
    by (rule exI [of _ "2 * n + 1"]) (simp add: small_host_def)
  then show ?thesis
    by (auto simp: writes_progress_def writes_bounded_def small_host_def split: if_splits)
qed

lemma small_output_fresh: "fresh_output small_output"
  by (simp add: fresh_output_def small_output_def)

lemma small_kernel_bootable: "file_byte (kernel_disk small_kernel) = file_byte (small_disk small_kernel_file)"
proof
  fix i
  have "(if i < 4098 then small_kernel ! i else 0) = small_kernel_file i"
    by (auto simp: small_kernel_def small_kernel_file_def simp del: upt_rec_numeral)
  then show "file_byte (kernel_disk small_kernel) i = file_byte (small_disk small_kernel_file) i"
    by (simp add: file_byte_def kernel_disk_def small_disk_def)
qed

theorem mkbootdisk_writes_image_witness:
  "\<exists>s'. mkbootdisk small_host [name_boot, [64, 49], name_kernel] small_output = ret s' \<and> disk_size s' = 524288 \<and>
     disk s' 0 = 0xF4 \<and> disk s' 510 = 0x55 \<and> disk s' 511 = 0xAA \<and> disk s' 512 = 0x7F"
proof -
  have "sector_count small_host [[64, 49], name_kernel] + 1 < 2 ^ 64"
    by (simp add: padded_def)
  note image = mkbootdisk_writes_image [OF small_host_progress small_output_fresh small_names(1,2) this]
  have first: "small_kernel ! 0 = 0x7F"
    by (simp add: small_kernel_def small_kernel_file_def del: upt_rec_numeral)
  have sector: "length (boot_sector [0xF4]) = 512"
    by (simp add: boot_sector_def)
  let ?img = "boot_sector [0xF4] @ padded small_kernel"
  have "length ?img = 5120"
    by (simp add: padded_def sector)
  then have expect: "expected_image small_host name_boot [[64, 49], name_kernel] = Some (zero_filled 1024 ?img)"
    by (simp add: expected_image_def sector zero_filled_def zerobuf_def)
  have "zero_filled 1024 ?img ! 512 = 0x7F" 
    using sector first by (simp add: zero_filled_def nth_append padded_def)
  moreover have "zero_filled 1024 ?img ! 0 = 0xF4" "zero_filled 1024 ?img ! 510 = 0x55" "zero_filled 1024 ?img ! 511 = 0xAA"
    by (simp_all add: zero_filled_def nth_append boot_sector_def zerobuf_def)
  moreover have "length (zero_filled 1024 ?img) = 524288"
    using \<open>length ?img = 5120\<close> by (simp add: zero_filled_def)
  ultimately show ?thesis
    using image unfolding expect by auto
qed

theorem diskwrite_completes_witness:
  "(\<exists>s'. diskwrite small_host [1, 2, 3] (small_output\<lparr>offset := 5\<rparr>) = ret s' \<and> disk s' 6 = 2 \<and> disk s' 8 = 0) \<and>
   diskwrite small_host [1, 2, 3] (small_output\<lparr>maxoff := 2\<rparr>) = fail (Exit 1)"
  using diskwrite_completes [OF small_host_progress, of "small_output\<lparr>offset := 5\<rparr>" "[1, 2, 3]"]
    diskwrite_completes [OF small_host_progress, of "small_output\<lparr>maxoff := 2\<rparr>" "[1, 2, 3]"]
  by (auto simp: small_output_def)

theorem image_boots_witness:
  "\<exists>s'. mkbootdisk small_host [name_boot, name_kernel] small_output = ret s' \<and>
     (\<exists>t'. boot (small_ata (disk_sectors s')) small_bootstate = Some (0x40000, t'))"
proof -
  note same = same_file_boots [OF small_kernel_bootable]
  have "bootable (kernel_disk small_kernel)"
    unfolding same by (rule small_disk_bootable)
  moreover have "e_entry (boot_header (kernel_disk small_kernel)) = 0x40000"
    unfolding same small_boot_header by simp
  ultimately show ?thesis
    using image_boots [OF small_host_progress small_output_fresh small_names(1,2,6) _ small_names(4,7)] small_ata_serves by fastforce
qed

lemma partitioned_disk_entry:
  "partition_at (\<lambda>i. if i < length partitioned_disk then partitioned_disk ! i else 0) 0 = \<lparr>pd_type = 0x27, lba_start = 2, lba_length = 2000\<rparr>"
  by (simp add: partition_at_def partitioned_disk_def PTABLE_OFFSET_def load32_def nth_append)

lemma partitioned_disk_found:
  defines "s0 \<equiv> small_output\<lparr>disk := \<lambda>x. if x < length partitioned_disk then partitioned_disk ! x else 0,
    disk_size := length partitioned_disk, offset := 0\<rparr>"
  shows "open_disk small_host name_disk small_output = ret s0"
    and "find_partition 0 0 0 s0 = ret (1, s0\<lparr>offset := 1024, maxoff := 1024000\<rparr>)"
proof -
  show "open_disk small_host name_disk small_output = ret s0"
    by (simp add: open_disk_def fopencheck_def s0_def)
  have size: "length partitioned_disk = 512"
    by (simp add: partitioned_disk_def)
  have magic: "has_magic (\<lambda>i. if i < length partitioned_disk then partitioned_disk ! i else 0)"
    by (simp add: has_magic_def PTABLE_MAGIC_OFFSET_def PTABLE_MAGIC1_def PTABLE_MAGIC2_def partitioned_disk_def nth_append)
  have "readsect 0 s0 = ret (\<lambda>i. if i < length partitioned_disk then partitioned_disk ! i else 0, s0\<lparr>offset := 512\<rparr>)"
    by (simp add: readsect_def s0_def size)
  then show "find_partition 0 0 0 s0 = ret (1, s0\<lparr>offset := 1024, maxoff := 1024000\<rparr>)"
    unfolding find_partition_def
    using magic by (simp add: find_entries.simps [of _ 0 0 0 0] partitioned_disk_entry PTYPE_JOS_KERN_def)
qed

theorem partition_confines_witness:
  "\<exists>s'. mkbootdisk small_host [dash_p, name_disk, [64, 49]] small_output = ret s' \<and> disk s' 450 = 0x27 \<and> disk s' 1025024 = 0"
proof -
  let ?s0 = "small_output\<lparr>disk := \<lambda>x. if x < length partitioned_disk then partitioned_disk ! x else 0,
    disk_size := length partitioned_disk, offset := 0\<rparr>"
  let ?t = "?s0\<lparr>offset := 1024, maxoff := 1024000\<rparr>"
  have "room ?t (512 * (unat (1 :: u64) - unat (0 :: u64)) + 512 * (unat (1024 :: u64) - unat (1 :: u64)))"
    by (simp add: room_def small_output_def)
  then have r: "room ?t (512 * (unat (1 :: u64) - unat (0 :: u64)))"
      "room ?t (length (zerobuf (512 * (unat (1 :: u64) - unat (0 :: u64)))) + 512 * (unat (1024 :: u64) - unat (1 :: u64)))"
    by (simp_all add: room_def small_output_def)
  obtain s1 where s1: "skip_sectors small_host 1 0 ?t = ret (max 1 0, s1)" "appended (zerobuf (512 * (unat (1 :: u64) - unat (0 :: u64)))) ?t s1"
    using skip_sectors_returns [OF small_host_progress r(1)] by blast
  obtain s2 where s2: "skip_sectors small_host 1024 1 s1 = ret (max 1024 1, s2)"
    using skip_sectors_returns [OF small_host_progress room_appended [OF r(2) s1(2)]] by blast
  have "[64, 49] \<noteq> dash_m"
    by (simp add: dash_m_def)
  have run: "mkbootdisk small_host [dash_p, name_disk, [64, 49]] small_output = ret s2"
    using s1(1) s2 partitioned_disk_found \<open>[64, 49] \<noteq> dash_m\<close> by (simp add: mkbootdisk_def max_def)
  have "writes_bounded small_host" "curoff small_output = 0"
    using small_host_progress by (simp_all add: writes_progress_def small_output_def)
  note conf = partition_confines [OF this small_names(8), of "[[64, 49]]" s2]
  have "partitioned_disk ! 450 = 0x27" "length partitioned_disk = 512"
    by (simp_all add: partitioned_disk_def nth_append)
  then show ?thesis
    using conf run partitioned_disk_found \<open>[64, 49] \<noteq> dash_m\<close> by auto
qed

end
