(* ===== verification/Memory_Checks.thy ===== *)
theory Memory_Checks
  imports Page_Faults
begin

text \<open>
  What the run-time checks of \<^verbatim>\<open>kernel/kernel.c\<close> (\<open>check_page_table_mappings\<close>, \<open>check_page_table_ownership\<close>,
  \<open>check_virtual_memory\<close>) establish when they return.
\<close>

section \<open>The run-time checks\<close>

definition kernel_page_ok :: "link_map \<Rightarrow> mem \<Rightarrow> u64 \<Rightarrow> u64 \<Rightarrow> bool" where
  "kernel_page_ok lm m pt va \<longleftrightarrow> vam_pa (virtual_memory_lookup m pt va) = va \<and>
     (start_data lm \<le> va \<longrightarrow> scast (vam_perm (virtual_memory_lookup m pt va)) AND PTE_W \<noteq> 0)"

lemma all_nat_cases: "(\<forall>n. P n) \<longleftrightarrow> P 0 \<and> (\<forall>n. P (Suc n))"
  by (metis not0_implies_Suc)

lemma check_kernel_mapped_exact:
  assumes "unat (kernel_end lm) + 4096 \<le> 2 ^ 64"
  shows "check_kernel_mapped lm m pt va =
    (if \<forall>n. unat va + 4096 * n < unat (kernel_end lm) \<longrightarrow> kernel_page_ok lm m pt (of_nat (unat va + 4096 * n))
     then ret () else fail Assert_fail)"
proof (induction "unat (kernel_end lm) - unat va" arbitrary: va rule: less_induct)
  case less
  show ?case
  proof (cases "va < kernel_end lm")
    case True
    let ?ok = "\<lambda>va. \<forall>n. unat va + 4096 * n < unat (kernel_end lm) \<longrightarrow> kernel_page_ok lm m pt (of_nat (unat va + 4096 * n))"
    have nx: "unat (va + PAGESIZE) = unat va + 4096"
      using True assms by (simp add: PAGESIZE_def unat_word_ariths word_less_nat_alt)
    have step: "?ok va \<longleftrightarrow> kernel_page_ok lm m pt va \<and> ?ok (va + PAGESIZE)"
    proof -
      have "?ok va \<longleftrightarrow> kernel_page_ok lm m pt va \<and>
          (\<forall>n. unat va + 4096 * Suc n < unat (kernel_end lm) \<longrightarrow> kernel_page_ok lm m pt (of_nat (unat va + 4096 * Suc n)))"
        using True by (subst all_nat_cases) (simp add: word_less_nat_alt)
      then show ?thesis
        by (simp only: nx mult_Suc_right add.assoc)
    qed
    have "check_kernel_mapped lm m pt va
        = (if kernel_page_ok lm m pt va then check_kernel_mapped lm m pt (va + PAGESIZE) else fail Assert_fail)"
      using True by (subst check_kernel_mapped.simps) (auto simp: Let_def kernel_page_ok_def assertion_def)
    also have "check_kernel_mapped lm m pt (va + PAGESIZE) = (if ?ok (va + PAGESIZE) then ret () else fail Assert_fail)"
      using True nx by (intro less.hyps) (simp add: word_less_nat_alt)
    finally show ?thesis
      unfolding step by simp
  next
    case False
    then show ?thesis
      by (subst check_kernel_mapped.simps) (simp add: word_less_nat_alt)
  qed
qed

lemma PTE_ADDR_id: "PTE_ADDR a = a \<longleftrightarrow> page_aligned a"
proof
  show "page_aligned a" if "PTE_ADDR a = a"
    using that by (metis page_aligned_PTE_ADDR)
  show "PTE_ADDR a = a" if "page_aligned a"
    using page_aligned_bits [OF that] by (intro bit_word_eqI) (metis bit_PTE_ADDR not_le)
qed

text \<open>\<open>check_page_table_mappings\<close> accepts a page table exactly when it is page aligned, every page of the
  kernel image from \<open>KERNEL_START_ADDR\<close> to \<open>end\<close> is mapped to itself, writable from \<open>start_data\<close> on, and
  the page of the kernel stack is mapped to itself and writable; otherwise it is an assertion
  failure.\<close>

theorem check_page_table_mappings_exact:
  assumes "unat (kernel_end lm) + 4096 \<le> 2 ^ 64"
  shows "check_page_table_mappings lm pt m =
    (if page_aligned pt \<and>
        (\<forall>n. 0x40000 + 4096 * n < unat (kernel_end lm) \<longrightarrow> kernel_page_ok lm m pt (of_nat (0x40000 + 4096 * n))) \<and>
        vam_pa (virtual_memory_lookup m pt 0x7F000) = 0x7F000 \<and>
        scast (vam_perm (virtual_memory_lookup m pt 0x7F000)) AND PTE_W \<noteq> 0
     then ret () else fail Assert_fail)"
proof -
  have "KERNEL_STACK_TOP - PAGESIZE = 0x7F000" "unat KERNEL_START_ADDR = 0x40000"
    by (simp_all add: KERNEL_STACK_TOP_def PAGESIZE_def KERNEL_START_ADDR_def)
  then show ?thesis
    unfolding check_page_table_mappings_def Let_def check_kernel_mapped_exact [OF assms] PTE_ADDR_id
    by (auto simp: assertion_def)
qed

section \<open>Isolation of page tables\<close>

lemma check_all_ret: "check_all f xs = ret () \<longleftrightarrow> (\<forall>x\<in>set xs. f x = ret ())"
  by (induction xs) (auto simp: bindo_eq_ret)

text \<open>The checks read memory, the owners of pages, and the states and page tables of processes only.\<close>

lemma check_virtual_memory_cong:
  assumes "phys k' = phys k" and "pageinfo k' = pageinfo k" and "kernel_pagetable k' = kernel_pagetable k"
    and "length (processes k') = length (processes k)"
    and p: "\<And>i. p_state (the_proc k' i) = p_state (the_proc k i)" "\<And>i. p_pagetable (the_proc k' i) = p_pagetable (the_proc k i)"
  shows "check_virtual_memory lm k' = check_virtual_memory lm k"
proof -
  have "length (filter (\<lambda>p. p_state p \<noteq> P_FREE \<and> p_pagetable p = kernel_pagetable k) (processes k'))
      = length (filter (\<lambda>p. p_state p \<noteq> P_FREE \<and> p_pagetable p = kernel_pagetable k) (processes k))"
    using assms(4) p unfolding length_filter_conv_card the_proc_def by simp
  then have "check_page_table_ownership pt pid k' = check_page_table_ownership pt pid k" for pt pid
    by (simp add: check_page_table_ownership_def assms)
  then show ?thesis
    by (simp add: check_virtual_memory_def assms Let_def cong: if_cong)
qed

text \<open>The pages of a page table, level by level.\<close>

primrec table_pages :: "nat \<Rightarrow> mem \<Rightarrow> u64 \<Rightarrow> u64 set" where
  "table_pages 0 m pt = {pt}"
| "table_pages (Suc n) m pt =
     insert pt (\<Union>i\<in>{..<512}. if entry_at m pt (of_nat i) = 0 then {} else table_pages n m (PTE_ADDR (entry_at m pt (of_nat i))))"

definition page_info :: "physical_pageinfo list \<Rightarrow> u64 \<Rightarrow> physical_pageinfo" where
  "page_info pi t = pi ! nat (sint (PAGENUMBER t))"

lemma check_ownership_level_sound:
  "check_ownership_level n m pi pt owner refs = ret () \<Longrightarrow>
   (\<forall>t\<in>table_pages n m pt. sint (pg_owner (page_info pi t)) = owner) \<and>
   sint (refcount (page_info pi pt)) = refs \<and>
   (\<forall>t\<in>table_pages n m pt. refs = 1 \<longrightarrow> sint (refcount (page_info pi t)) = 1)"
proof (induction n arbitrary: pt refs)
  case 0
  then show ?case
    by (auto simp: page_info_def Let_def assertion_def split: if_splits)
next
  case (Suc n)
  then have own: "sint (pg_owner (page_info pi pt)) = owner" "sint (refcount (page_info pi pt)) = refs"
    and subs: "\<forall>i<512. entry_at m pt (of_nat i) \<noteq> 0 \<longrightarrow>
      check_ownership_level n m pi (PTE_ADDR (entry_at m pt (of_nat i))) owner 1 = ret ()"
    by (auto simp: page_info_def Let_def check_all_ret bindo_eq_ret split: if_splits)
  show ?case
    using own Suc.IH subs by (auto split: if_splits)
qed

text \<open>C31. \<open>check_virtual_memory\<close> guarantees isolation: when it returns, the pages of the page tables of two active
  processes are disjoint, they are disjoint from those of the kernel page table, and each is owned
  by its process with reference count 1.\<close>

theorem vm_check_isolates:
  assumes "check_virtual_memory lm k = ret ()" and "i < NPROC" and "j < NPROC" and "i \<noteq> j"
    and "p_state (the_proc k i) \<noteq> P_FREE" and "p_state (the_proc k j) \<noteq> P_FREE"
    and "p_pagetable (the_proc k i) \<noteq> kernel_pagetable k" and "p_pagetable (the_proc k j) \<noteq> kernel_pagetable k"
  shows "table_pages 3 (phys k) (p_pagetable (the_proc k i)) \<inter> table_pages 3 (phys k) (p_pagetable (the_proc k j)) = {} \<and>
    table_pages 3 (phys k) (p_pagetable (the_proc k i)) \<inter> table_pages 3 (phys k) (kernel_pagetable k) = {} \<and>
    (\<forall>t\<in>table_pages 3 (phys k) (p_pagetable (the_proc k i)).
       sint (pg_owner (page_info (pageinfo k) t)) = int i \<and> sint (refcount (page_info (pageinfo k) t)) = 1)"
proof -
  let ?T = "\<lambda>i. table_pages 3 (phys k) (p_pagetable (the_proc k i))"
  have kern: "check_page_table_ownership (kernel_pagetable k) (- 1) k = ret ()"
    and procs: "check_page_table_ownership (p_pagetable (the_proc k i)) (int i) k = ret ()"
      if "i < NPROC" "p_state (the_proc k i) \<noteq> P_FREE" "p_pagetable (the_proc k i) \<noteq> kernel_pagetable k" for i
    using assms(1) that by (auto simp: check_virtual_memory_def bindo_eq_ret check_all_ret Let_def split: if_splits)
  have own: "sint (pg_owner (page_info (pageinfo k) t)) = int i \<and> sint (refcount (page_info (pageinfo k) t)) = 1"
    if "i < NPROC" "p_state (the_proc k i) \<noteq> P_FREE" "p_pagetable (the_proc k i) \<noteq> kernel_pagetable k" "t \<in> ?T i" for i t
    using check_ownership_level_sound [of 3 "phys k" "pageinfo k" "p_pagetable (the_proc k i)" "int i" 1]
      procs [OF that(1-3)] that(3,4) by (simp add: check_page_table_ownership_def Let_def)
  have kown: "sint (pg_owner (page_info (pageinfo k) t)) = - 2" if "t \<in> table_pages 3 (phys k) (kernel_pagetable k)" for t
    using check_ownership_level_sound [of 3 "phys k" "pageinfo k" "kernel_pagetable k" "- 2"]
      kern [OF assms(2,5,7)] that by (auto simp: check_page_table_ownership_def Let_def PO_KERNEL_def)
  show ?thesis
    using own [OF assms(2,5,7)] own [OF assms(3,6,8)] kown assms(4) by (auto, (force+))
qed

theorem check_page_table_mappings_exact_witness:
  "\<exists>m. check_page_table_mappings some_link_map 0x50000 m = ret ()"
proof -
  obtain m where m: "\<forall>a. unat a < 0x200000 \<longrightarrow>
     virtual_memory_lookup m 0x50000 a = \<lparr>vam_pn = PAGENUMBER a, vam_pa = a, vam_perm = 7\<rparr>"
    using identity_table_exists by blast
  have "kernel_page_ok some_link_map m 0x50000 (of_nat (0x40000 + 4096 * n))" if "0x40000 + 4096 * n < (0x60000 :: nat)" for n
  proof -
    have "unat (of_nat (0x40000 + 4096 * n) :: u64) < 0x200000"
      using that by (simp only: unat_of_nat) simp
    then show ?thesis
      using m by (simp add: kernel_page_ok_def pte_bits)
  qed
  then have "check_page_table_mappings some_link_map 0x50000 m = ret ()"
    using m check_page_table_mappings_exact [of some_link_map "0x50000" m]
    by (simp add: some_link_map_def page_aligned_iff pte_bits)
  then show ?thesis
    by blast
qed

lemma check_ownership_level_complete:
  "\<forall>t\<in>table_pages n m pt. 0 \<le> sint (PAGENUMBER t) \<and> sint (PAGENUMBER t) < int NPAGES \<and>
     sint (pg_owner (page_info pi t)) = owner \<and> sint (refcount (page_info pi t)) = 1 \<Longrightarrow>
   check_ownership_level n m pi pt owner 1 = ret ()"
proof (induction n arbitrary: pt)
  case 0
  then show ?case
    by (simp add: page_info_def Let_def assertion_def)
next
  case (Suc n)
  have "check_ownership_level n m pi (PTE_ADDR (entry_at m pt (of_nat i))) owner 1 = ret ()"
    if "i < 512" "entry_at m pt (of_nat i) \<noteq> 0" for i
    using that Suc.prems by (intro Suc.IH) auto
  then show ?case
    using Suc.prems by (simp add: page_info_def Let_def assertion_def check_all_ret)
qed

text \<open>A page table of four pages from \<open>b\<close> on, which maps to themselves the page of the kernel stack and the first pages of three
  such tables.\<close>

definition small_pages :: "u64 set" where
  "small_pages = {1, 5, 9, 0x7F}"

definition small_table :: "u64 \<Rightarrow> mem \<Rightarrow> mem" where
  "small_table b m = set_entry (b + 0x3000) 1 0x1007 (set_entry (b + 0x3000) 5 0x5007 (set_entry (b + 0x3000) 9 0x9007
     (set_entry (b + 0x3000) 0x7F 0x7F007 (set_entry (b + 0x2000) 0 (b + 0x3007)
     (set_entry (b + 0x1000) 0 (b + 0x2007) (set_entry b 0 (b + 0x1007) m))))))"

lemma small_table_entry:
  assumes "page_aligned t" and "unat i < 512" and "b \<in> {0x1000, 0x5000, 0x9000}"
  shows "entry_at (small_table b m) t i =
    (if t \<in> {b, b + 0x1000, b + 0x2000} \<and> i = 0 then t + 0x1007
     else if t = b + 0x3000 \<and> i \<in> small_pages then i * 0x1000 + 7 else entry_at m t i)"
proof -
  have al: "page_aligned b" "page_aligned (b + 0x1000)" "page_aligned (b + 0x2000)" "page_aligned (b + 0x3000)"
    using assms(3) by (auto simp: page_aligned_iff)
  show ?thesis
    using assms(1,2) al unfolding small_table_def small_pages_def
    by (auto simp: entry_at_set_entry)
qed

definition three_tables :: mem where
  "three_tables = small_table 0x9000 (small_table 0x5000 (small_table 0x1000 (\<lambda>_. 0)))"

lemma three_tables_entry:
  assumes "page_aligned t" and "unat i < 512"
  shows "entry_at three_tables t i =
    (if t \<in> {0x1000, 0x2000, 0x3000, 0x5000, 0x6000, 0x7000, 0x9000, 0xA000, 0xB000} \<and> i = 0 then t + 0x1007
     else if t \<in> {0x4000, 0x8000, 0xC000} \<and> i \<in> small_pages then i * 0x1000 + 7 else 0)"
proof -
  have "entry_at (\<lambda>_. 0) t i = 0"
    by (simp add: entry_at_def load64_def)
  then show ?thesis
    using assms by (auto simp: three_tables_def small_table_entry)
qed

lemma union_first:
  assumes "0 < N" and "e 0 \<noteq> 0" and "\<And>i. i < N \<Longrightarrow> i \<noteq> 0 \<Longrightarrow> e i = 0"
  shows "(\<Union>i\<in>{..<N :: nat}. if e i = 0 then {} else T (e i)) = T (e 0)"
proof -
  have "{..<N} = insert 0 {0<..<N}"
    using assms(1) by auto
  moreover have "(\<Union>i\<in>{0<..<N}. if e i = 0 then {} else T (e i)) = {}"
    using assms(3) by auto
  ultimately show ?thesis
    using assms(2) by simp
qed

lemma small_table_pages:
  assumes "b \<in> {0x1000, 0x5000, 0x9000}"
  shows "table_pages 3 three_tables b = {b, b + 0x1000, b + 0x2000, b + 0x3000}"
proof -
  have step: "table_pages (Suc n) three_tables t = insert t (table_pages n three_tables (t + 0x1000))"
    if t: "t \<in> {0x1000, 0x2000, 0x3000, 0x5000, 0x6000, 0x7000, 0x9000, 0xA000, 0xB000}" for t n
  proof -
    have al: "page_aligned t" and nx: "t + 0x1007 \<noteq> 0" "PTE_ADDR (t + 0x1007) = t + 0x1000"
      using t by (auto simp: page_aligned_iff PTE_ADDR_def)
    have e: "entry_at three_tables t (of_nat i) = (if i = 0 then t + 0x1007 else 0)" if "i < 512" for i
    proof -
      have u: "unat (of_nat i :: u64) = i"
        using that by (simp add: unat_of_nat)
      then have "of_nat i = (0 :: u64) \<longleftrightarrow> i = 0"
        using unat_eq_0 [of "of_nat i :: u64"] by simp
      then show ?thesis
        using three_tables_entry [OF al, of "of_nat i"] that u t by auto
    qed
    have e0: "entry_at three_tables t (of_nat 0) = t + 0x1007"
      using e [of 0] by (simp only: zero_less_numeral simp_thms if_True)
    show ?thesis
      unfolding table_pages.simps(2)
    proof (rule arg_cong [where f = "insert t"], rule trans [OF union_first [where e = "\<lambda>i. entry_at three_tables t (of_nat i)" and N = 512
          and T = "\<lambda>x. table_pages n three_tables (PTE_ADDR x)"]])
      show "entry_at three_tables t (of_nat 0) \<noteq> 0"
        unfolding e0 by (fact nx)
      show "entry_at three_tables t (of_nat i) = 0" if "i < 512" "i \<noteq> 0" for i
        using e [OF that(1)] that(2) by (simp only: if_False)
      show "table_pages n three_tables (PTE_ADDR (entry_at three_tables t (of_nat 0))) = table_pages n three_tables (t + 0x1000)"
        unfolding e0 nx ..
    qed simp
  qed
  show ?thesis
    using assms unfolding numeral_3_eq_3
    by (elim insertE emptyE) (simp_all add: step del: table_pages.simps(2))
qed

definition isolated_owner :: "nat \<Rightarrow> physical_pageinfo" where
  "isolated_owner n =
     (if 1 \<le> n \<and> n \<le> 4 then \<lparr>pg_owner = PO_KERNEL, refcount = 1\<rparr>
      else if 5 \<le> n \<and> n \<le> 8 then \<lparr>pg_owner = 1, refcount = 1\<rparr>
      else if 9 \<le> n \<and> n \<le> 12 then \<lparr>pg_owner = 2, refcount = 1\<rparr>
      else \<lparr>pg_owner = 0, refcount = 0\<rparr>)"

definition isolated_proc :: "nat \<Rightarrow> proc" where
  "isolated_proc i =
     (if i = 1 then (proc_with_break 0x200000)\<lparr>p_pagetable := 0x5000\<rparr>
      else if i = 2 then (proc_with_break 0x200000)\<lparr>p_pid := 2, p_pagetable := 0x9000\<rparr>
      else free_proc i)"

definition isolated_kernel :: kstate where
  "isolated_kernel = (kernel_with_break 0x200000)
     \<lparr>phys := three_tables, kernel_pagetable := 0x1000, pageinfo := map isolated_owner [0..<512],
      processes := map isolated_proc [0..<16], current := 1, cr3 := 0x5000, console := replicate 2000 0, disp_global := 0\<rparr>"

definition tiny_link_map :: link_map where
  "tiny_link_map = some_link_map\<lparr>kernel_end := 0x40000, default_int_handler := 0x7F000, virtual_memory_map_addr := 0x7F000\<rparr>"

lemma isolated_lookup:
  assumes b: "b \<in> {0x1000, 0x5000, 0x9000}" and i: "i \<in> small_pages"
  shows "virtual_memory_lookup three_tables b (i * 0x1000) = \<lparr>vam_pn = ucast i, vam_pa = i * 0x1000, vam_perm = 7\<rparr>"
proof -
  have entries: "entry_at three_tables b 0 = b + 0x1007" "entry_at three_tables (b + 0x1000) 0 = b + 0x2007"
    "entry_at three_tables (b + 0x2000) 0 = b + 0x3007"
    using b by (auto simp: three_tables_entry page_aligned_iff)
  have leaf: "entry_at three_tables (b + 0x3000) i = i * 0x1000 + 7"
    using b i by (auto simp: three_tables_entry page_aligned_iff small_pages_def)
  have idx: "pageindex (i * 0x1000) 0 = 0" "pageindex (i * 0x1000) (Suc 0) = 0" "pageindex (i * 0x1000) 2 = 0"
    "pageindex (i * 0x1000) 3 = i"
    using i by (auto simp: pageindex_def small_pages_def)
  have "lookup_levels three_tables (i * 0x1000) [0, 1, 2, 3] b (PTE_W OR PTE_U OR PTE_P)
      = entry_at three_tables (PTE_ADDR (b + 0x3007)) (pageindex (i * 0x1000) 3)"
    using b entries
    by (intro lookup_entries [where ?e1.0 = "b + 0x1007" and ?e2.0 = "b + 0x2007"]) (auto simp: idx pte_bits PTE_ADDR_def)
  also have "\<dots> = i * 0x1000 + 7"
    using b leaf by (auto simp: idx PTE_ADDR_def)
  finally show ?thesis
    using i by (auto simp: small_pages_def virtual_memory_lookup_def pte_bits PAGENUMBER_def PTE_ADDR_def PAGEOFFSET_def PTE_FLAGS_def)
qed

lemma isolated_mappings:
  assumes b: "b \<in> {0x1000, 0x5000, 0x9000}"
  shows "check_page_table_mappings tiny_link_map b three_tables = ret ()"
proof -
  have "check_kernel_mapped tiny_link_map three_tables b KERNEL_START_ADDR = ret ()"
    by (subst check_kernel_mapped.simps) (simp add: tiny_link_map_def KERNEL_START_ADDR_def)
  moreover have "PTE_ADDR b = b" "KERNEL_STACK_TOP - PAGESIZE = 0x7F000"
    using b by (auto simp: PTE_ADDR_def KERNEL_STACK_TOP_def PAGESIZE_def)
  ultimately show ?thesis
    using isolated_lookup [OF b, of "0x7F"] by (simp add: check_page_table_mappings_def small_pages_def pte_bits assertion_def)
qed

lemma isolated_set_pagetable:
  assumes b: "b \<in> {0x1000, 0x5000, 0x9000}"
  shows "set_pagetable tiny_link_map 0x1000 b three_tables = ret b"
proof -
  have "vam_pa (virtual_memory_lookup three_tables t p) = p"
    if "t \<in> {0x1000, 0x5000, 0x9000}" "p \<in> {0x1000, 0x5000, 0x9000, 0x7F000}" for t p
    using that(2) isolated_lookup [OF that(1), of 1] isolated_lookup [OF that(1), of 5] isolated_lookup [OF that(1), of 9]
      isolated_lookup [OF that(1), of "0x7F"] by (auto simp: small_pages_def)
  moreover have "PAGEOFFSET b = 0"
    using b by (auto simp: PAGEOFFSET_def)
  ultimately show ?thesis
    using b by (auto simp: set_pagetable_def tiny_link_map_def some_link_map_def)
qed

lemma isolated_ownership:
  assumes "(b, owner) \<in> {(0x1000, - 2), (0x5000, 1), (0x9000, 2)}"
  shows "check_ownership_level 3 three_tables (map isolated_owner [0..<512]) b owner 1 = ret ()"
proof (rule check_ownership_level_complete)
  have "b \<in> {0x1000, 0x5000, 0x9000}"
    using assms by auto
  then have pages: "table_pages 3 three_tables b = {b, b + 0x1000, b + 0x2000, b + 0x3000}"
    by (rule small_table_pages)
  show "\<forall>t\<in>table_pages 3 three_tables b. 0 \<le> sint (PAGENUMBER t) \<and> sint (PAGENUMBER t) < int NPAGES \<and>
     sint (pg_owner (page_info (map isolated_owner [0..<512]) t)) = owner \<and>
     sint (refcount (page_info (map isolated_owner [0..<512]) t)) = 1"
    unfolding pages using assms
    by (auto simp: page_info_def PAGENUMBER_def isolated_owner_def PO_KERNEL_def NPAGES_def simp del: upt_rec_numeral)
qed

lemma isolated_checks: "check_virtual_memory tiny_link_map isolated_kernel = ret ()"
proof -
  have procs: "the_proc isolated_kernel i = isolated_proc i" if "i < 16" for i
    using that by (simp add: isolated_kernel_def the_proc_def del: upt_rec_numeral)
  have kern: "kernel_pagetable isolated_kernel = 0x1000" "phys isolated_kernel = three_tables"
    "pageinfo isolated_kernel = map isolated_owner [0..<512]" "processes isolated_kernel = map isolated_proc [0..<16]"
    by (simp_all add: isolated_kernel_def del: upt_rec_numeral)
  have users: "filter (\<lambda>p. p_state p \<noteq> P_FREE \<and> p_pagetable p = 0x1000) (map isolated_proc [0..<16]) = []"
    by (auto simp: filter_empty_conv isolated_proc_def free_proc_def simp del: upt_rec_numeral)
  have own: "check_page_table_ownership b pid isolated_kernel = ret ()"
    if "(b, pid) \<in> {(0x1000, - 1), (0x5000, 1), (0x9000, 2)}" for b pid
    using that isolated_ownership
    by (auto simp: check_page_table_ownership_def Let_def kern users PO_KERNEL_def simp del: upt_rec_numeral)
  have pids: "check_all (\<lambda>pid.
      let p = the_proc isolated_kernel pid
      in if p_state p \<noteq> P_FREE \<and> p_pagetable p \<noteq> kernel_pagetable isolated_kernel
         then bindo (check_page_table_mappings tiny_link_map (p_pagetable p) (phys isolated_kernel)) (\<lambda>_.
                check_page_table_ownership (p_pagetable p) (int pid) isolated_kernel)
         else ret ()) [0..<NPROC] = ret ()"
    unfolding check_all_ret NPROC_def kern
    using own isolated_mappings by (auto simp: Let_def procs isolated_proc_def free_proc_def simp del: upt_rec_numeral)
  have refs: "check_all (\<lambda>info.
      if sint (refcount info) > 0 \<and> sint (pg_owner info) \<ge> 0
      then if sint (pg_owner info) < int NPROC
           then assertion (p_state (the_proc isolated_kernel (nat (sint (pg_owner info)))) \<noteq> P_FREE)
           else fail Out_of_range
      else ret ()) (pageinfo isolated_kernel) = ret ()"
    unfolding check_all_ret kern
    by (auto simp: isolated_owner_def PO_KERNEL_def NPROC_def procs isolated_proc_def proc_with_break_def assertion_def
        simp del: upt_rec_numeral)
  show ?thesis
    unfolding check_virtual_memory_def pids refs
    using own isolated_mappings by (simp add: kern procs isolated_proc_def free_proc_def assertion_def del: upt_rec_numeral)
qed

theorem vm_check_isolates_witness:
  "table_pages 3 (phys isolated_kernel) 0x5000 \<inter> table_pages 3 (phys isolated_kernel) 0x9000 = {}"
proof -
  have "the_proc isolated_kernel 1 = isolated_proc 1" "the_proc isolated_kernel 2 = isolated_proc 2"
    by (simp_all add: isolated_kernel_def the_proc_def numeral_2_eq_2 del: upt_rec_numeral)
  then show ?thesis
    using vm_check_isolates [OF isolated_checks, of 1 2]
    by (simp add: isolated_proc_def proc_with_break_def NPROC_def isolated_kernel_def del: upt_rec_numeral)
qed

end
