(* ===== verification/User_Library.thy ===== *)
theory User_Library
  imports Kernel_Invariant Memory_Checks
begin

text \<open>
  The library of processes: the system call stubs of \<^verbatim>\<open>uspace/process.h\<close>.
  A stub loads its arguments into registers and raises an interrupt; what the kernel sees are the registers that
  \<^verbatim>\<open>k-exception.S\<close> saves, with the number of the interrupt and the error code 0. When the process runs again, the result is in \<open>rax\<close>.
\<close>

section \<open>System call stubs\<close>

definition trap :: "u64 \<Rightarrow> x86_64_registers \<Rightarrow> x86_64_registers" where
  "trap n reg = reg\<lparr>reg_intno := n, reg_err := 0\<rparr>"

definition getpid :: "x86_64_registers \<Rightarrow> x86_64_registers" where
  "getpid reg = trap INT_SYS_GETPID reg"

definition yield :: "x86_64_registers \<Rightarrow> x86_64_registers" where
  "yield reg = trap INT_SYS_YIELD reg"

definition sys_page_alloc :: "u64 \<Rightarrow> x86_64_registers \<Rightarrow> x86_64_registers" where
  "sys_page_alloc addr reg = trap INT_SYS_PAGE_ALLOC (reg\<lparr>reg_rdi := addr\<rparr>)"

definition fork :: "x86_64_registers \<Rightarrow> x86_64_registers" where
  "fork reg = trap INT_SYS_FORK reg"

definition exit_stub :: "x86_64_registers \<Rightarrow> x86_64_registers" where
  "exit_stub reg = trap INT_SYS_EXIT reg"

definition panic :: "u64 \<Rightarrow> x86_64_registers \<Rightarrow> x86_64_registers" where
  "panic msg reg = trap INT_SYS_PANIC (reg\<lparr>reg_rdi := msg\<rparr>)"

definition mapping_stub :: "u64 \<Rightarrow> u64 \<Rightarrow> x86_64_registers \<Rightarrow> x86_64_registers" where
  "mapping_stub addr dst reg = trap INT_SYS_MAPPING (reg\<lparr>reg_rdi := dst, reg_rsi := addr\<rparr>)"

definition mem_tog :: "u32 \<Rightarrow> x86_64_registers \<Rightarrow> x86_64_registers" where
  "mem_tog p reg = trap INT_SYS_MEM_TOG (reg\<lparr>reg_rdi := ucast p\<rparr>)"

definition brk_stub :: "u64 \<Rightarrow> x86_64_registers \<Rightarrow> x86_64_registers" where
  "brk_stub addr reg = trap INT_SYS_BRK (reg\<lparr>reg_rdi := addr\<rparr>)"

definition sbrk_stub :: "u64 \<Rightarrow> x86_64_registers \<Rightarrow> x86_64_registers" where
  "sbrk_stub increment reg = trap INT_SYS_SBRK (reg\<lparr>reg_rdi := increment\<rparr>)"

section \<open>System calls as the caller sees them\<close>

text \<open>The state in which the switch statement of \<open>exception\<close> runs differs from the one the process was interrupted in by its
  saved registers and by what the display may change.\<close>

lemma exception_dispatch:
  assumes e: "exception lm kv mc reg k = ret k'" and run: "user_running k"
  obtains k1 scheduled k2 i where "dispatch kv mc reg k1 = ret (scheduled, k2)" and "resumed i k2 k'"
    and "\<not> scheduled \<and> runnable k2 (current k2) \<longrightarrow> i = current k2" and "kernel_wf k1" and "current k1 = current k"
    and "the_proc k1 (current k) = (the_proc k (current k))\<lparr>p_registers := reg\<rparr>"
proof -
  have wf: "kernel_wf k"
    using run by (simp add: user_running_def)
  obtain pt k1 scheduled k2 i where p: "display_frame (entered pt reg k) k1" "dispatch kv mc reg k1 = ret (scheduled, k2)"
    "resumed i k2 k'" "\<not> scheduled \<and> runnable k2 (current k2) \<longrightarrow> i = current k2"
    using exception_parts [OF e] .
  have "kernel_wf k1"
    using kernel_wf_display [OF entered_wf [OF wf] p(1)] .
  moreover have "current k1 = current k" "the_proc k1 (current k) = (the_proc k (current k))\<lparr>p_registers := reg\<rparr>"
    using p(1) wf by (auto simp: display_frame_def entered_def upd_proc_def the_proc_def wf_defs)
  ultimately show ?thesis
    using p that by blast
qed

lemma resumed_same:
  assumes "resumed i k2 k'" and "\<not> scheduled \<and> runnable k2 (current k2) \<longrightarrow> i = current k2" and "\<not> scheduled"
    and "runnable k2 (current k2)"
  shows "current k' = current k2" and "the_proc k' = the_proc k2"
  using assms by (auto simp: resumed_def the_proc_def)

lemma set_rax_proc:
  assumes "kernel_wf k"
  shows "the_proc (set_rax v k) (current k)
    = (the_proc k (current k))\<lparr>p_registers := (p_registers (the_proc k (current k)))\<lparr>reg_rax := v\<rparr>\<rparr>"
  using assms by (simp add: set_rax_def the_proc_def upd_proc_def wf_defs)

lemma sbrk_nonneg:
  assumes ok: "break_ok k i" and d: "unat d < 2 ^ 63"
  shows "sbrk i d k = (let b = program_break (the_proc k i)
    in if unat b + unat d < BREAK_LIMIT then ret (ucast b, upd_proc i (\<lambda>p. p\<lparr>program_break := program_break p + d\<rparr>) k)
       else ret (- 1, k))"
proof (cases "unat (program_break (the_proc k i)) + unat d < BREAK_LIMIT")
  case False
  have "unat (program_break (the_proc k i)) < BREAK_LIMIT"
    using ok by (simp add: break_ok_def word_less_nat_alt)
  then have "unat (program_break (the_proc k i) + d) = unat (program_break (the_proc k i)) + unat d"
    using d by (simp add: unat_word_ariths BREAK_LIMIT_def)
  then show ?thesis
    using False sbrk_refused [of k i d] by (simp add: Let_def)
qed (use sbrk_grow [OF ok d] in \<open>simp add: Let_def\<close>)

text \<open>A handler that ends in \<open>set_rax\<close> resumes its caller.\<close>

lemma rax_returned:
  assumes d: "dispatch kv mc reg k1 = ret (False, set_rax v k2)" and r: "resumed i k3 k'" "k3 = set_rax v k2"
    and i: "\<not> False \<and> runnable k3 (current k3) \<longrightarrow> i = current k3" and wf: "kernel_wf k2" and run: "runnable k2 (current k2)"
  shows "current k' = current k2" and "p_registers (the_proc k' (current k2)) = (p_registers (the_proc k2 (current k2)))\<lparr>reg_rax := v\<rparr>"
    and "program_break (the_proc k' (current k2)) = program_break (the_proc k2 (current k2))"
proof -
  have c: "current k3 = current k2"
    unfolding r(2) by (simp add: set_rax_def)
  then have "runnable k3 (current k3)"
    using run set_rax_proc [OF wf, of v] by (simp add: r(2) runnable_def)
  then show "current k' = current k2" and "p_registers (the_proc k' (current k2)) = (p_registers (the_proc k2 (current k2)))\<lparr>reg_rax := v\<rparr>"
    and "program_break (the_proc k' (current k2)) = program_break (the_proc k2 (current k2))"
    using resumed_same [OF r(1), of False] i c set_rax_proc [OF wf, of v] by (simp_all add: r(2))
qed

lemma getpid_call:
  assumes e: "exception lm kv mc (getpid reg) k = ret k'" and run: "user_running k"
  shows "current k' = current k" and "p_registers (the_proc k' (current k)) = (getpid reg)\<lparr>reg_rax := of_nat (current k)\<rparr>"
proof -
  have pid: "scast (p_pid (the_proc k (current k))) = (of_nat (current k) :: u64)"
    using run by (simp add: user_running_def wf_defs NPROC_def index_word)
  obtain k1 scheduled k2 i where p: "dispatch kv mc (getpid reg) k1 = ret (scheduled, k2)" "resumed i k2 k'"
    "\<not> scheduled \<and> runnable k2 (current k2) \<longrightarrow> i = current k2" "kernel_wf k1" "current k1 = current k"
    "the_proc k1 (current k) = (the_proc k (current k))\<lparr>p_registers := getpid reg\<rparr>"
    using exception_dispatch [OF e run] .
  have d: "dispatch kv mc (getpid reg) k1 = ret (False, set_rax (of_nat (current k)) k1)"
    using p(5,6) pid by (simp add: dispatch_def int_defs getpid_def trap_def)
  then have k2: "k2 = set_rax (of_nat (current k)) k1" "scheduled = False"
    using p(1) by simp_all
  have "runnable k1 (current k1)"
    using p(5,6) run by (simp add: runnable_def user_running_def)
  from rax_returned [OF d p(2) k2(1) p(3) [unfolded k2(2)] p(4) this] show "current k' = current k"
    and "p_registers (the_proc k' (current k)) = (getpid reg)\<lparr>reg_rax := of_nat (current k)\<rparr>"
    using p(5,6) by simp_all
qed

lemma sbrk_call:
  assumes e: "exception lm kv mc (sbrk_stub d reg) k = ret k'" and run: "user_running k"
    and brk: "break_ok k (current k)" and d: "unat d < 2 ^ 63"
  shows "current k' = current k" and "\<exists>r k1. sys_sbrk k d = ret (r, k1) \<and> the_break k' = the_break k1 \<and>
        p_registers (the_proc k' (current k)) = (sbrk_stub d reg)\<lparr>reg_rax := r\<rparr>"
proof -
  let ?i = "current k" and ?b = "program_break (the_proc k (current k))"
  obtain k1 scheduled k2 i where p: "dispatch kv mc (sbrk_stub d reg) k1 = ret (scheduled, k2)" "resumed i k2 k'"
    "\<not> scheduled \<and> runnable k2 (current k2) \<longrightarrow> i = current k2" "kernel_wf k1" "current k1 = ?i"
    "the_proc k1 ?i = (the_proc k ?i)\<lparr>p_registers := sbrk_stub d reg\<rparr>"
    using exception_dispatch [OF e run] .
  have i: "?i < NPROC" "?i < length (processes k)" "?i < length (processes k1)"
    using run p(4) kernel_wf_current [OF p(4)] p(5) by (simp_all add: user_running_def wf_defs)
  have ok1: "break_ok k1 ?i"
    using brk p(6) i by (simp add: break_ok_def)
  define grow where "grow = (unat ?b + unat d < BREAK_LIMIT)"
  define r where "r = (if grow then scast (ucast ?b :: u32) else - 1 :: u64)"
  define up where "up = (\<lambda>k :: kstate. if grow then upd_proc ?i (\<lambda>p. p\<lparr>program_break := program_break p + d\<rparr>) k else k)"
  have sys: "sys_sbrk k d = ret (r, up k)"
    using sbrk_nonneg [OF brk d] by (simp add: sys_sbrk_def r_def up_def grow_def Let_def)
  have call: "sbrk ?i d k1 = ret (if grow then ucast ?b else - 1, up k1)"
    using sbrk_nonneg [OF ok1 d] p(6) by (simp add: up_def grow_def Let_def)
  have up: "current (up k1) = ?i" "runnable (up k1) ?i" "the_break (up k) = the_break (up k1)"
    "p_registers (the_proc (up k1) ?i) = sbrk_stub d reg"
    using p(5,6) i run by (simp_all add: up_def runnable_def user_running_def the_break_def)
  have disp: "dispatch kv mc (sbrk_stub d reg) k1 = ret (False, set_rax r (up k1))"
    using p(5,6) call by (simp add: dispatch_def int_defs sbrk_stub_def trap_def r_def)
  then have k2: "k2 = set_rax r (up k1)" "scheduled = False"
    using p(1) by simp_all
  have wf: "kernel_wf (up k1)"
    using sbrk_wf(1) [OF call p(4) i(1)] .
  note res = rax_returned [OF disp p(2) k2(1) p(3) [unfolded k2(2)] wf]
  show "current k' = current k"
    using res up(1,2) by simp
  show "\<exists>r k1. sys_sbrk k d = ret (r, k1) \<and> the_break k' = the_break k1 \<and>
        p_registers (the_proc k' (current k)) = (sbrk_stub d reg)\<lparr>reg_rax := r\<rparr>"
    using res up sys by (intro exI [of _ r] exI [of _ "up k"]) (simp add: the_break_def)
qed



section \<open>A system call of process 1 on the kernel with two isolated processes\<close>

lemma isolated_running: "user_running isolated_kernel"
proof -
  have procs: "the_proc isolated_kernel i = isolated_proc i" if "i < 16" for i
    using that by (simp add: isolated_kernel_def the_proc_def del: upt_rec_numeral)
  have "p_pid (isolated_proc i) = of_nat i \<and> break_inv (isolated_proc i)" for i
    by (simp add: isolated_proc_def proc_with_break_def free_proc_def break_inv_def MEMSIZE_VIRTUAL_def PAGESIZE_def)
  moreover have "current isolated_kernel = 1" "length (processes isolated_kernel) = 16" "length (pageinfo isolated_kernel) = 512"
    "console isolated_kernel = replicate 2000 0" "showing isolated_kernel = 1" "cr3 isolated_kernel = 0x5000"
    by (simp_all add: isolated_kernel_def kernel_with_break_def del: upt_rec_numeral)
  moreover have "the_proc isolated_kernel 1 = (proc_with_break 0x200000)\<lparr>p_pagetable := 0x5000\<rparr>"
    using procs [of 1] by (simp add: isolated_proc_def)
  ultimately show ?thesis
    using procs by (simp add: user_running_def wf_defs NPROC_def NPAGES_def CONSOLE_CELLS_def runnable_def proc_with_break_def)
qed

lemma isolated_fields:
  "current isolated_kernel = 1" "phys isolated_kernel = three_tables" "kernel_pagetable isolated_kernel = 0x1000"
  "disp_global isolated_kernel = 0" "the_proc isolated_kernel 1 = (proc_with_break 0x200000)\<lparr>p_pagetable := 0x5000\<rparr>"
  by (simp_all add: isolated_kernel_def the_proc_def isolated_proc_def del: upt_rec_numeral)

lemma entered_proc: "the_proc (entered pt reg k) i
    = (if i = current k \<and> i < length (processes k) then (the_proc k i)\<lparr>p_registers := reg\<rparr> else the_proc k i)"
  using the_proc_upd_any [of "current k" "\<lambda>p. p\<lparr>p_registers := reg\<rparr>" k i] by (auto simp: entered_def the_proc_def)

text \<open>A call of process 1 that only writes \<open>rax\<close> and the program break returns.\<close>

lemma isolated_call:
  assumes n: "reg_intno reg \<noteq> INT_PAGEFAULT" "reg_intno reg \<noteq> INT_GPF"
    and d: "dispatch kv silent_machine reg (entered 0x1000 reg isolated_kernel) = ret (False, k2)"
    and k2: "current k2 = 1" "runnable k2 1" "p_pid (the_proc k2 1) = 1" "p_pagetable (the_proc k2 1) = 0x5000"
      "kernel_pagetable k2 = 0x1000" "phys k2 = three_tables"
  shows "\<exists>k'. exception tiny_link_map kv silent_machine reg isolated_kernel = ret k'"
proof -
  let ?e = "entered 0x1000 reg isolated_kernel"
  have poll: "poll_keyboard (typed silent_machine 0) s = ret s" for s
    by (rule poll_keyboard_idle) (simp add: silent_machine_def keyboard_command_def)
  have "check_virtual_memory tiny_link_map ?e = ret ()"
    unfolding isolated_checks [symmetric]
    by (rule check_virtual_memory_cong) (simp_all add: entered_proc, simp_all add: entered_def)
  then have "exception tiny_link_map kv silent_machine reg isolated_kernel = run tiny_link_map 1 k2"
    using n d k2(1,2) isolated_set_pagetable [of "0x1000"]
    by (simp add: exception_def Let_def poll entered_def isolated_fields cursorpos_upd_proc runnable_def)
  then show ?thesis
    using run_resumes [of k2 1 tiny_link_map "0x5000"] k2 isolated_set_pagetable [of "0x5000"] by auto
qed



end
