(* ===== verification/Messages.thy ===== *)
theory Messages
  imports Kernel_Properties
begin

text \<open>
  Messages of the kernel (\<^verbatim>\<open>kernel/k-hardware.c\<close>): the log on the parallel port, messages to both the log and the
  console, and the end of the kernel in \<open>kernel_panic\<close>. A panic inside the other theories is the outcome \<open>Kernel_panic\<close>;
  this theory says what happens from there on.
\<close>

section \<open>The parallel port\<close>

text \<open>The static variable of \<open>parallel_port_putc\<close> and the number of reads of the status port so far; \<open>st n\<close> is the answer to
  the \<open>n\<close>-th read. The function \<open>delay\<close> reads another port and ignores the answers.\<close>

record parport =
  initialized :: bool
  polls :: nat

type_synonym messages = "kstate \<times> parport"

definition IO_PARALLEL1_DATA :: u16 where "IO_PARALLEL1_DATA = 0x378"
definition IO_PARALLEL1_CONTROL :: u16 where "IO_PARALLEL1_CONTROL = 0x37A"
definition IO_PARALLEL_STATUS_BUSY :: u8 where "IO_PARALLEL_STATUS_BUSY = 0x80"
definition IO_PARALLEL_CONTROL_SELECT :: u8 where "IO_PARALLEL_CONTROL_SELECT = 8"
definition IO_PARALLEL_CONTROL_INIT :: u8 where "IO_PARALLEL_CONTROL_INIT = 4"
definition IO_PARALLEL_CONTROL_STROBE :: u8 where "IO_PARALLEL_CONTROL_STROBE = 1"

lemmas parallel_defs = IO_PARALLEL1_DATA_def IO_PARALLEL1_CONTROL_def IO_PARALLEL_STATUS_BUSY_def
  IO_PARALLEL_CONTROL_SELECT_def IO_PARALLEL_CONTROL_INIT_def IO_PARALLEL_CONTROL_STROBE_def

definition port_out :: "u16 \<Rightarrow> u8 \<Rightarrow> messages \<Rightarrow> messages" where
  "port_out port data = (\<lambda>(k, pp). (k\<lparr>hw := outb port data (hw k)\<rparr>, pp))"

function parallel_wait :: "(nat \<Rightarrow> u8) \<Rightarrow> nat \<Rightarrow> parport \<Rightarrow> parport" where
  "parallel_wait st i pp =
     (if i < 12800 then
        let pp1 = pp\<lparr>polls := polls pp + 1\<rparr>
        in if st (polls pp) AND IO_PARALLEL_STATUS_BUSY = 0 then parallel_wait st (i + 1) pp1 else pp1
      else pp)"
  by auto
termination
  by (relation "measure (\<lambda>(st, i, pp). 12800 - i)") auto

declare parallel_wait.simps [simp del]

definition parallel_port_putc :: "(nat \<Rightarrow> u8) \<Rightarrow> u8 \<Rightarrow> u32 \<Rightarrow> messages \<Rightarrow> messages" where
  "parallel_port_putc st c color s =
     (let (k1, pp1) = (if \<not> initialized (snd s)
                       then (case port_out IO_PARALLEL1_CONTROL 0 s of (k, pp) \<Rightarrow> (k, pp\<lparr>initialized := True\<rparr>))
                       else s);
          s2 = (k1, parallel_wait st 0 pp1)
      in port_out IO_PARALLEL1_CONTROL (IO_PARALLEL_CONTROL_SELECT OR IO_PARALLEL_CONTROL_INIT)
           (port_out IO_PARALLEL1_CONTROL
              (IO_PARALLEL_CONTROL_SELECT OR IO_PARALLEL_CONTROL_INIT OR IO_PARALLEL_CONTROL_STROBE)
              (port_out IO_PARALLEL1_DATA c s2)))"

definition log_vprintf :: "(nat \<Rightarrow> u8) \<Rightarrow> u8 list \<Rightarrow> vararg list \<Rightarrow> messages \<Rightarrow> messages outcome" where
  "log_vprintf st format args s = printer_vprintf (parallel_port_putc st) 0 format args s"

definition log_printf :: "(nat \<Rightarrow> u8) \<Rightarrow> u8 list \<Rightarrow> vararg list \<Rightarrow> messages \<Rightarrow> messages outcome" where
  "log_printf st format args s = log_vprintf st format args s"

section \<open>Messages to the log and the console\<close>

definition error_vprintf ::
  "(nat \<Rightarrow> u8) \<Rightarrow> u32 \<Rightarrow> u32 \<Rightarrow> u8 list \<Rightarrow> vararg list \<Rightarrow> messages \<Rightarrow> (u32 \<times> messages) outcome" where
  "error_vprintf st cpos color format args s =
     bindo (log_vprintf st format args s) (\<lambda>(k, pp).
     bindo (console_vprintf cpos color format args (console k)) (\<lambda>(cpos', cells).
       ret (cpos', k\<lparr>console := cells\<rparr>, pp)))"

definition error_printf ::
  "(nat \<Rightarrow> u8) \<Rightarrow> u32 \<Rightarrow> u32 \<Rightarrow> u8 list \<Rightarrow> vararg list \<Rightarrow> messages \<Rightarrow> (u32 \<times> messages) outcome" where
  "error_printf st cpos color format args s = error_vprintf st cpos color format args s"

section \<open>Panic\<close>

text \<open>\<open>CCOL\<close> for the positions the console functions return, which are not negative.\<close>

definition CCOL :: "u32 \<Rightarrow> nat" where
  "CCOL cpos = unat cpos mod 80"

definition str_PANIC :: "u8 list" where
  "str_PANIC = [80, 65, 78, 73, 67, 58, 32]"

text \<open>The message of \<open>kernel_panic\<close>; \<open>None\<close> is the null pointer as format.\<close>

definition panic_message ::
  "(nat \<Rightarrow> u8) \<Rightarrow> u8 list option \<Rightarrow> vararg list \<Rightarrow> messages \<Rightarrow> messages outcome" where
  "panic_message st format args s =
     (case format of
        Some f \<Rightarrow>
          bindo (error_printf st (of_nat (CPOS 23 0)) 0xC000 str_PANIC [] s) (\<lambda>(cpos, s1).
          bindo (error_vprintf st cpos 0xC000 f args s1) (\<lambda>(cpos, s2).
            if CCOL cpos \<noteq> 0 then bindo (error_printf st cpos 0xC000 [10] [] s2) (\<lambda>(_, s3). ret s3) else ret s2))
      | None \<Rightarrow> bindo (error_printf st (of_nat (CPOS 23 0)) 0xC000 (take 5 str_PANIC) [] s) (\<lambda>(_, s1). ret s1))"

text \<open>\<open>fail\<close>: poll the keyboard for ever; \<open>typed mc n\<close> is the next character read.\<close>

partial_function (option) fail_loop :: "machine \<Rightarrow> nat \<Rightarrow> kstate \<Rightarrow> kstate outcome" where
  "fail_loop mc n k = bindo (poll_keyboard (typed mc n) k) (\<lambda>k'. fail_loop mc (n + 1) k')"

definition kernel_panic ::
  "(nat \<Rightarrow> u8) \<Rightarrow> machine \<Rightarrow> nat \<Rightarrow> u8 list option \<Rightarrow> vararg list \<Rightarrow> messages \<Rightarrow> kstate outcome" where
  "kernel_panic st mc n format args s = bindo (panic_message st format args s) (\<lambda>(k, pp). fail_loop mc n k)"

definition str_assertion :: "u8 list" where
  "str_assertion = [37, 115, 58, 37, 100, 58, 32, 97, 115, 115, 101, 114, 116, 105, 111, 110, 32, 39, 37, 115, 39, 32,
     102, 97, 105, 108, 101, 100, 10]"

definition assert_fail ::
  "(nat \<Rightarrow> u8) \<Rightarrow> machine \<Rightarrow> nat \<Rightarrow> u8 list \<Rightarrow> u32 \<Rightarrow> u8 list \<Rightarrow> messages \<Rightarrow> kstate outcome" where
  "assert_fail st mc n file line msg s =
     kernel_panic st mc n (Some str_assertion) [Va_string file, Va_word (scast line), Va_string msg] s"

definition str_unexpected :: "u8 list" where
  "str_unexpected = [85, 110, 101, 120, 112, 101, 99, 116, 101, 100, 32, 101, 120, 99, 101, 112, 116, 105, 111, 110,
     32, 37, 100, 33, 10]"

definition default_exception :: "(nat \<Rightarrow> u8) \<Rightarrow> machine \<Rightarrow> nat \<Rightarrow> proc \<Rightarrow> messages \<Rightarrow> kstate outcome" where
  "default_exception st mc n p s =
     kernel_panic st mc n (Some str_unexpected) [Va_word (reg_intno (p_registers p))] s"

section \<open>The log receives the text\<close>

text \<open>The port writes for one character: the data, and a pulse on the strobe line.\<close>

definition strobed :: "u8 \<Rightarrow> port_write list" where
  "strobed c = [Outb 0x378 c, Outb 0x37A 0x0D, Outb 0x37A 0x0C]"

lemma parallel_wait_polls: "polls (parallel_wait st i pp) \<le> polls pp + (12800 - i) \<and> initialized (parallel_wait st i pp) = initialized pp"
proof (induction st i pp rule: parallel_wait.induct)
  case (1 st i pp)
  then show ?case
    by (subst (1 2) parallel_wait.simps) (auto simp: Let_def)
qed

text \<open>All of the kernel but its port log and its console.\<close>

definition written :: "port_write list \<Rightarrow> kstate \<Rightarrow> kstate" where
  "written ws k = k\<lparr>hw := (hw k)\<lparr>port_log := port_log (hw k) @ ws\<rparr>\<rparr>"

lemma putc_written:
  "\<exists>pp'. parallel_port_putc st c color (k, pp)
      = (written ((if initialized pp then [] else [Outb 0x37A 0]) @ strobed c) k, pp') \<and> initialized pp' \<and>
    polls pp' \<le> polls pp + 12800"
  using parallel_wait_polls [of st 0 pp] parallel_wait_polls [of st 0 "pp\<lparr>initialized := True\<rparr>"]
  by (auto simp: parallel_port_putc_def port_out_def outb_def written_def strobed_def parallel_defs Let_def)

lemma written_written [simp]: "written ws (written vs k) = written (vs @ ws) k"
  by (simp add: written_def)

lemma written_Nil [simp]: "written [] k = k"
  by (simp add: written_def)


lemma port_log_written [simp]: "port_log (hw (written ws k)) = port_log (hw k) @ ws"
  by (simp add: written_def)

text \<open>Once initialized, the port is a recording printer: it only appends to the port log, and polls at most 12800 times
  for each character.\<close>

definition logged_from :: "kstate \<Rightarrow> nat \<Rightarrow> messages \<Rightarrow> bool" where
  "logged_from k0 p0 = (\<lambda>(k, pp). initialized pp \<and>
     (\<exists>ws. k = written ws k0 \<and> 3 * polls pp \<le> 3 * p0 + 12800 * length ws))"

interpretation lpt: recording_printer "parallel_port_putc st" "logged_from k0 p0" "\<lambda>s. port_log (hw (fst s))" strobed
  for st k0 p0
proof
  fix s :: messages and c color
  assume inv: "logged_from k0 p0 s"
  then obtain k pp ws where s: "s = (k, pp)" "initialized pp" "k = written ws k0" "3 * polls pp \<le> 3 * p0 + 12800 * length ws"
    by (auto simp: logged_from_def)
  obtain pp' where pp': "parallel_port_putc st c color (k, pp) = (written (strobed c) k, pp')" "initialized pp'"
    "polls pp' \<le> polls pp + 12800"
    using putc_written [of st c color k pp] s(2) by auto
  have "length (strobed c) = 3"
    by (simp add: strobed_def)
  then have "3 * polls pp' \<le> 3 * p0 + 12800 * length (ws @ strobed c)"
    using s(4) pp'(3) by simp
  then show "logged_from k0 p0 (parallel_port_putc st c color s)"
    using pp' s(1,3) unfolding logged_from_def by auto
  show "port_log (hw (fst (parallel_port_putc st c color s))) = port_log (hw (fst s)) @ strobed c"
    using pp'(1) s(1) by simp
qed

definition log_writes :: "parport \<Rightarrow> u8 list \<Rightarrow> port_write list" where
  "log_writes pp cs = (if initialized pp \<or> cs = [] then [] else [Outb 0x37A 0]) @ concat (map strobed cs)"

lemma putc_uninitialized:
  "\<not> initialized pp \<Longrightarrow> parallel_port_putc st c color (k, pp)
     = parallel_port_putc st c color (written [Outb 0x37A 0] k, pp\<lparr>initialized := True\<rparr>)"
  by (simp add: parallel_port_putc_def port_out_def outb_def written_def parallel_defs Let_def)

lemma written_inject: "written ws k = written vs k \<longleftrightarrow> ws = vs"
  by (metis port_log_written same_append_eq)

lemma log_initialized:
  assumes "format_text f args = ret cs" and "initialized pp"
  shows "\<exists>pp'. log_vprintf st f args (k, pp) = ret (written (concat (map strobed cs)) k, pp') \<and> initialized pp' \<and>
    polls pp' \<le> polls pp + 12800 * length cs"
proof -
  have "logged_from k (polls pp) (k, pp)"
    using assms(2) by (auto simp: logged_from_def intro: exI [of _ "[]"])
  from lpt.vprintf_sends [OF this assms(1)] obtain k' pp' where
    r: "log_vprintf st f args (k, pp) = ret (k', pp')" "logged_from k (polls pp) (k', pp')"
      "port_log (hw k') = port_log (hw k) @ concat (map strobed cs)"
    unfolding log_vprintf_def by (metis prod.collapse fst_conv)
  then obtain ws where ws: "k' = written ws k" "3 * polls pp' \<le> 3 * polls pp + 12800 * length ws" "initialized pp'"
    by (auto simp: logged_from_def)
  then have eq: "ws = concat (map strobed cs)"
    using r(3) by simp
  moreover have "length (concat (map strobed cs)) = 3 * length cs"
    by (induction cs) (simp_all add: strobed_def)
  ultimately show ?thesis
    using r(1) ws by (intro exI [of _ pp']) simp
qed

lemma log_vprintf_text:
  assumes "format_text f args = ret cs"
  shows "\<exists>pp'. log_vprintf st f args (k, pp) = ret (written (log_writes pp cs) k, pp') \<and>
    polls pp' \<le> polls pp + 12800 * length cs \<and> initialized pp' = (initialized pp \<or> cs \<noteq> [])"
proof (cases "initialized pp")
  case True
  then show ?thesis
    using log_initialized [OF assms True, of st k] by (auto simp: log_writes_def)
next
  case False
  let ?k1 = "written [Outb 0x37A 0] k" and ?pp1 = "pp\<lparr>initialized := True\<rparr>"
  obtain out where out: "printer_vprintf log_putc 0 f args [] = ret out" "map fst out = cs"
    using assms unfolding format_text_logged [of f args 0] map_outcome_def bindo_eq_ret by auto
  then have r: "log_vprintf st f args s = ret (put_all (parallel_port_putc st) out s)" for s
    by (simp add: log_vprintf_def vprintf_put_all [of "parallel_port_putc st"])
  show ?thesis
  proof (cases out)
    case Nil
    then show ?thesis
      using r out(2) by (intro exI [of _ pp]) (simp add: log_writes_def put_all_def)
  next
    case (Cons x xs)
    then have "log_vprintf st f args (k, pp) = log_vprintf st f args (?k1, ?pp1)"
      using putc_uninitialized [OF False, of st "fst x" "snd x" k] unfolding r by (simp add: put_all_def case_prod_unfold)
    moreover have "cs \<noteq> []"
      using Cons out(2) by auto
    ultimately show ?thesis
      using log_initialized [OF assms, of ?pp1 st ?k1] False by (auto simp: log_writes_def)
  qed
qed

text \<open>\<open>log_vprintf\<close> sends exactly the text of the format to the parallel port: after the reset of the port before the very
  first character, every character is put on the data lines and strobed, in order. It returns even if the
  printer never becomes ready, after at most 12800 polls for each character, and changes nothing else.\<close>

theorem log_sends_text:
  assumes "format_text format args = ret cs"
  shows "\<exists>pp'. log_vprintf st format args (k, pp)
      = ret (k\<lparr>hw := (hw k)\<lparr>port_log := port_log (hw k) @ (if initialized pp \<or> cs = [] then [] else [Outb 0x37A 0]) @
          concat (map (\<lambda>c. [Outb 0x378 c, Outb 0x37A 0x0D, Outb 0x37A 0x0C]) cs)\<rparr>\<rparr>, pp') \<and>
    polls pp' \<le> polls pp + 12800 * length cs \<and> initialized pp' = (initialized pp \<or> cs \<noteq> [])"
  using log_vprintf_text [OF assms, of st k pp] by (simp add: written_def log_writes_def strobed_def [abs_def])

theorem log_sends_text_witness:
  "\<exists>pp'. log_vprintf (\<lambda>_. 0) [37, 100, 10] [Va_word 42] (kernel_with_break 0, \<lparr>initialized = False, polls = 0\<rparr>)
      = ret (written [Outb 0x37A 0, Outb 0x378 52, Outb 0x37A 0x0D, Outb 0x37A 0x0C, Outb 0x378 50, Outb 0x37A 0x0D,
          Outb 0x37A 0x0C, Outb 0x378 10, Outb 0x37A 0x0D, Outb 0x37A 0x0C] (kernel_with_break 0), pp') \<and>
    polls pp' \<le> 38400"
proof -
  have "format_text [37, 100, 10] [Va_word 42] = ret [52, 50, 10]"
    by code_simp
  from log_sends_text [OF this, of "\<lambda>_. 0" "kernel_with_break 0" "\<lparr>initialized = False, polls = 0\<rparr>"] show ?thesis
    by (auto simp: written_def)
qed


section \<open>What a panic leaves behind\<close>

lemma newline_column:
  assumes "length cells = CONSOLE_CELLS" and "cursor \<le> CONSOLE_CELLS"
  shows "snd (console_putc 10 color (cells, cursor)) mod 80 = 0"
proof -
  let ?cur = "if cursor \<ge> CONSOLE_CELLS then 0 else cursor"
  have "?cur < CONSOLE_CELLS"
    using assms(2) by (auto simp: CONSOLE_CELLS_def)
  then have "snd (console_fill (80 - ?cur mod 80) (ucast (32 OR color)) (cells, ?cur)) = ?cur + (80 - ?cur mod 80)"
    using console_fill_ok [of "80 - ?cur mod 80" "ucast (32 OR color)" cells ?cur] row_end [of ?cur] assms(1)
    by (metis prod.collapse)
  moreover have "(?cur + (80 - ?cur mod 80)) mod 80 = 0"
    by presburger
  ultimately show ?thesis
    by (simp add: console_putc_def Let_def)
qed

lemma console_vprintf_text:
  assumes "format_text f args = ret cs" and "length cells = CONSOLE_CELLS"
  shows "\<exists>cpos' cells'. console_vprintf cpos color f args cells = ret (cpos', cells') \<and> length cells' = CONSOLE_CELLS \<and>
    (cs \<noteq> [] \<and> last cs = 10 \<longrightarrow> CCOL cpos' = 0)"
proof -
  let ?start = "if sint cpos < 0 \<or> sint cpos \<ge> int CONSOLE_CELLS then 0 else unat cpos"
  obtain out where out: "printer_vprintf log_putc color f args [] = ret out" "map fst out = cs"
    using assms(1) unfolding format_text_logged [of f args color] map_outcome_def bindo_eq_ret by auto
  obtain cells' cursor where p: "put_all console_putc out (cells, ?start) = (cells', cursor)"
    by fastforce
  then have r: "console_vprintf cpos color f args cells = ret (of_nat cursor, cells')"
    using out(1) by (simp add: console_vprintf_def Let_def vprintf_put_all [of console_putc])
  have ok: "console_ok (cells, ?start)"
    using assms(2) unat_sint [of cpos] by (auto simp: console_ok_def)
  have "CCOL (of_nat cursor) = 0" if "cs \<noteq> []" "last cs = 10"
  proof -
    from that obtain xs col where xs: "out = xs @ [(10, col)]"
      using out(2) by (cases out rule: rev_cases) auto
    obtain c1 u1 where c1: "put_all console_putc xs (cells, ?start) = (c1, u1)"
      by fastforce
    have "console_ok (c1, u1)"
      using con.put_all_keeps [OF ok, of xs] unfolding c1 .
    then have "cursor mod 80 = 0" "cursor \<le> CONSOLE_CELLS"
      using newline_column [of c1 u1 col] p c1 con.put_all_keeps [OF ok, of out]
      unfolding xs by (auto simp: put_all_append console_ok_def) (simp_all add: put_all_def)
    then show ?thesis
      by (simp add: CCOL_def unat_of_nat CONSOLE_CELLS_def)
  qed
  then show ?thesis
    using r console_vprintf_ok(1) [OF assms(2) r] by blast
qed

lemma error_vprintf_text:
  assumes "format_text f args = ret cs" and "length (console k) = CONSOLE_CELLS"
  shows "\<exists>cpos' cells pp'. error_vprintf st cpos color f args (k, pp)
      = ret (cpos', (written (log_writes pp cs) k)\<lparr>console := cells\<rparr>, pp') \<and> length cells = CONSOLE_CELLS \<and>
    initialized pp' = (initialized pp \<or> cs \<noteq> []) \<and> (cs \<noteq> [] \<and> last cs = 10 \<longrightarrow> CCOL cpos' = 0)"
proof -
  obtain pp' where l: "log_vprintf st f args (k, pp) = ret (written (log_writes pp cs) k, pp')"
    "initialized pp' = (initialized pp \<or> cs \<noteq> [])"
    using log_vprintf_text [OF assms(1)] by blast
  moreover have "console (written (log_writes pp cs) k) = console k"
    by (simp add: written_def)
  ultimately show ?thesis
    using console_vprintf_text [OF assms, of cpos color] by (auto simp: error_vprintf_def)
qed

lemma log_writes_append:
  "cs \<noteq> [] \<Longrightarrow> initialized pp' \<Longrightarrow> log_writes pp cs @ log_writes pp' ds = log_writes pp (cs @ ds)"
  by (simp add: log_writes_def)

lemma written_console: "written ws (k\<lparr>console := cells\<rparr>) = (written ws k)\<lparr>console := cells\<rparr>"
  by (simp add: written_def)

lemma panic_text: "format_text str_PANIC [] = ret str_PANIC" "format_text [10] [] = ret [10]"
  by code_simp+

lemma panic_message_text:
  assumes "format_text f args = ret cs" and "length (console k) = CONSOLE_CELLS"
  shows "\<exists>cells pp' nl. panic_message st (Some f) args (k, pp)
      = ret ((written (log_writes pp (str_PANIC @ cs @ nl)) k)\<lparr>console := cells\<rparr>, pp') \<and> length cells = CONSOLE_CELLS \<and>
    (nl = [] \<or> nl = [10]) \<and> (cs \<noteq> [] \<and> last cs = 10 \<longrightarrow> nl = [])"
proof -
  let ?w = "\<lambda>cs cells. (written (log_writes pp cs) k)\<lparr>console := cells\<rparr>"
  have ne: "str_PANIC \<noteq> []"
    by (simp add: str_PANIC_def)
  obtain c1 cells1 pp1 where 1: "error_printf st (of_nat (CPOS 23 0)) 0xC000 str_PANIC [] (k, pp) = ret (c1, ?w str_PANIC cells1, pp1)"
      "length cells1 = CONSOLE_CELLS" "initialized pp1"
    using error_vprintf_text [OF panic_text(1) assms(2), of st "of_nat (CPOS 23 0)" "0xC000" pp] ne
    unfolding error_printf_def by blast
  have next_msg: "\<exists>cpos' cells pp'. error_vprintf st cpos 0xC000 f args (?w xs cells0, pp0)
      = ret (cpos', ?w (xs @ ds) cells, pp') \<and> length cells = CONSOLE_CELLS \<and> initialized pp' \<and>
        (ds \<noteq> [] \<and> last ds = 10 \<longrightarrow> CCOL cpos' = 0)"
    if "format_text f args = ret ds" "length cells0 = CONSOLE_CELLS" "initialized pp0" "xs \<noteq> []" for f args ds cells0 pp0 xs cpos
    using error_vprintf_text [OF that(1), of "?w xs cells0" st cpos "0xC000" pp0] that log_writes_append [OF that(4,3), of pp ds]
    by (auto simp: written_console)
  obtain c2 cells2 pp2 where 2: "error_vprintf st c1 0xC000 f args (?w str_PANIC cells1, pp1) = ret (c2, ?w (str_PANIC @ cs) cells2, pp2)"
      "length cells2 = CONSOLE_CELLS" "initialized pp2" "cs \<noteq> [] \<and> last cs = 10 \<longrightarrow> CCOL c2 = 0"
    using next_msg [OF assms(1) 1(2,3) ne] by blast
  obtain c3 cells3 pp3 where 3: "error_printf st c2 0xC000 [10] [] (?w (str_PANIC @ cs) cells2, pp2)
      = ret (c3, ?w (str_PANIC @ cs @ [10]) cells3, pp3)" "length cells3 = CONSOLE_CELLS"
    using next_msg [OF panic_text(2) 2(2,3), of "str_PANIC @ cs" c2] ne unfolding error_printf_def by auto
  show ?thesis
  proof (cases "CCOL c2 = 0")
    case True
    then show ?thesis
      using 1(1) 2 by (intro exI [of _ cells2] exI [of _ pp2] exI [of _ "[]"]) (simp add: panic_message_def)
  next
    case False
    then show ?thesis
      using 1(1) 2 3 by (intro exI [of _ cells3] exI [of _ pp3] exI [of _ "[10]"]) (auto simp: panic_message_def)
  qed
qed


lemma fail_loop_waits: "(\<forall>e<d. keyboard_command (typed mc (n + e)) = No_action) \<Longrightarrow> fail_loop mc n k = fail_loop mc (n + d) k"
proof (induction d arbitrary: n)
  case (Suc d)
  have "keyboard_command (typed mc n) = No_action"
    using Suc.prems [rule_format, of 0] by simp
  then have "fail_loop mc n k = fail_loop mc (n + 1) k"
    by (subst fail_loop.simps) (simp add: poll_keyboard_idle)
  moreover have "\<forall>e<d. keyboard_command (typed mc (n + 1 + e)) = No_action"
    using Suc.prems by auto
  ultimately show ?case
    using Suc.IH [of "n + 1"] by simp
qed simp

definition key_fault :: "keyboard_action \<Rightarrow> fault" where
  "key_fault a = (case a of Reboot c \<Rightarrow> Soft_reboot c | _ \<Rightarrow> Power_off)"

lemma fail_loop_stops: "keyboard_command (typed mc n) \<noteq> No_action \<Longrightarrow> fail_loop mc n k = fail (key_fault (keyboard_command (typed mc n)))"
  by (subst fail_loop.simps) (auto simp: poll_keyboard_def check_keyboard_def key_fault_def split: keyboard_action.splits)

lemma fail_loop_returns:
  assumes "fail_loop mc n k = Some r"
  shows "\<exists>j\<ge>n. keyboard_command (typed mc j) \<noteq> No_action"
proof (rule fail_loop.raw_induct [where P = "\<lambda>mc n k r. \<exists>j\<ge>n. keyboard_command (typed mc j) \<noteq> No_action", OF _ assms])
  fix f :: "machine \<Rightarrow> nat \<Rightarrow> kstate \<Rightarrow> kstate outcome" and mc n k r
  assume IH: "\<And>mc n k r. f mc n k = Some r \<Longrightarrow> \<exists>j\<ge>n. keyboard_command (typed mc j) \<noteq> No_action"
    and body: "bindo (poll_keyboard (typed mc n) k) (\<lambda>k'. f mc (n + 1) k') = Some r"
  show "\<exists>j\<ge>n. keyboard_command (typed mc j) \<noteq> No_action"
  proof (cases "keyboard_command (typed mc n) = No_action")
    case True
    then have "f mc (n + 1) k = Some r"
      using body by (simp add: poll_keyboard_idle)
    then obtain j where "j \<ge> n + 1" "keyboard_command (typed mc j) \<noteq> No_action"
      using IH by blast
    then show ?thesis
      by (intro exI [of _ j]) simp
  qed blast
qed



end
