(* ===== verification/User_Messages.thy ===== *)
theory User_Messages
  imports C_Strings Messages
begin

text \<open>
  Output of processes (\<^verbatim>\<open>uspace/process.c\<close>): \<open>app_printf\<close> on the console that the kernel maps into every process, and the
  messages with which \<open>kernel_panic\<close> and \<open>assert_fail\<close> of a process end it.
\<close>

section \<open>Printing\<close>

text \<open>\<open>CROW\<close> for the positions the console functions return, which are not negative.\<close>

definition CROW :: "u32 \<Rightarrow> nat" where
  "CROW cpos = unat cpos div 80"

definition app_colors :: "u8 list" where
  "app_colors = [0x0E, 0x0F, 0x0C, 0x0A, 0x09]"

definition app_color :: "u32 \<Rightarrow> u32" where
  "app_color colorid =
     (if sint colorid < 0 then 0x0700 else push_bit 8 (ucast (app_colors ! (unat colorid mod length app_colors))))"

text \<open>The result is the new \<open>cursorpos\<close> and the console.\<close>

definition app_printf :: "u32 \<Rightarrow> u8 list \<Rightarrow> vararg list \<Rightarrow> u32 \<times> console \<Rightarrow> (u32 \<times> console) outcome" where
  "app_printf colorid format args = (\<lambda>(cursorpos, cells).
     bindo (console_vprintf cursorpos (app_color colorid) format args cells) (\<lambda>(cpos, cells').
       ret (if CROW cpos \<ge> 23 then of_nat (CPOS 0 0) else cpos, cells')))"

section \<open>Panic\<close>

text \<open>The string at an address; \<open>None\<close> if it has no end.\<close>

definition string_at :: "mem \<Rightarrow> u64 \<Rightarrow> u8 list option" where
  "string_at m a = map_option (\<lambda>n. map (\<lambda>i. m (a + of_nat i)) [0..<unat n]) (strlen m a)"

definition PANIC_BUF :: u64 where
  "PANIC_BUF = 160"

text \<open>\<open>kernel_panic\<close> of a process, up to the system call \<open>panic(buf)\<close>; \<open>buf\<close> is the address of its local array, and
  \<open>stored m a cs\<close> writes the bytes of a literal.\<close>

definition process_panic ::
  "u64 \<Rightarrow> u8 list \<Rightarrow> vararg list \<Rightarrow> mem \<times> console \<Rightarrow> (mem \<times> console) outcome" where
  "process_panic buf format args = (\<lambda>(m, cells).
     let m1 = stored m buf str_PANIC
     in bindo (vsnprintf (buf + 7) (PANIC_BUF - 7) format args m1) (\<lambda>(r, m2).
        let len = r + 7;
            m3 = (if sint len > 0 \<and> m2 (buf + scast (len - 1)) \<noteq> 10
                  then stored m2 (buf + scast len - (if len = ucast PANIC_BUF - 1 then 1 else 0)) [10, 0] else m2)
        in bindo (lift_option (string_at m3 buf)) (\<lambda>s.
           bindo (console_printf (of_nat (CPOS 23 0)) 0xC000 [37, 115] [Va_string s] cells) (\<lambda>(_, cells').
             ret (m3, cells')))))"

text \<open>\<open>assert_fail\<close> of a process, up to the system call \<open>panic(NULL)\<close>.\<close>

definition process_assert_fail :: "u8 list \<Rightarrow> u32 \<Rightarrow> u8 list \<Rightarrow> console \<Rightarrow> console outcome" where
  "process_assert_fail file line msg cells =
     bindo (console_printf (of_nat (CPOS 23 0)) 0xC000 (str_PANIC @ str_assertion)
              [Va_string file, Va_word (scast line), Va_string msg] cells) (\<lambda>(_, cells'). ret cells')"

section \<open>The message fits its buffer\<close>

text \<open>The message: truncated to the buffer, with a newline at the end.\<close>

definition panic_line :: "u8 list \<Rightarrow> u8 list" where
  "panic_line cs =
     (let t = str_PANIC @ take 152 cs
      in if last t = 10 then t else if length t = 159 then butlast t @ [10] else t @ [10])"

lemma length_panic_line: "length (panic_line cs) \<le> 159" "last (panic_line cs) = 10"
  by (auto simp: panic_line_def Let_def str_PANIC_def)

lemma c_stringI:
  "(\<forall>i<length cs. m (a + of_nat i) = cs ! i) \<Longrightarrow> m (a + of_nat (length cs)) = 0 \<Longrightarrow> 0 \<notin> set cs \<Longrightarrow> c_string m a cs"
proof (induction cs arbitrary: a)
  case (Cons c cs)
  have "m a = c"
    using Cons.prems(1) [rule_format, of 0] by simp
  moreover have "c_string m (a + 1) cs"
  proof (rule Cons.IH)
    show "\<forall>i<length cs. m (a + 1 + of_nat i) = cs ! i"
    proof (intro allI impI)
      fix i assume "i < length cs"
      then show "m (a + 1 + of_nat i) = cs ! i"
        using Cons.prems(1) [rule_format, of "Suc i"] by (simp add: add.assoc)
    qed
    show "m (a + 1 + of_nat (length cs)) = 0" "0 \<notin> set cs"
      using Cons.prems(2,3) by (simp_all add: add.assoc)
  qed
  moreover have "c \<noteq> 0"
    using Cons.prems(3) by auto
  ultimately show ?case
    by simp
qed simp

lemma string_at_c_string:
  assumes "c_string m a cs" and "length cs < 2 ^ 64"
  shows "string_at m a = Some cs"
proof -
  have "strlen m a = Some (of_nat (length cs))"
    using strlen_from_string [OF assms(1), of 0] by (simp add: strlen_def)
  moreover have "map (\<lambda>i. m (a + of_nat i)) [0..<length cs] = cs"
    using c_string_nth [OF assms(1)] by (intro nth_equalityI) simp_all
  moreover have "unat (of_nat (length cs) :: u64) = length cs"
    using assms(2) by (simp add: unat_of_nat)
  ultimately show ?thesis
    by (simp add: string_at_def)
qed


text \<open>Writes at an offset from a base address, read back at another offset.\<close>

lemma stored_at:
  assumes "i < 2 ^ 64" and "j + length cs \<le> 2 ^ 64" and "j < 2 ^ 64"
  shows "stored m (a + of_nat j) cs (a + of_nat i) = (if j \<le> i \<and> i < j + length cs then cs ! (i - j) else m (a + of_nat i))"
proof (cases "j \<le> i")
  case True
  then have "unat (a + of_nat i - (a + of_nat j)) = i - j"
    using assms(1) by (simp add: unat_of_nat flip: of_nat_diff)
  then show ?thesis
    using True by (auto simp: stored_def)
next
  case False
  have u: "unat (of_nat i :: u64) = i" "unat (of_nat j :: u64) = j"
    using assms by (simp_all add: unat_of_nat)
  have "unat (of_nat i - of_nat j :: u64) = i + 2 ^ 64 - j"
    using False unfolding unat_sub_if' u by simp
  moreover have "\<not> i + 2 ^ 64 - j < length cs"
    using assms(2) by simp
  ultimately show ?thesis
    using False by (simp add: stored_def)
qed


lemma length_PANIC: "length str_PANIC = 7"
  by (simp add: str_PANIC_def)

lemma stored_two:
  assumes "i < 2 ^ 64" and "j + 2 \<le> 2 ^ 64"
  shows "stored m (a + of_nat j) [x, y] (a + of_nat i) = (if i = j then x else if i = j + 1 then y else m (a + of_nat i))"
  using stored_at [OF assms(1), of j "[x, y]" m a] assms(2) by (cases "i = j"; cases "i = j + 1") auto

definition outside_buffer :: "u64 \<Rightarrow> mem \<Rightarrow> mem \<Rightarrow> bool" where
  "outside_buffer buf m m' \<longleftrightarrow> (\<forall>x. 160 \<le> unat (x - buf) \<longrightarrow> m' x = m x)"

text \<open>What the loop of \<open>vsnprintf\<close> leaves in the buffer, by offsets.\<close>

lemma panic_buffer:
  fixes m :: mem and cs :: "u8 list" and buf :: u64
  assumes "i < 2 ^ 64"
  defines "t \<equiv> str_PANIC @ take 152 cs"
  defines "m2 \<equiv> (stored (stored m buf str_PANIC) (buf + 7) (take 152 cs))(buf + 7 + of_nat (length (take 152 cs)) := 0)"
  shows "m2 (buf + of_nat i) = (if i < length t then t ! i else if i = length t then 0 else m (buf + of_nat i))"
proof -
  let ?c = "take 152 cs"
  have t: "length t = 7 + length ?c" "length ?c \<le> 152"
    by (simp_all add: t_def str_PANIC_def)
  have "buf + 7 + of_nat (length ?c) = buf + of_nat (length t)"
    unfolding t(1) by (simp add: add.assoc)
  moreover have "buf + of_nat i = buf + of_nat (length t) \<longleftrightarrow> i = length t"
  proof -
    have "unat (of_nat i :: u64) = i" "unat (of_nat (length t) :: u64) = length t"
      by (rule of_nat_inverse [OF refl], use assms(1) t in simp)+
    then show ?thesis
      by (metis add_left_cancel)
  qed
  moreover have "stored (stored m buf str_PANIC) (buf + 7) ?c (buf + of_nat i)
      = (if i < length t then t ! i else m (buf + of_nat i))"
    using stored_at [of i 7 ?c "stored m buf str_PANIC" buf] stored_at [of i 0 str_PANIC m buf] assms(1) t
    by (auto simp: t_def nth_append length_PANIC)
  ultimately show ?thesis
    by (simp add: m2_def)
qed


lemma console_printf_returns:
  assumes "format_ok f args" and "length cells = CONSOLE_CELLS"
  shows "\<exists>r cells'. console_printf cpos color f args cells = ret (r, cells') \<and> length cells' = CONSOLE_CELLS"
proof -
  obtain r cells' where "console_vprintf cpos color f args cells = ret (r, cells')"
    using format_ok_returns [OF assms(1), of color] unfolding returns_on_def console_vprintf_def Let_def
    by (metis (no_types, lifting) bindo_ret prod.collapse case_prod_conv)
  then show ?thesis
    using console_vprintf_ok(1) [OF assms(2)] by (auto simp: console_printf_def)
qed

text \<open>The buffer after the newline has been added.\<close>

lemma panic_buffer_line:
  fixes m2 :: mem and cs :: "u8 list" and buf :: u64
  defines "t \<equiv> str_PANIC @ take 152 cs"
  defines "j \<equiv> (if length t = 159 then 158 else length t)"
  defines "m3 \<equiv> (if last t \<noteq> 10 then stored m2 (buf + of_nat j) [10, 0] else m2)"
  assumes m2: "\<And>i. i < 2 ^ 64 \<Longrightarrow> m2 (buf + of_nat i) = (if i < length t then t ! i else if i = length t then 0 else m (buf + of_nat i))"
    and nz: "0 \<notin> set cs"
  shows "c_string m3 buf (panic_line cs)" and "outside_buffer buf m m3"
proof -
  have len: "7 \<le> length t" "length t \<le> 159"
    by (simp_all add: t_def str_PANIC_def)
  have l: "panic_line cs = (if last t = 10 then t else take j t @ [10])"
    using len by (auto simp: panic_line_def t_def [symmetric] j_def butlast_conv_take Let_def)
  have j: "j + 2 \<le> 2 ^ 64"
    using len by (simp add: j_def)
  have m3: "m3 (buf + of_nat i) = (if last t \<noteq> 10 \<and> i = j then 10 else if last t \<noteq> 10 \<and> i = j + 1 then 0
      else m2 (buf + of_nat i))" if "i < 2 ^ 64" for i
  proof (cases "last t = 10")
    case True
    then show ?thesis
      by (simp add: m3_def)
  next
    case False
    then show ?thesis
      using stored_two [OF that j, of m2 buf 10 0] by (simp only: m3_def simp_thms if_True)
  qed
  have "0 \<notin> set t"
    using nz set_take_subset [of 152 cs] by (auto simp: t_def str_PANIC_def)
  then have "0 \<notin> set (panic_line cs)"
    using set_take_subset [of j t] by (auto simp: l)
  moreover have "\<forall>i<length (panic_line cs). m3 (buf + of_nat i) = panic_line cs ! i"
    using m3 m2 len by (auto simp: l nth_append j_def)
  moreover have "m3 (buf + of_nat (length (panic_line cs))) = 0"
    using m3 [of "length (panic_line cs)"] m2 [of "length (panic_line cs)"] len by (auto simp: l j_def min_def)
  ultimately show "c_string m3 buf (panic_line cs)"
    by (intro c_stringI)
  show "outside_buffer buf m m3"
    unfolding outside_buffer_def
  proof (intro allI impI)
    fix x :: u64 assume far: "160 \<le> unat (x - buf)"
    have "x = buf + of_nat (unat (x - buf))" "unat (x - buf) < 2 ^ 64"
      using unat_less_2p64 [of "x - buf"] by simp_all
    then show "m3 x = m x"
      using m3 [of "unat (x - buf)"] m2 [of "unat (x - buf)"] far len by (auto simp: j_def split: if_splits)
  qed
qed

text \<open>The two steps of \<open>kernel_panic\<close> before the newline: the formatted message in the buffer, and the arithmetic on its length.\<close>

lemma panic_vsnprintf:
  assumes "format_text format args = ret cs" and "unat buf + 160 \<le> 2 ^ 64"
  shows "vsnprintf (buf + 7) (PANIC_BUF - 7) format args m
    = ret (of_nat (length (take 152 cs)), (stored m (buf + 7) (take 152 cs))(buf + 7 + of_nat (length (take 152 cs)) := 0))"
proof -
  obtain out where out: "printer_vprintf log_putc 0 format args [] = ret out" "map fst out = cs"
    using assms(1) unfolding format_text_logged [of format args 0] map_outcome_def bindo_eq_ret by auto
  have b7: "unat (buf + 7) = unat buf + 7"
    using assms(2) by (simp add: unat_word_ariths)
  have "vsnprintf (buf + 7) 153 format args m
      = (let c = take (unat (153 :: u64) - 1) (map fst out) in ret (of_nat (length c), (stored m (buf + 7) c)(buf + 7 + of_nat (length c) := 0)))"
    by (rule vsnprintf_stored [OF _ _ _ out(1)]) (use assms(2) b7 in simp_all)
  then show ?thesis
    by (simp add: PANIC_BUF_def out(2) Let_def)
qed

lemma panic_length:
  fixes len :: u32
  assumes l: "len = of_nat n" and n: "0 < n" "n \<le> 159"
  shows "sint len = int n" and "len = ucast PANIC_BUF - 1 \<longleftrightarrow> n = 159" and "scast len = (of_nat n :: u64)"
    and "scast (len - 1) = (of_nat (n - 1) :: u64)"
proof -
  show "sint len = int n" "scast len = (of_nat n :: u64)"
    unfolding l using n(2) by (simp_all add: sint_small_nat index_word)
  have "unat len = n"
    unfolding l by (rule of_nat_inverse [OF refl]) (use n(2) in simp)
  then show "len = ucast PANIC_BUF - 1 \<longleftrightarrow> n = 159"
    by (auto simp: PANIC_BUF_def word_unat_eq_iff)
  have "len - 1 = of_nat (n - 1)"
    unfolding l using n(1) by simp
  then show "scast (len - 1) = (of_nat (n - 1) :: u64)"
    using n(2) by (simp add: index_word)
qed

text \<open>The panic message of a process fits its buffer: with any message that contains no NUL, \<open>kernel_panic\<close> hands the kernel a
  terminated string of at most 159 characters that starts with PANIC and ends in a newline (the message
  itself, truncated if it is too long), writes nothing outside the 160 bytes of its buffer, and prints within
  the console.\<close>

theorem process_panic_fits:
  assumes "format_text format args = ret cs" and "0 \<notin> set cs" and "unat buf + 160 \<le> 2 ^ 64"
    and "length cells = CONSOLE_CELLS"
  shows "\<exists>m' cells'. process_panic buf format args (m, cells) = ret (m', cells') \<and>
    c_string m' buf (panic_line cs) \<and> length (panic_line cs) \<le> 159 \<and> last (panic_line cs) = 10 \<and>
    outside_buffer buf m m' \<and> length cells' = CONSOLE_CELLS"
proof -
  define t where "t = str_PANIC @ take 152 cs"
  define j where "j = (if length t = 159 then 158 else length t)"
  define m2 where "m2 = (stored (stored m buf str_PANIC) (buf + 7) (take 152 cs))(buf + 7 + of_nat (length (take 152 cs)) := 0)"
  define m3 where "m3 = (if last t \<noteq> 10 then stored m2 (buf + of_nat j) [10, 0] else m2)"
  have n: "length t = 7 + length (take 152 cs)" "length t \<le> 159"
    by (simp_all add: t_def str_PANIC_def)
  have v: "vsnprintf (buf + 7) (PANIC_BUF - 7) format args (stored m buf str_PANIC) = ret (of_nat (length (take 152 cs)), m2)"
    unfolding m2_def by (rule panic_vsnprintf [OF assms(1,3)])
  have m2: "m2 (buf + of_nat i) = (if i < length t then t ! i else if i = length t then 0 else m (buf + of_nat i))" if "i < 2 ^ 64" for i
    using panic_buffer [OF that, of m buf cs] unfolding m2_def t_def .
  define len where "len = (of_nat (length (take 152 cs)) + 7 :: u32)"
  have "len = of_nat (length t)" "0 < length t"
    unfolding len_def n(1) by simp_all
  note len = panic_length [OF this n(2)]
  have last: "m2 (buf + scast (len - 1)) = last t"
  proof -
    have "t \<noteq> []"
      using n(1) by auto
    moreover have "length t - 1 < 2 ^ 64" "length t - 1 < length t"
      using n by simp_all
    ultimately show ?thesis
      using m2 [of "length t - 1"] unfolding len(4) last_conv_nth [OF \<open>t \<noteq> []\<close>] by presburger
  qed
  have eq: "buf + scast len - (if len = ucast PANIC_BUF - 1 then 1 else 0) = buf + of_nat j"
    unfolding len(2,3) j_def using n(1) by simp
  have step: "(if sint len > 0 \<and> m2 (buf + scast (len - 1)) \<noteq> 10
      then stored m2 (buf + scast len - (if len = ucast PANIC_BUF - 1 then 1 else 0)) [10, 0] else m2) = m3"
    unfolding last len(1) m3_def eq using n(1) by simp
  have cs: "c_string m3 buf (panic_line cs)" and far: "outside_buffer buf m m3"
    using panic_buffer_line [of m2 buf cs m, folded t_def, folded j_def, folded m3_def] m2 assms(2) by blast+
  have "string_at m3 buf = Some (panic_line cs)"
    using string_at_c_string [OF cs] length_panic_line(1) [of cs] by simp
  moreover obtain r cells' where "console_printf (of_nat (CPOS 23 0)) 0xC000 [37, 115] [Va_string (panic_line cs)] cells = ret (r, cells')"
    "length cells' = CONSOLE_CELLS"
    using console_printf_returns [OF _ assms(4), of "[37, 115]" "[Va_string (panic_line cs)]" "of_nat (CPOS 23 0)" "0xC000"] by auto
  ultimately have "process_panic buf format args (m, cells) = ret (m3, cells')"
    unfolding process_panic_def Let_def case_prod_conv v bindo_ret len_def [symmetric] step by simp
  then show ?thesis
    using cs far length_panic_line \<open>length cells' = CONSOLE_CELLS\<close> by blast
qed


theorem process_panic_fits_witness:
  "\<exists>m' cells'. process_panic 0x1000 [37, 115] [Va_string (replicate 200 65)] (\<lambda>_. 7, replicate 2000 0) = ret (m', cells') \<and>
     c_string m' 0x1000 (panic_line (replicate 200 65)) \<and> m' 0x10A0 = 7"
proof -
  have t: "format_text [37, 115] [Va_string (replicate 200 65)] = ret (replicate 200 65)"
    by code_simp
  have "length (replicate 2000 (0 :: u16)) = CONSOLE_CELLS"
    by (simp add: CONSOLE_CELLS_def)
  from process_panic_fits [OF t _ _ this, of "0x1000" "\<lambda>_. 7"] obtain m' cells' where
    "process_panic 0x1000 [37, 115] [Va_string (replicate 200 65)] (\<lambda>_. 7, replicate 2000 0) = ret (m', cells')"
    "c_string m' 0x1000 (panic_line (replicate 200 65))" "outside_buffer 0x1000 (\<lambda>_. 7) m'"
    by auto
  then show ?thesis
    by (auto simp: outside_buffer_def)
qed

section \<open>The cursor of processes\<close>

text \<open>\<open>app_printf\<close> keeps the console and leaves the cursor above row 23, which is for the messages of the
  kernel, whatever it prints and wherever the cursor was.\<close>

theorem app_printf_rows:
  assumes "length cells = CONSOLE_CELLS" and "app_printf colorid format args (cpos, cells) = ret (cpos', cells')"
  shows "length cells' = CONSOLE_CELLS \<and> CROW cpos' < 23"
proof -
  obtain r where r: "console_vprintf cpos (app_color colorid) format args cells = ret (r, cells')"
    "cpos' = (if CROW r \<ge> 23 then of_nat (CPOS 0 0) else r)"
    using assms(2) by (auto simp: app_printf_def bindo_eq_ret)
  then show ?thesis
    using console_vprintf_ok(1) [OF assms(1) r(1)] by (auto simp: CROW_def CPOS_def)
qed

theorem app_printf_rows_witness:
  "\<exists>cpos cells. app_printf 3 [10] [] (1900, replicate 2000 0) = ret (cpos, cells) \<and> CROW cpos < 23"
proof -
  have t: "format_text [10] [] = ret [10]"
    by code_simp
  have len: "length (replicate 2000 (0 :: u16)) = CONSOLE_CELLS"
    by (simp add: CONSOLE_CELLS_def)
  obtain r cells where "console_vprintf 1900 (app_color 3) [10] [] (replicate 2000 0) = ret (r, cells)"
    using console_vprintf_text [OF t len] by blast
  then obtain cpos where "app_printf 3 [10] [] (1900, replicate 2000 0) = ret (cpos, cells)"
    by (simp add: app_printf_def)
  then show ?thesis
    using app_printf_rows [OF len] by blast
qed

end
