(* ===== verification/User_Programs.thy ===== *)
theory User_Programs
  imports Allocator_Properties User_Messages Elf
begin

text \<open>
  The programs that exercise the memory system (\<^verbatim>\<open>uspace/p-test.c\<close>, \<^verbatim>\<open>uspace/p-alloctests.c\<close>, \<^verbatim>\<open>uspace/p-allocator.c\<close>,
  \<^verbatim>\<open>uspace/p-malloc.c\<close>), as clients of the allocator and of \<open>sbrk\<close>. A program runs on the memory of its process, with the variables of
  \<^verbatim>\<open>malloc.c\<close>, and on the kernel state that its system calls reach. The process ID \<open>p\<close>, the answers of the time stamp counter
  and the uninitialized variable \<open>info\<close> are arguments. The seed that the first three programs set with \<open>srand\<close> is never used. An access through a null pointer is a fault.
\<close>

section \<open>Arrays of integers\<close>

text \<open>The loop that stores \<open>i\<close> in element \<open>i\<close>.\<close>

primrec fill_ints :: "u64 \<Rightarrow> nat \<Rightarrow> mem \<Rightarrow> mem" where
  "fill_ints a 0 m = m"
| "fill_ints a (Suc n) m = store32 (fill_ints a n m) (a + of_nat (4 * n)) (of_nat n)"

text \<open>The loops that assert the value of every element.\<close>

definition ints_are :: "mem \<Rightarrow> u64 \<Rightarrow> nat \<Rightarrow> (nat \<Rightarrow> u32) \<Rightarrow> bool" where
  "ints_are m a n f = list_all (\<lambda>i. load32 m (a + of_nat (4 * i)) = f i) [0..<n]"

definition sizes_descend :: "mem \<Rightarrow> u64 \<Rightarrow> u32 \<Rightarrow> bool" where
  "sizes_descend m a num =
     list_all (\<lambda>i. sint (load64 m (a + 8 * of_nat i)) < sint (load64 m (a + 8 * of_nat (i - 1)))) [1..<nat (sint num)]"

section \<open>p-test.c and p-alloctests.c\<close>

text \<open>The use of a pointer: with \<open>checked\<close> (\<^verbatim>\<open>p-test.c\<close>) after assertions that it is not null and aligned, otherwise directly.\<close>

definition use_pointer :: "bool \<Rightarrow> u64 \<Rightarrow> unit outcome" where
  "use_pointer checked ptr =
     (if checked then bindo (assertion (ptr \<noteq> 0)) (\<lambda>_. assertion (unat ptr mod 8 = 0))
      else if ptr = 0 then fail Null_deref else ret ())"

text \<open>An array of 10 integers is filled, resized to 20, and must have its contents.\<close>

definition resize_array :: "bool \<Rightarrow> heap \<times> kstate \<Rightarrow> (u64 \<times> heap \<times> kstate) outcome" where
  "resize_array checked st =
     bindo (malloc sys_sbrk 40 st) (\<lambda>(array, s1, k1).
     bindo (use_pointer checked array) (\<lambda>_.
     bindo (realloc sys_sbrk array 80 (s1\<lparr>bytes := fill_ints array 10 (bytes s1)\<rparr>, k1)) (\<lambda>(array', s2, k2).
     bindo (use_pointer checked array') (\<lambda>_.
     bindo (assertion (ints_are (bytes s2) array' 10 of_nat)) (\<lambda>_.
       ret (array', s2, k2))))))"

definition zeroed_array :: "heap \<times> kstate \<Rightarrow> (u64 \<times> heap \<times> kstate) outcome" where
  "zeroed_array st =
     bindo (calloc sys_sbrk 30 4 st) (\<lambda>(array2, s1, k1).
     bindo (use_pointer False array2) (\<lambda>_.
     bindo (assertion (ints_are (bytes s1) array2 30 (\<lambda>_. 0))) (\<lambda>_.
       ret (array2, s1, k1))))"

text \<open>One step of the loops that allocate pages: the time of a call of \<open>malloc\<close> is added up; \<open>None\<close> when memory is used up.\<close>

type_synonym page_count = "u64 \<times> u32 \<times> nat"

definition allocate_page ::
  "(nat \<Rightarrow> u64) \<Rightarrow> u32 \<Rightarrow> page_count \<times> heap \<times> kstate \<Rightarrow> (bool \<times> page_count \<times> heap \<times> kstate) outcome" where
  "allocate_page tsc p = (\<lambda>((total_time, total_pages, n), st).
     bindo (malloc sys_sbrk PAGESIZE st) (\<lambda>(ptr, s1, k1).
       let time = total_time + (tsc (n + 1) - tsc n)
       in if ptr = 0 then ret (False, (time, total_pages, n + 2), s1, k1)
          else ret (True, (time, total_pages + 1, n + 2), s1\<lparr>bytes := store32 (bytes s1) ptr p\<rparr>, k1)))"

primrec allocate_pages ::
  "(nat \<Rightarrow> u64) \<Rightarrow> u32 \<Rightarrow> nat \<Rightarrow> page_count \<times> heap \<times> kstate \<Rightarrow> (page_count \<times> heap \<times> kstate) outcome" where
  "allocate_pages tsc p 0 st = ret st"
| "allocate_pages tsc p (Suc i) st =
     bindo (allocate_page tsc p st) (\<lambda>(more, st1). if more then allocate_pages tsc p i st1 else ret st1)"

partial_function (option) allocate_all ::
  "(nat \<Rightarrow> u64) \<Rightarrow> u32 \<Rightarrow> page_count \<times> heap \<times> kstate \<Rightarrow> (page_count \<times> heap \<times> kstate) outcome" where
  "allocate_all tsc p st = bindo (allocate_page tsc p st) (\<lambda>(more, st1). if more then allocate_all tsc p st1 else ret st1)"

text \<open>\<open>process_main\<close> of \<^verbatim>\<open>p-test.c\<close>, up to \<open>TEST_PASS()\<close>.\<close>

definition p_test :: "(nat \<Rightarrow> u64) \<Rightarrow> u32 \<Rightarrow> heap_info_struct \<Rightarrow> heap \<times> kstate \<Rightarrow> (heap \<times> kstate) outcome" where
  "p_test tsc p info0 st =
     bindo (resize_array True st) (\<lambda>(array, st1).
     bindo (zeroed_array st1) (\<lambda>(array2, st2).
     bindo (heap_info sys_sbrk info0 st2) (\<lambda>(r, info, s3, k3).
     bindo (assertion (r = 0)) (\<lambda>_.
     bindo (assertion (sizes_descend (bytes s3) (size_array info) (num_allocs info))) (\<lambda>_.
     bindo (lift_option (free array s3)) (\<lambda>s4.
     bindo (lift_option (free array2 s4)) (\<lambda>s5.
     bindo (allocate_pages tsc p 256 ((0, 0, 0), s5, k3)) (\<lambda>(_, st6). ret st6))))))))"

definition str_heap_info_failed :: "u8 list" where
  "str_heap_info_failed = [104, 101, 97, 112, 95, 105, 110, 102, 111, 32, 102, 97, 105, 108, 101, 100, 10]"

definition str_total_time :: "u8 list" where
  "str_total_time = [84, 111, 116, 97, 108, 95, 116, 105, 109, 101, 32, 116, 97, 107, 101, 110, 32, 116, 111, 32, 97, 108, 108, 111, 99, 58, 32,
     37, 100, 32, 65, 118, 101, 114, 97, 103, 101, 32, 116, 105, 109, 101, 58, 32, 37, 100, 10]"

text \<open>\<open>process_main\<close> of \<^verbatim>\<open>p-alloctests.c\<close>, up to the endless loop of \<open>yield\<close>; \<open>screen\<close> is \<open>cursorpos\<close> and the console. The division by the
  number of pages is undefined when there is none.\<close>

definition p_alloctests ::
  "(nat \<Rightarrow> u64) \<Rightarrow> u32 \<Rightarrow> heap_info_struct \<Rightarrow> u32 \<times> console \<Rightarrow> heap \<times> kstate \<Rightarrow> ((u32 \<times> console) \<times> heap \<times> kstate) outcome" where
  "p_alloctests tsc p info0 screen st =
     bindo (resize_array False st) (\<lambda>(array, st1).
     bindo (zeroed_array st1) (\<lambda>(array2, st2).
     bindo (heap_info sys_sbrk info0 st2) (\<lambda>(r, info, s3, k3).
     bindo (if r = 0 then bindo (assertion (sizes_descend (bytes s3) (size_array info) (num_allocs info))) (\<lambda>_. ret screen)
            else app_printf 0 str_heap_info_failed [] screen) (\<lambda>screen1.
     bindo (lift_option (free array s3)) (\<lambda>s4.
     bindo (lift_option (free array2 s4)) (\<lambda>s5.
     bindo (allocate_all tsc p ((0, 0, 0), s5, k3)) (\<lambda>((total_time, total_pages, _), st6).
     bindo (if total_pages = 0 then fail Undefined
            else app_printf p str_total_time [Va_word total_time, Va_word (total_time div scast total_pages)] screen1) (\<lambda>screen2.
       ret (screen2, st6)))))))))"

section \<open>p-allocator.c\<close>

text \<open>The loop that grows the heap page by page with \<open>sbrk\<close>, and writes to every page.\<close>

partial_function (option) grow_heap ::
  "u32 \<Rightarrow> u64 \<Rightarrow> u64 \<Rightarrow> mem \<times> kstate \<Rightarrow> (u64 \<times> mem \<times> kstate) outcome" where
  "grow_heap p stack_bottom heap_top st =
     (if heap_top + PAGESIZE < stack_bottom
      then bindo (sys_sbrk (snd st) PAGESIZE) (\<lambda>(r, k1).
             if r = - 1 then ret (heap_top, fst st, k1)
             else grow_heap p stack_bottom (r + PAGESIZE) ((fst st)(heap_top := ucast p), k1))
      else ret (heap_top, st))"

text \<open>\<open>process_main\<close> up to \<open>TEST_PASS()\<close>; \<open>end_addr\<close> is the end of the program's data, \<open>rsp\<close> the stack pointer.\<close>

definition p_allocator :: "u32 \<Rightarrow> u64 \<Rightarrow> u64 \<Rightarrow> mem \<times> kstate \<Rightarrow> (u64 \<times> mem \<times> kstate) outcome" where
  "p_allocator p end_addr rsp st = grow_heap p (ROUNDDOWN (rsp - 1) PAGESIZE) (ROUNDUP end_addr PAGESIZE) st"

section \<open>p-malloc.c\<close>

text \<open>One iteration of the first loop of \<open>process_main\<close>: now and then a page is allocated, then the process yields. \<open>meanwhile k\<close> is the
  kernel state when it runs again. The result \<open>False\<close> is the end of the loop; after that the process only yields.\<close>

definition p_malloc_step ::
  "u32 \<Rightarrow> (kstate \<Rightarrow> kstate) \<Rightarrow> rand_state \<times> heap \<times> kstate \<Rightarrow> (bool \<times> rand_state \<times> heap \<times> kstate) outcome" where
  "p_malloc_step p meanwhile = (\<lambda>(seed, s, k).
     let (r, seed1) = rand seed
     in if sint r mod 100 < sint p
        then bindo (malloc sys_sbrk PAGESIZE (s, k)) (\<lambda>(ptr, s1, k1).
               if ptr = 0 then ret (False, seed1, s1, k1)
               else ret (True, seed1, s1\<lparr>bytes := store32 (bytes s1) ptr p\<rparr>, meanwhile k1))
        else ret (True, seed1, s, meanwhile k))"

text \<open>The loop after at most \<open>n\<close> iterations.\<close>

primrec p_malloc ::
  "u32 \<Rightarrow> (kstate \<Rightarrow> kstate) \<Rightarrow> nat \<Rightarrow> rand_state \<times> heap \<times> kstate \<Rightarrow> (bool \<times> rand_state \<times> heap \<times> kstate) outcome" where
  "p_malloc p meanwhile 0 st = ret (True, st)"
| "p_malloc p meanwhile (Suc n) st =
     bindo (p_malloc p meanwhile n st) (\<lambda>(more, st1). if more then p_malloc_step p meanwhile st1 else ret (False, st1))"

section \<open>Stores and loads\<close>

lemma offsets_differ:
  assumes "i < 2 ^ 63" and "j < 2 ^ 63" and "i \<noteq> j"
  shows "a + of_nat i \<noteq> a + (of_nat j :: u64)"
proof
  assume "a + of_nat i = a + (of_nat j :: u64)"
  then have "unat (of_nat i :: u64) = unat (of_nat j :: u64)"
    by simp
  then show False
    using assms by (simp add: unat_of_nat)
qed

lemma fill_ints_other:
  "n \<le> 2 ^ 60 \<Longrightarrow> (\<And>j. j < 4 * n \<Longrightarrow> x \<noteq> a + of_nat j) \<Longrightarrow> fill_ints a n m x = m x"
proof (induction n)
  case (Suc n)
  have "x \<noteq> a + of_nat (4 * n) + of_nat j" if "j < 4" for j
    using Suc.prems(2) [of "4 * n + j"] that by (simp add: add.assoc)
  then show ?case
    using Suc by (simp add: store32_other)
qed simp

lemma fill_ints_load:
  "n \<le> 2 ^ 60 \<Longrightarrow> i < n \<Longrightarrow> load32 (fill_ints a n m) (a + of_nat (4 * i)) = of_nat i"
proof (induction n)
  case (Suc n)
  show ?case
  proof (cases "i = n")
    case True
    then show ?thesis
      by simp
  next
    case False
    have "a + of_nat (4 * i) + of_nat j \<noteq> a + of_nat (4 * n) + of_nat j'" if "j < 4" "j' < 4" for j j'
      using offsets_differ [of "4 * i + j" "4 * n + j'" a] Suc.prems False that by (simp add: add.assoc)
    then have "load32 (fill_ints a (Suc n) m) (a + of_nat (4 * i)) = load32 (fill_ints a n m) (a + of_nat (4 * i))"
      by (intro load32_agree) (simp add: store32_other)
    then show ?thesis
      using Suc False by simp
  qed
qed simp

section \<open>The allocator as its clients use it\<close>

text \<open>\<open>allocated r n h h'\<close>: the heap \<open>h'\<close> has one block more than \<open>h\<close>, of \<open>n\<close> bytes, with its payload at \<open>r\<close>.\<close>

definition allocated :: "u64 \<Rightarrow> nat \<Rightarrow> aheap \<Rightarrow> aheap \<Rightarrow> bool" where
  "allocated r n h h' \<longleftrightarrow> (\<exists>a z. unat r = a + 32 \<and> (a, z, n) \<notin> set (allocs h) \<and> set (allocs h') = insert (a, z, n) (set (allocs h)))"

definition live :: "u64 \<Rightarrow> nat \<Rightarrow> aheap \<Rightarrow> bool" where
  "live r n h \<longleftrightarrow> (\<exists>a z. unat r = a + 32 \<and> (a, z, n) \<in> set (allocs h))"

lemma spec_malloc_break:
  assumes "spec_malloc limit n (h, b) = (r, h', b')"
  shows "b' \<le> b + chunk_size n"
  using assms by (cases rule: spec_malloc_cases [of n limit h b]) auto

text \<open>No block of \<open>n\<close> bytes can be allocated: no free block is large enough, and the break cannot grow.\<close>

definition exhausted :: "nat \<Rightarrow> aheap \<Rightarrow> nat \<Rightarrow> bool" where
  "exhausted n h b \<longleftrightarrow> (\<forall>(a, sz)\<in>set (frees h). sz < required_size n) \<and> BREAK_LIMIT \<le> b + chunk_size n"

text \<open>The result of \<open>malloc\<close>: a new block, or null when memory is used up.\<close>

lemma client_block:
  assumes sp: "spec_malloc BREAK_LIMIT n (h, the_break k) = (unat r, h', the_break k')" and ok: "spec_ok lo (h, the_break k)"
    and n: "0 < n"
  shows "the_break k' \<le> the_break k + chunk_size n" and "wf_heap lo (the_break k') h'"
    and "if r = 0 then h' = h \<and> the_break k' = the_break k \<and> exhausted n h (the_break k) else allocated r n h h'"
proof -
  show "the_break k' \<le> the_break k + chunk_size n"
    using spec_malloc_break [OF sp] .
  show wf: "wf_heap lo (the_break k') h'"
    using spec_malloc_ok [OF ok sp] by (simp add: spec_ok_def)
  show "if r = 0 then h' = h \<and> the_break k' = the_break k \<and> exhausted n h (the_break k) else allocated r n h h'"
  proof (cases "r = 0")
    case True
    then show ?thesis
      using spec_malloc_null [OF sp [unfolded True, simplified]] n by (simp add: exhausted_def)
  next
    case False
    then have "unat r \<noteq> 0"
      by (simp add: unat_eq_0)
    from spec_malloc_result [OF sp this] obtain a z where
      r: "unat r = a + 32" and al: "allocs h' = ins_alloc (a, z, n) (allocs h)"
      by auto
    have "distinct (map fst (allocs h'))"
      using allocs_distinct [OF wf refl] .
    then have "distinct (allocs h')"
      by (simp add: distinct_map)
    then have "(a, z, n) \<notin> set (allocs h)"
      by (simp add: al ins_alloc_def)
    then show ?thesis
      using False r al by (auto simp: allocated_def)
  qed
qed

lemma live_facts:
  assumes inv: "heap_inv lo (s, k) h" and l: "live r n h"
  shows "r \<noteq> 0" and "unat r mod 8 = 0" and "unat r + n < BREAK_LIMIT"
proof -
  note d = heap_invD [OF inv]
  obtain a z where r: "unat r = a + 32" "(a, z, n) \<in> set (allocs h)"
    using l by (auto simp: live_def)
  have "n + 32 \<le> z" "block_ok lo (the_break k) (a, z)"
    using d(2) r(2) alloc_block_ok [OF d(2) r(2)] by (auto simp: wf_heap_def)
  then have "a + 32 + n < BREAK_LIMIT" "8 dvd a"
    using d(7) by (auto simp: block_ok_def)
  moreover have "8 dvd a + 32"
    using \<open>8 dvd a\<close> by simp
  ultimately show "r \<noteq> 0" "unat r mod 8 = 0" "unat r + n < BREAK_LIMIT"
    using r(1) by auto
qed

lemma allocated_live: "allocated r n h h' \<Longrightarrow> live r n h'"
  by (auto simp: allocated_def live_def)

text \<open>Writing inside a block keeps the heap and the other blocks.\<close>

lemma client_write:
  assumes inv: "heap_inv lo (s, k) h" and l: "live r n h" and m: "\<And>x. (\<forall>j<n. x \<noteq> r + of_nat j) \<Longrightarrow> m x = bytes s x"
  shows "heap_inv lo (s\<lparr>bytes := m\<rparr>, k) h"
proof -
  note d = heap_invD [OF inv]
  obtain a z where r: "unat r = a + 32" "(a, z, n) \<in> set (allocs h)"
    using l by (auto simp: live_def)
  have z: "n + 32 \<le> z"
    using d(2) r(2) by (auto simp: wf_heap_def)
  have "m x = bytes s x" if "unat x < a + 32 \<or> a + z \<le> unat x" for x
  proof (rule m, intro allI impI)
    fix j
    assume "j < n"
    then have "unat (r + of_nat j) = a + 32 + j"
      using live_facts(3) [OF inv l] r(1) by (simp add: unat_word_ariths unat_of_nat BREAK_LIMIT_def)
    then show "x \<noteq> r + of_nat j"
      using that \<open>j < n\<close> z by auto
  qed
  then have "payload_only a z (bytes s) m"
    by (auto simp: payload_only_def)
  then show ?thesis
    using inv payload_write_represents [OF d(1,2) r(2)] by (auto simp: heap_inv_def)
qed

lemma client_malloc:
  assumes inv: "heap_inv lo (s, k) h" and n: "0 < unat n" "unat n \<le> 2 ^ 62"
  obtains r t k' h' where "malloc sys_sbrk n (s, k) = ret (r, t, k')" and "heap_inv lo (t, k') h'"
    and "the_break k' \<le> the_break k + chunk_size (unat n)"
    and "if r = 0 then h' = h \<and> the_break k' = the_break k \<and> exhausted (unat n) h (the_break k) else allocated r (unat n) h h'"
proof -
  obtain r t k' h' where m: "malloc sys_sbrk n (s, k) = ret (r, t, k')"
    "spec_malloc BREAK_LIMIT (unat n) (h, the_break k) = (unat r, h', the_break k')" "heap_inv lo (t, k') h'"
    using kernel_malloc_refines [OF inv n(2)] by blast
  have "spec_ok lo (h, the_break k)"
    using inv by (simp add: heap_inv_def)
  then show ?thesis
    using that [OF m(1,3) client_block(1,3) [OF m(2) _ n(1)]] by blast
qed

lemma client_free:
  assumes inv: "heap_inv lo (s, k) h" and l: "live r n h"
  obtains t a z where "free r s = Some t" and "unat r = a + 32" "(a, z, n) \<in> set (allocs h)"
    and "heap_inv lo (t, k) (spec_free (a + 32) h)" and "set (allocs (spec_free (a + 32) h)) = set (allocs h) - {(a, z, n)}"
proof -
  note d = heap_invD [OF inv]
  obtain a z where r: "unat r = a + 32" "(a, z, n) \<in> set (allocs h)"
    using l by (auto simp: live_def)
  from free_refines [OF d(1,2,6,8) r(2,1)] obtain t where
    t: "free r s = Some t" "represents t (spec_free (a + 32) h)"
    by blast
  have "heap_inv lo (t, k) (spec_free (a + 32) h)"
    using inv t(2) spec_free_wf(1) [OF d(2)] by (simp add: heap_inv_def spec_ok_def)
  then show ?thesis
    using that t(1) r spec_free_moves(2) [OF d(2) r(2)] by blast
qed

lemma client_realloc:
  assumes inv: "heap_inv lo (s, k) h" and l: "live ptr n h" and sz: "0 < unat sz" "unat sz \<le> 2 ^ 62"
    and room: "the_break k + chunk_size (unat sz) < BREAK_LIMIT"
  obtains r t k' h1 h' a z where "realloc sys_sbrk ptr sz (s, k) = ret (r, t, k')" and "heap_inv lo (t, k') h'" and "allocated r (unat sz) h h1"
    and "unat ptr = a + 32" and "(a, z, n) \<in> set (allocs h)" and "set (allocs h') = set (allocs h1) - {(a, z, n)}" and "live r (unat sz) h'"
    and "the_break k' \<le> the_break k + chunk_size (unat sz)"
    and "\<And>i. i < min n (unat sz) \<Longrightarrow> bytes t (r + of_nat i) = bytes s (ptr + of_nat i)"
proof -
  obtain a z where p: "unat ptr = a + 32" "(a, z, n) \<in> set (allocs h)"
    using l by (auto simp: live_def)
  have z: "n \<le> z - 32" and ok: "spec_ok lo (h, the_break k)"
    using inv p(2) by (auto simp: heap_inv_def spec_ok_def wf_heap_def)
  obtain r t k' h1 where re: "realloc sys_sbrk ptr sz (s, k) = ret (r, t, k')"
    "spec_malloc BREAK_LIMIT (unat sz) (h, the_break k) = (unat r, h1, the_break k')"
    "heap_inv lo (t, k') (if r = 0 then h else spec_free (a + 32) h1)"
    "r \<noteq> 0 \<longrightarrow> (\<forall>i. unat i < min (z - 32) (unat sz) \<longrightarrow> bytes t (r + i) = bytes s (ptr + i))"
    using kernel_realloc_refines [OF inv sz p(2,1)] by blast
  note b = client_block [OF re(2) ok sz(1)]
  have r: "r \<noteq> 0" "allocated r (unat sz) h h1"
    using b(3) room by (auto simp: exhausted_def split: if_splits)
  have "(a, z, n) \<in> set (allocs h1)"
    using r(2) p(2) by (auto simp: allocated_def)
  note moved = spec_free_moves(2) [OF b(2) this]
  have "bytes t (r + of_nat i) = bytes s (ptr + of_nat i)" if "i < min n (unat sz)" for i
  proof -
    have "unat (of_nat i :: u64) = i"
      by (rule of_nat_inverse [OF refl]) (use that sz(2) in simp)
    then show ?thesis
      using re(4) r(1) that z by simp
  qed
  moreover have "live r (unat sz) (spec_free (a + 32) h1)"
  proof -
    obtain a' z' where a': "unat r = a' + 32" "(a', z', unat sz) \<notin> set (allocs h)" "(a', z', unat sz) \<in> set (allocs h1)"
      using r(2) by (auto simp: allocated_def)
    then have "(a', z', unat sz) \<noteq> (a, z, n)"
      using p(2) by metis
    then show ?thesis
      using a' moved by (auto simp: live_def)
  qed
  ultimately show ?thesis
    using that [OF re(1) _ r(2) p moved] re(3) r(1) b(1) by simp
qed

lemma allocated_replaced:
  assumes new: "allocated p n h h1" "allocated r m h1 h2" and wf: "wf_heap lo hi h1"
    and old: "unat p = a + 32" "(a, z, n) \<in> set (allocs h1)" "set (allocs h') = set (allocs h2) - {(a, z, n)}"
  shows "allocated r m h h'"
proof -
  obtain z' where p: "(a, z', n) \<notin> set (allocs h)" "set (allocs h1) = insert (a, z', n) (set (allocs h))"
    using new(1) old(1) by (auto simp: allocated_def)
  obtain c y where r: "unat r = c + 32" "(c, y, m) \<notin> set (allocs h1)" "set (allocs h2) = insert (c, y, m) (set (allocs h1))"
    using new(2) by (auto simp: allocated_def)
  have "z' = z"
    using alloc_unique [OF wf old(2), of z' n] p(2) by simp
  moreover have "(c, y, m) \<noteq> (a, z, n)"
    using r(2) old(2) by metis
  ultimately have "set (allocs h') = insert (c, y, m) (set (allocs h))" "(c, y, m) \<notin> set (allocs h)"
    using old(3) p r by auto
  then show ?thesis
    using r(1) by (auto simp: allocated_def)
qed

lemma small_chunks [simp]: "chunk_size 40 = 16384" "chunk_size 80 = 16384" "chunk_size 120 = 16384" "chunk_size 16 = 16384" "chunk_size 4096 = 16384"
  by (simp_all add: chunk_size_def required_size_def round_up_nat_def)

lemma use_live:
  assumes "heap_inv lo (s, k) h" and "live r n h"
  shows "use_pointer checked r = ret ()"
  using live_facts [OF assms] by (simp add: use_pointer_def)

lemma resize_array_works:
  assumes inv: "heap_inv lo (s, k) h" and room: "the_break k + 32768 < BREAK_LIMIT"
  obtains array t k' h' where "resize_array checked (s, k) = ret (array, t, k')" and "heap_inv lo (t, k') h'"
    and "allocated array 80 h h'" and "the_break k' \<le> the_break k + 32768"
proof -
  obtain a1 s1 k1 h1 where m: "malloc sys_sbrk 40 (s, k) = ret (a1, s1, k1)" "heap_inv lo (s1, k1) h1"
      "the_break k1 \<le> the_break k + 16384" "allocated a1 40 h h1"
    by (rule client_malloc [OF inv, of 40]) (use room in \<open>auto simp: exhausted_def split: if_splits\<close>)
  let ?s2 = "s1\<lparr>bytes := fill_ints a1 10 (bytes s1)\<rparr>"
  have l: "live a1 40 h1"
    using allocated_live [OF m(4)] .
  have inv2: "heap_inv lo (?s2, k1) h1"
    by (rule client_write [OF m(2) l]) (simp add: fill_ints_other)
  obtain a2 t k2 h2 h' a z where re: "realloc sys_sbrk a1 80 (?s2, k1) = ret (a2, t, k2)" "heap_inv lo (t, k2) h'" "allocated a2 80 h1 h2"
      "unat a1 = a + 32" "(a, z, 40) \<in> set (allocs h1)" "set (allocs h') = set (allocs h2) - {(a, z, 40)}" "live a2 80 h'"
      "the_break k2 \<le> the_break k1 + 16384"
      and data: "\<And>i. i < 40 \<Longrightarrow> bytes t (a2 + of_nat i) = bytes ?s2 (a1 + of_nat i)"
    by (rule client_realloc [OF inv2 l, of 80]) (use room m(3) in simp_all)
  have "load32 (bytes t) (a2 + of_nat (4 * i)) = of_nat i" if "i < 10" for i
  proof -
    have "load32 (bytes t) (a2 + of_nat (4 * i)) = load32 (bytes ?s2) (a1 + of_nat (4 * i))"
      using data [of "4 * i + j" for j] that by (intro load32_agree) (simp add: add.assoc)
    then show ?thesis
      using fill_ints_load [of 10 i a1 "bytes s1"] that by simp
  qed
  then have "ints_are (bytes t) a2 10 of_nat"
    by (auto simp: ints_are_def list_all_iff simp del: upt_rec_numeral)
  then have "resize_array checked (s, k) = ret (a2, t, k2)"
    using m(1) re(1) use_live [OF m(2) l] use_live [OF re(2,7)] by (simp add: resize_array_def)
  moreover have "allocated a2 80 h h'"
    using allocated_replaced [OF m(4) re(3) heap_invD(2) [OF m(2)] re(4-6)] .
  ultimately show ?thesis
    using that re(2,8) m(3) by simp
qed

lemma zeroed_array_works:
  assumes inv: "heap_inv lo (s, k) h" and room: "the_break k + 16384 < BREAK_LIMIT"
  obtains array t k' h' where "zeroed_array (s, k) = ret (array, t, k')" and "heap_inv lo (t, k') h'"
    and "allocated array 120 h h'" and "the_break k' \<le> the_break k + 16384"
proof -
  have ok: "spec_ok lo (h, the_break k)"
    using inv by (simp add: heap_inv_def)
  obtain r t k' h' where c: "calloc sys_sbrk 30 4 (s, k) = ret (r, t, k')"
      "spec_malloc BREAK_LIMIT 120 (h, the_break k) = (unat r, h', the_break k')" "heap_inv lo (t, k') h'"
      and zero: "r \<noteq> 0 \<longrightarrow> (\<forall>i. unat i < 120 \<longrightarrow> bytes t (r + i) = 0)"
    using kernel_calloc_refines [OF inv, of 30 4] by auto
  have b: "the_break k' \<le> the_break k + 16384" "r \<noteq> 0" "allocated r 120 h h'"
    using client_block(1,3) [OF c(2) ok] room by (auto simp: exhausted_def split: if_splits)
  have "load32 (bytes t) (r + of_nat (4 * i)) = 0" if "i < 30" for i
  proof -
    have "bytes t (r + of_nat (4 * i) + of_nat j) = (\<lambda>_. 0) (0 + of_nat j :: u64)" if "j < 4" for j
    proof -
      have "unat (of_nat (4 * i + j) :: u64) = 4 * i + j"
        by (rule of_nat_inverse [OF refl]) (use \<open>i < 30\<close> that in simp)
      then show ?thesis
        using zero [rule_format, OF b(2), of "of_nat (4 * i + j)"] \<open>i < 30\<close> that by (simp add: add.assoc)
    qed
    then have "load32 (bytes t) (r + of_nat (4 * i)) = load32 (\<lambda>_. 0) 0"
      by (intro load32_agree) simp
    then show ?thesis
      by (simp add: load32_def)
  qed
  then have "ints_are (bytes t) r 30 (\<lambda>_. 0)"
    by (auto simp: ints_are_def list_all_iff simp del: upt_rec_numeral)
  then show ?thesis
    using that c(1,3) b(1,3) use_live [OF c(3) allocated_live [OF b(3)]] by (simp add: zeroed_array_def)
qed

lemma spec_heap_info_room:
  assumes two: "length (allocs h) = 2" and room: "b + 32768 < limit" and sp: "spec_heap_info limit (h, b) = (ok, h', b')"
  shows "ok" and "set (allocs h) \<subseteq> set (allocs h')" and "b' \<le> b + 32768"
proof -
  obtain sizes h1 b1 where m1: "spec_malloc limit 16 (h, b) = (sizes, h1, b1)"
    by (cases "spec_malloc limit 16 (h, b)") auto
  obtain ptrs h2 b2 where m2: "spec_malloc limit 16 (h1, b1) = (ptrs, h2, b2)"
    by (cases "spec_malloc limit 16 (h1, b1)") auto
  have brk: "b1 \<le> b + 16384" "b2 \<le> b1 + 16384"
    using spec_malloc_break [OF m1] spec_malloc_break [OF m2] by simp_all
  have nz: "sizes \<noteq> 0" "ptrs \<noteq> 0"
    using spec_malloc_null [of limit 16 h b h1 b1] spec_malloc_null [of limit 16 h1 b1 h2 b2] m1 m2 room brk(1) by auto
  have "allocs h \<noteq> []"
    using two by auto
  then have "ok" "h' = h2" "b' = b2"
    using sp m1 m2 nz two by (simp_all add: spec_heap_info_def)
  then show "ok" "set (allocs h) \<subseteq> set (allocs h')" "b' \<le> b + 32768"
    using spec_malloc_result [OF m1 nz(1)] spec_malloc_result [OF m2 nz(2)] brk by auto
qed

text \<open>The report on the two arrays, and the end of both.\<close>

lemma report_and_free:
  assumes inv: "heap_inv lo (s, k) h" and room: "the_break k + 32768 < BREAK_LIMIT"
    and al: "allocs h0 = []" "allocated array 80 h0 h1" "allocated array2 120 h1 h"
  obtains info t k' t1 t2 h2 where "heap_info sys_sbrk info0 (s, k) = ret (0, info, t, k')"
    and "sizes_descend (bytes t) (size_array info) (num_allocs info)"
    and "free array t = Some t1" and "free array2 t1 = Some t2" and "heap_inv lo (t2, k') h2" and "the_break k' \<le> the_break k + 32768"
proof -
  obtain a z c y where b: "unat array = a + 32" "unat array2 = c + 32" "set (allocs h) = {(c, y, 120), (a, z, 80)}"
    using al by (auto simp: allocated_def)
  note d = heap_invD [OF inv]
  have "distinct (allocs h)"
    using allocs_distinct [OF d(2) refl] by (simp add: distinct_map)
  then have two: "length (allocs h) = 2"
    using distinct_card [of "allocs h"] b(3) by simp
  have order: "sorted_wrt (\<lambda>b c. snd (snd c) \<le> snd (snd b)) (allocs h)"
    using d(2) by (simp add: wf_heap_def)
  obtain e f where ef: "allocs h = [e, f]"
    using two by (auto simp: numeral_2_eq_2 length_Suc_conv)
  have list: "allocs h = [(c, y, 120), (a, z, 80)]"
    using b(3) order unfolding ef by (auto simp: doubleton_eq_iff)
  obtain r info t k' h' where hi: "heap_info sys_sbrk info0 (s, k) = ret (r, info, t, k')"
    "spec_heap_info BREAK_LIMIT (h, the_break k) = (r = 0, h', the_break k')" "heap_inv lo (t, k') h'" "totals info h" "r = 0 \<longrightarrow> reports t info h"
    using kernel_heap_info_refines [OF inv, of info0] by blast
  note sp = spec_heap_info_room [OF two room hi(2)]
  have num: "unat (num_allocs info) = 2"
    using hi(4) two by (simp add: totals_def)
  then have "sint (num_allocs info) = 2"
    using sint_small [of "num_allocs info"] by simp
  moreover have "load64 (bytes t) (size_array info) = 120" "load64 (bytes t) (size_array info + 8) = 80"
    using hi(5) sp(1) unfolding reports_def list by fastforce+
  ultimately have desc: "sizes_descend (bytes t) (size_array info) (num_allocs info)"
    by (simp add: sizes_descend_def upt_rec)
  have live1: "live array 80 h'"
    using b(1,3) sp(2) by (auto simp: live_def)
  obtain t1 a' z' where f1: "free array t = Some t1" "unat array = a' + 32" "(a', z', 80) \<in> set (allocs h')"
      "heap_inv lo (t1, k') (spec_free (a' + 32) h')" "set (allocs (spec_free (a' + 32) h')) = set (allocs h') - {(a', z', 80)}"
    by (rule client_free [OF hi(3) live1])
  have live2: "live array2 120 (spec_free (a' + 32) h')"
    using b(2,3) sp(2) unfolding live_def f1(5) by auto
  obtain t2 a2 where f2: "free array2 t1 = Some t2" "heap_inv lo (t2, k') (spec_free (a2 + 32) (spec_free (a' + 32) h'))"
    by (rule client_free [OF f1(4) live2])
  show ?thesis
    using that [OF _ desc f1(1) f2 sp(3)] hi(1) sp(1) by simp
qed

section \<open>Allocating until memory is used up\<close>

text \<open>One step: either there is one more block, or nothing has changed and there is no memory left.\<close>

lemma allocate_page_step:
  assumes inv: "heap_inv lo (s, k) h"
  obtains more time n' t k' h' where "allocate_page tsc p ((tm, pages, n), s, k) = ret (more, (time, (if more then pages + 1 else pages), n'), t, k')"
    and "heap_inv lo (t, k') h'"
    and "if more then card (set (allocs h')) = card (set (allocs h)) + 1 else exhausted 4096 h' (the_break k') \<and> exhausted 4096 h (the_break k)"
proof -
  have P: "unat PAGESIZE = 4096"
    by (simp add: PAGESIZE_def)
  obtain r t k' h' where m: "malloc sys_sbrk PAGESIZE (s, k) = ret (r, t, k')" "heap_inv lo (t, k') h'"
    "if r = 0 then h' = h \<and> the_break k' = the_break k \<and> exhausted 4096 h (the_break k) else allocated r 4096 h h'"
    by (rule client_malloc [OF inv, of PAGESIZE, unfolded P]) simp_all
  show ?thesis
  proof (cases "r = 0")
    case True
    then show ?thesis
      using m that [of False _ _ t k' h'] by (simp add: allocate_page_def)
  next
    case False
    then have al: "allocated r 4096 h h'"
      using m(3) by simp
    have "heap_inv lo (t\<lparr>bytes := store32 (bytes t) r p\<rparr>, k') h'"
      by (rule client_write [OF m(2) allocated_live [OF al]]) (simp add: store32_other)
    moreover have "card (set (allocs h')) = card (set (allocs h)) + 1"
      using al by (auto simp: allocated_def)
    ultimately show ?thesis
      using m(1) False that [of True] by (simp add: allocate_page_def)
  qed
qed

lemma allocate_pages_returns:
  assumes "heap_inv lo (s, k) h"
  shows "\<exists>c t k' h'. allocate_pages tsc p i ((tm, pages, n), s, k) = ret (c, t, k') \<and> heap_inv lo (t, k') h'"
  using assms
proof (induction i arbitrary: tm pages n s k h)
  case (Suc i)
  obtain more time n' t k' h' where st: "allocate_page tsc p ((tm, pages, n), s, k) = ret (more, (time, (if more then pages + 1 else pages), n'), t, k')"
    "heap_inv lo (t, k') h'"
    by (rule allocate_page_step [OF Suc.prems])
  then show ?case
    using Suc.IH [OF st(2), of time "pages + 1" n'] by (cases more) auto
qed auto

lemma block_count:
  assumes "heap_inv lo (s, k) h"
  shows "card (set (allocs h)) < BREAK_LIMIT"
  using allocs_count [OF heap_invD(2) [OF assms]] heap_invD(7) [OF assms] card_length [of "allocs h"] by linarith

lemma allocate_all_ends:
  assumes "heap_inv lo (s, k) h"
  shows "\<exists>j time n' t k' h'. allocate_all tsc p ((tm, pages, n), s, k) = ret ((time, pages + of_nat j, n'), t, k') \<and> heap_inv lo (t, k') h' \<and>
    exhausted 4096 h' (the_break k') \<and> j + card (set (allocs h)) < BREAK_LIMIT \<and> (j = 0 \<longrightarrow> exhausted 4096 h (the_break k))"
  using assms
proof (induction "BREAK_LIMIT - card (set (allocs h))" arbitrary: tm pages n s k h rule: less_induct)
  case less
  obtain more time n' t k' h' where st: "allocate_page tsc p ((tm, pages, n), s, k) = ret (more, (time, (if more then pages + 1 else pages), n'), t, k')"
    "heap_inv lo (t, k') h'"
    "if more then card (set (allocs h')) = card (set (allocs h)) + 1 else exhausted 4096 h' (the_break k') \<and> exhausted 4096 h (the_break k)"
    by (rule allocate_page_step [OF less.prems])
  show ?case
  proof (cases more)
    case True
    then have c: "card (set (allocs h')) = card (set (allocs h)) + 1"
      using st(3) by simp
    have "BREAK_LIMIT - card (set (allocs h')) < BREAK_LIMIT - card (set (allocs h))"
      using c block_count [OF st(2)] by simp
    from less.hyps [OF this st(2), of time "pages + 1" n'] obtain j time' n'' t' k'' h'' where
      "allocate_all tsc p ((time, pages + 1, n'), t, k') = ret ((time', pages + 1 + of_nat j, n''), t', k'')" "heap_inv lo (t', k'') h''"
      "exhausted 4096 h'' (the_break k'')" "j + card (set (allocs h')) < BREAK_LIMIT"
      by blast
    then show ?thesis
      using st(1) True c by (subst allocate_all.simps) (auto intro!: exI [of _ "Suc j"] simp: algebra_simps)
  next
    case False
    then show ?thesis
      using st block_count [OF less.prems] by (subst allocate_all.simps) (auto intro!: exI [of _ 0])
  qed
qed

section \<open>The programs succeed\<close>

lemma app_printf_returns:
  assumes "format_ok f args" and "length (snd screen) = CONSOLE_CELLS"
  shows "\<exists>screen'. app_printf colorid f args screen = ret screen' \<and> length (snd screen') = CONSOLE_CELLS"
  using console_printf_returns [OF assms, of "fst screen" "app_color colorid"]
  by (auto simp: app_printf_def console_printf_def case_prod_unfold)

text \<open>The part that both programs share, up to the loop that allocates pages.\<close>

lemma arrays_tested:
  assumes inv: "heap_inv lo (s, k) h" "allocs h = []" and room: "the_break k + 81920 < BREAK_LIMIT"
  obtains array array2 st1 st2 info t k' t1 t2 h' where "resize_array checked (s, k) = ret (array, st1)" and "zeroed_array st1 = ret (array2, st2)"
    and "heap_info sys_sbrk info0 st2 = ret (0, info, t, k')" and "sizes_descend (bytes t) (size_array info) (num_allocs info)"
    and "free array t = Some t1" and "free array2 t1 = Some t2" and "heap_inv lo (t2, k') h'" and "the_break k' \<le> the_break k + 81920"
proof -
  have "the_break k + 32768 < BREAK_LIMIT"
    using room by simp
  from resize_array_works [OF inv(1) this, of checked] obtain array s1 k1 h1 where
    a: "resize_array checked (s, k) = ret (array, s1, k1)" "heap_inv lo (s1, k1) h1" "allocated array 80 h h1" "the_break k1 \<le> the_break k + 32768" .
  then have "the_break k1 + 16384 < BREAK_LIMIT"
    using room by simp
  from zeroed_array_works [OF a(2) this] obtain array2 s2 k2 h2 where
    b: "zeroed_array (s1, k1) = ret (array2, s2, k2)" "heap_inv lo (s2, k2) h2" "allocated array2 120 h1 h2" "the_break k2 \<le> the_break k1 + 16384" .
  then have "the_break k2 + 32768 < BREAK_LIMIT"
    using room a(4) by simp
  from report_and_free [OF b(2) this inv(2) a(3) b(3), of info0] obtain info t k' t1 t2 h' where
    c: "heap_info sys_sbrk info0 (s2, k2) = ret (0, info, t, k')" "sizes_descend (bytes t) (size_array info) (num_allocs info)"
      "free array t = Some t1" "free array2 t1 = Some t2" "heap_inv lo (t2, k') h'" "the_break k' \<le> the_break k2 + 32768" .
  show ?thesis
    using that [OF a(1) b(1) c(1-5)] a(4) b(4) c(6) by simp
qed

text \<open>C11. The test program passes: with an empty heap and room for five chunks below the limit, no assertion of
  \<^verbatim>\<open>p-test.c\<close> fails and no null pointer is used, whatever the contents of memory and the clock, so \<open>TEST_PASS\<close> is reached; the heap is
  well formed at the end.\<close>

theorem p_test_passes:
  assumes "heap_inv lo (s, k) h" and "allocs h = []" and "the_break k + 81920 < BREAK_LIMIT"
  shows "\<exists>t k' h'. p_test tsc p info0 (s, k) = ret (t, k') \<and> heap_inv lo (t, k') h'"
proof -
  obtain array array2 st1 st2 info t k' t1 t2 h' where r: "resize_array True (s, k) = ret (array, st1)" "zeroed_array st1 = ret (array2, st2)"
    "heap_info sys_sbrk info0 st2 = ret (0, info, t, k')" "sizes_descend (bytes t) (size_array info) (num_allocs info)"
    "free array t = Some t1" "free array2 t1 = Some t2" "heap_inv lo (t2, k') h'"
    by (rule arrays_tested [OF assms])
  obtain c t3 k3 h3 where "allocate_pages tsc p 256 ((0, 0, 0), t2, k') = ret (c, t3, k3)" "heap_inv lo (t3, k3) h3"
    using allocate_pages_returns [OF r(7)] by blast
  then show ?thesis
    using r(1-6) by (auto simp: p_test_def)
qed

text \<open>C12. The stress test ends its allocation loop: with an empty heap and room for six chunks, \<^verbatim>\<open>p-alloctests.c\<close> passes its
  assertions, allocates pages until there is no memory left (no free block holds a page and the break cannot grow), does
  not divide by zero, and prints its result within the console.\<close>

theorem p_alloctests_ends:
  assumes "heap_inv lo (s, k) h" and "allocs h = []" and "the_break k + 98304 < BREAK_LIMIT" and "length (snd screen) = CONSOLE_CELLS"
  shows "\<exists>screen' t k' h'. p_alloctests tsc p info0 screen (s, k) = ret (screen', t, k') \<and> heap_inv lo (t, k') h' \<and>
    exhausted 4096 h' (the_break k') \<and> length (snd screen') = CONSOLE_CELLS"
proof -
  have room: "the_break k + 81920 < BREAK_LIMIT"
    using assms(3) by simp
  obtain array array2 st1 st2 info t k' t1 t2 h' where r: "resize_array False (s, k) = ret (array, st1)" "zeroed_array st1 = ret (array2, st2)"
    "heap_info sys_sbrk info0 st2 = ret (0, info, t, k')" "sizes_descend (bytes t) (size_array info) (num_allocs info)"
    "free array t = Some t1" "free array2 t1 = Some t2" "heap_inv lo (t2, k') h'" "the_break k' \<le> the_break k + 81920"
    by (rule arrays_tested [OF assms(1,2) room])
  have "\<not> exhausted 4096 h' (the_break k')"
    using r(8) assms(3) by (simp add: exhausted_def)
  then obtain j time n' t3 k3 h3 where j: "allocate_all tsc p ((0, 0, 0), t2, k') = ret ((time, of_nat j, n'), t3, k3)" "heap_inv lo (t3, k3) h3"
    "exhausted 4096 h3 (the_break k3)" "j < BREAK_LIMIT" "0 < j"
    using allocate_all_ends [OF r(7), of tsc p 0 0 0] by auto
  have "unat (of_nat j :: u32) = j"
    by (rule of_nat_inverse [OF refl]) (use j(4) in \<open>simp add: BREAK_LIMIT_def\<close>)
  then have "(of_nat j :: u32) \<noteq> 0"
    using j(5) by auto
  moreover obtain screen' where "app_printf p str_total_time [Va_word time, Va_word (time div scast (of_nat j :: u32))] screen = ret screen'"
    "length (snd screen') = CONSOLE_CELLS"
    using app_printf_returns [OF _ assms(4), of str_total_time "[Va_word time, Va_word (time div scast (of_nat j :: u32))]" p]
    by (auto simp: str_total_time_def)
  ultimately show ?thesis
    using r(1-6) j(1-3) by (auto simp: p_alloctests_def)
qed

lemma grow_heap_ends:
  assumes "current_ok k" and "heap_top = of_nat (the_break k)"
  shows "\<exists>n m' k'. grow_heap p stack_bottom heap_top (m, k) = ret (heap_top + of_nat (4096 * n), m', k') \<and> current_ok k' \<and>
    the_break k' = the_break k + 4096 * n \<and> (unat stack_bottom \<le> the_break k' + 4096 \<or> BREAK_LIMIT \<le> the_break k' + 4096) \<and>
    (\<forall>x. m' x = (if \<exists>i<n. x = heap_top + of_nat (4096 * i) then ucast p else m x))"
  using assms
proof (induction "BREAK_LIMIT - the_break k" arbitrary: k heap_top m rule: less_induct)
  case less
  have P: "unat PAGESIZE = 4096" "PAGESIZE = of_nat 4096"
    by (simp_all add: PAGESIZE_def)
  note ok = less.prems(1)
  have b: "unat heap_top = the_break k" "the_break k < BREAK_LIMIT"
    using kernel.break_word [OF ok] kernel.break_below [OF ok] less.prems(2) by simp_all
  then have top: "unat (heap_top + PAGESIZE) = the_break k + 4096"
    by (simp add: unat_word_ariths P BREAK_LIMIT_def)
  consider "unat stack_bottom \<le> the_break k + 4096" | "the_break k + 4096 < unat stack_bottom" "BREAK_LIMIT \<le> the_break k + 4096"
    | "the_break k + 4096 < unat stack_bottom" "the_break k + 4096 < BREAK_LIMIT"
    by linarith
  then show ?case
  proof cases
    case 1
    then have "grow_heap p stack_bottom heap_top (m, k) = ret (heap_top, m, k)"
      using top by (subst grow_heap.simps) (simp add: word_less_nat_alt)
    then show ?thesis
      using 1 ok by (intro exI [of _ 0]) simp
  next
    case 2
    then have "grow_heap p stack_bottom heap_top (m, k) = ret (heap_top, m, k)"
      using top kernel.grow_failure [OF ok, of PAGESIZE] by (subst grow_heap.simps) (simp add: word_less_nat_alt P)
    then show ?thesis
      using 2 ok by (intro exI [of _ 0]) simp
  next
    case 3
    obtain k1 where k1: "sys_sbrk k PAGESIZE = ret (heap_top, k1)" "current_ok k1" "the_break k1 = the_break k + 4096"
      using kernel.grow_success [OF ok, of PAGESIZE] 3(2) less.prems(2) by (auto simp: P)
    have nt: "heap_top + PAGESIZE = of_nat (the_break k1)"
      using less.prems(2) k1(3) P(2) by simp
    let ?m = "m(heap_top := ucast p)"
    have "BREAK_LIMIT - the_break k1 < BREAK_LIMIT - the_break k"
      using k1(3) b(2) by simp
    from less.hyps [OF this k1(2) nt, of ?m] obtain n m' k' where n: "grow_heap p stack_bottom (heap_top + PAGESIZE) (?m, k1) = ret (heap_top + PAGESIZE + of_nat (4096 * n), m', k')"
        "current_ok k'" "the_break k' = the_break k1 + 4096 * n" "unat stack_bottom \<le> the_break k' + 4096 \<or> BREAK_LIMIT \<le> the_break k' + 4096"
      and m': "\<And>x. m' x = (if \<exists>i<n. x = heap_top + PAGESIZE + of_nat (4096 * i) then ucast p else ?m x)"
      by blast
    have next_page: "heap_top + PAGESIZE + of_nat (4096 * i) = heap_top + of_nat (4096 * Suc i)" for i
      by (simp add: P(2))
    have run: "grow_heap p stack_bottom heap_top (m, k) = ret (heap_top + of_nat (4096 * Suc n), m', k')"
      using 3(1) top k1(1) n(1) kernel.break_not_error [OF ok] less.prems(2) unfolding next_page
      by (subst grow_heap.simps) (simp add: word_less_nat_alt)
    have "m' x = (if \<exists>i<Suc n. x = heap_top + of_nat (4096 * i) then ucast p else m x)" for x
      unfolding m' next_page by (auto simp: less_Suc_eq_0_disj)
    then show ?thesis
      using run n(2-4) k1(3) by (intro exI [of _ "Suc n"] exI [of _ m'] exI [of _ k']) simp
  qed
qed

text \<open>\<^verbatim>\<open>p-allocator.c\<close> takes all the memory it may have: when the program break is where the program expects its heap, the loop ends
  because the heap has reached the page below the stack or the limit of the kernel; exactly the first byte of every new page has been written, so
  every write was between the old and the new break.\<close>

theorem p_allocator_fills:
  assumes "current_ok k" and "unat end_addr + 4096 < 2 ^ 64" and "the_break k = round_up_nat (unat end_addr) 4096"
  shows "\<exists>n m' k' top. p_allocator p end_addr rsp (m, k) = ret (top, m', k') \<and> current_ok k' \<and> the_break k' = the_break k + 4096 * n \<and>
    unat top = the_break k' \<and>
    (unat (ROUNDDOWN (rsp - 1) PAGESIZE) \<le> the_break k' + 4096 \<or> BREAK_LIMIT \<le> the_break k' + 4096) \<and>
    (\<forall>x. m' x = (if the_break k \<le> unat x \<and> unat x < the_break k' \<and> unat x mod 4096 = 0 then ucast p else m x))"
proof -
  have "unat (ROUNDUP end_addr PAGESIZE) = the_break k"
    using unat_ROUNDUP [of PAGESIZE end_addr] assms(2,3) by (simp add: PAGESIZE_def)
  then have top: "ROUNDUP end_addr PAGESIZE = of_nat (the_break k)"
    by (metis of_nat_unat ucast_id)
  obtain n m' k' where n: "grow_heap p (ROUNDDOWN (rsp - 1) PAGESIZE) (of_nat (the_break k)) (m, k) = ret (of_nat (the_break k) + of_nat (4096 * n), m', k')"
      "current_ok k'" "the_break k' = the_break k + 4096 * n"
      "unat (ROUNDDOWN (rsp - 1) PAGESIZE) \<le> the_break k' + 4096 \<or> BREAK_LIMIT \<le> the_break k' + 4096"
    and m': "\<And>x. m' x = (if \<exists>i<n. x = of_nat (the_break k) + of_nat (4096 * i) then ucast p else m x)"
    using grow_heap_ends [OF assms(1) refl, of p "ROUNDDOWN (rsp - 1) PAGESIZE" m] by blast
  have lim: "the_break k' < BREAK_LIMIT"
    by (rule kernel.break_below [OF n(2)])
  have u: "unat (of_nat (the_break k) + of_nat (4096 * i) :: u64) = the_break k + 4096 * i" if "i \<le> n" for i
  proof -
    have "unat (of_nat (the_break k + 4096 * i) :: u64) = the_break k + 4096 * i"
      by (rule of_nat_inverse [OF refl]) (use that lim n(3) in \<open>simp add: BREAK_LIMIT_def\<close>)
    then show ?thesis
      by simp
  qed
  obtain q where q: "the_break k = 4096 * q"
    using assms(3) dvd_round_up_nat [of 4096 "unat end_addr"] by (auto simp: dvd_def)
  have "(\<exists>i<n. x = of_nat (the_break k) + of_nat (4096 * i)) \<longleftrightarrow> the_break k \<le> unat x \<and> unat x < the_break k' \<and> unat x mod 4096 = 0" for x :: u64
  proof
    assume "the_break k \<le> unat x \<and> unat x < the_break k' \<and> unat x mod 4096 = 0"
    then obtain j where "unat x = 4096 * j" "q \<le> j" "j < q + n"
      using n(3) q by (auto simp: dvd_def mod_eq_0_iff_dvd)
    then have "unat x = the_break k + 4096 * (j - q)" "j - q < n"
      using q by (auto simp: right_diff_distrib')
    then show "\<exists>i<n. x = of_nat (the_break k) + of_nat (4096 * i)"
      using u [of "j - q"] by (intro exI [of _ "j - q"]) (simp add: word_unat_eq_iff)
  qed (use u n(3) q in auto)
  then have "\<forall>x. m' x = (if the_break k \<le> unat x \<and> unat x < the_break k' \<and> unat x mod 4096 = 0 then ucast p else m x)"
    using m' by presburger
  moreover have "unat (of_nat (the_break k) + of_nat (4096 * n) :: u64) = the_break k'"
    using u [of n] n(3) by simp
  ultimately show ?thesis
    using n unfolding p_allocator_def top by blast
qed

text \<open>What other processes leave of a process while it does not run: its program break.\<close>

definition process_kept :: "(kstate \<Rightarrow> kstate) \<Rightarrow> bool" where
  "process_kept meanwhile \<longleftrightarrow> (\<forall>k. current_ok k \<longrightarrow> current_ok (meanwhile k) \<and> the_break (meanwhile k) = the_break k)"

lemma p_malloc_step_returns:
  assumes inv: "heap_inv lo (s, k) h" and kept: "process_kept meanwhile"
  shows "\<exists>more seed' t k' h'. p_malloc_step p meanwhile (seed, s, k) = ret (more, seed', t, k') \<and> heap_inv lo (t, k') h' \<and>
    (\<not> more \<longrightarrow> exhausted 4096 h' (the_break k'))"
proof -
  have resumed: "heap_inv lo (u, meanwhile k') g" if "heap_inv lo (u, k') g" for u k' g
    using that kept by (auto simp: heap_inv_def process_kept_def)
  have P: "unat PAGESIZE = 4096"
    by (simp add: PAGESIZE_def)
  obtain r seed1 where r: "rand seed = (r, seed1)"
    by (cases "rand seed")
  show ?thesis
  proof (cases "sint r mod 100 < sint p")
    case True
    obtain ptr t k1 h1 where m: "malloc sys_sbrk PAGESIZE (s, k) = ret (ptr, t, k1)" "heap_inv lo (t, k1) h1"
      "if ptr = 0 then h1 = h \<and> the_break k1 = the_break k \<and> exhausted 4096 h (the_break k) else allocated ptr 4096 h h1"
      by (rule client_malloc [OF inv, of PAGESIZE, unfolded P]) simp_all
    show ?thesis
    proof (cases "ptr = 0")
      case False
      then have "live ptr 4096 h1"
        using m(3) allocated_live by simp
      then have "heap_inv lo (t\<lparr>bytes := store32 (bytes t) ptr p\<rparr>, k1) h1"
        by (rule client_write [OF m(2)]) (simp add: store32_other)
      then show ?thesis
        using True False m(1) r resumed by (simp add: p_malloc_step_def) blast
    qed (use True m r in \<open>auto simp: p_malloc_step_def\<close>)
  next
    case False
    then show ?thesis
      using r resumed [OF inv] by (simp add: p_malloc_step_def) blast
  qed
qed

text \<open>\<^verbatim>\<open>p-malloc.c\<close> never faults, for any number of iterations and any random numbers, and leaves its loop only when there is no memory left for a page.\<close>

theorem p_malloc_runs:
  assumes "heap_inv lo (s, k) h" and "process_kept meanwhile"
  shows "\<exists>more seed' t k' h'. p_malloc p meanwhile n (seed, s, k) = ret (more, seed', t, k') \<and> heap_inv lo (t, k') h' \<and>
    (\<not> more \<longrightarrow> exhausted 4096 h' (the_break k'))"
proof (induction n)
  case (Suc n)
  then obtain more seed1 t k1 h1 where IH: "p_malloc p meanwhile n (seed, s, k) = ret (more, seed1, t, k1)" "heap_inv lo (t, k1) h1"
    "\<not> more \<longrightarrow> exhausted 4096 h1 (the_break k1)"
    by blast
  show ?case
    using IH p_malloc_step_returns [OF IH(2) assms(2), of p seed1] by (cases more) auto
qed (use assms(1) in auto)

section \<open>Runs from an empty heap\<close>

definition no_info :: heap_info_struct where
  "no_info = \<lparr>num_allocs = 0, size_array = 0, ptr_array = 0, free_space = 0, largest_free_chunk = 0\<rparr>"

lemma early_break: "the_break (kernel_with_break 0x200000) = 0x200000" "current_ok (kernel_with_break 0x200000)"
  using empty_heap_inv by (simp_all add: heap_inv_def the_break_def kernel_with_break_def the_proc_def proc_with_break_def)

theorem p_test_passes_witness:
  "\<exists>t k' h'. p_test (\<lambda>n. of_nat n) 1 no_info (empty_heap, kernel_with_break 0x200000) = ret (t, k') \<and> heap_inv 0x200000 (t, k') h'"
  using p_test_passes [OF empty_heap_inv] by (simp add: early_break BREAK_LIMIT_def)

theorem p_alloctests_ends_witness:
  "\<exists>screen' t k' h'. p_alloctests (\<lambda>n. of_nat n) 1 no_info (0, replicate 2000 0) (empty_heap, kernel_with_break 0x200000) = ret (screen', t, k') \<and>
     heap_inv 0x200000 (t, k') h' \<and> exhausted 4096 h' (the_break k') \<and> length (snd screen') = CONSOLE_CELLS"
  by (rule p_alloctests_ends [OF empty_heap_inv]) (simp_all add: early_break BREAK_LIMIT_def CONSOLE_CELLS_def)

theorem p_allocator_fills_witness:
  "\<exists>m' k' top. p_allocator 7 0x1FF800 0x300000 (\<lambda>_. 0, kernel_with_break 0x200000) = ret (top, m', k') \<and>
     BREAK_LIMIT \<le> the_break k' + 4096 \<and> m' 0x200000 = 7 \<and> m' 0x200001 = 0"
proof -
  let ?k = "kernel_with_break 0x200000"
  have "ROUNDDOWN (0x300000 - 1) PAGESIZE = 0x2FF000"
    by (simp add: word_unat_eq_iff unat_ROUNDDOWN PAGESIZE_def)
  moreover have "the_break ?k = round_up_nat (unat (0x1FF800 :: u64)) 4096"
    by (simp add: early_break round_up_nat_def)
  ultimately obtain n m' k' top where r: "p_allocator 7 0x1FF800 0x300000 (\<lambda>_. 0, ?k) = ret (top, m', k')"
      "0x2FF000 \<le> the_break k' + 4096 \<or> BREAK_LIMIT \<le> the_break k' + 4096"
    and m': "\<And>x. m' x = (if the_break ?k \<le> unat x \<and> unat x < the_break k' \<and> unat x mod 4096 = 0 then ucast (7 :: u32) else 0)"
    using p_allocator_fills [OF early_break(2), of "0x1FF800" 7 "0x300000" "\<lambda>_. 0"] by auto
  then have "BREAK_LIMIT \<le> the_break k' + 4096"
    by (auto simp: BREAK_LIMIT_def)
  then show ?thesis
    using r(1) m' [of "0x200000"] m' [of "0x200001"] by (auto simp: early_break BREAK_LIMIT_def)
qed

theorem p_malloc_runs_witness:
  "\<exists>more seed' t k' h'. p_malloc 1 (\<lambda>k. k) 1000 (\<lparr>rand_seed_set = False, rand_seed = 0\<rparr>, empty_heap, kernel_with_break 0x200000)
     = ret (more, seed', t, k') \<and> heap_inv 0x200000 (t, k') h'"
proof -
  have "process_kept (\<lambda>k. k)"
    by (simp add: process_kept_def)
  from p_malloc_runs [OF empty_heap_inv this] show ?thesis
    by blast
qed

end
