(* ===== verification/Emulator_Helper.thy ===== *)
theory Emulator_Helper
  imports Trap_Entry
begin

text \<open>
  The library \<^verbatim>\<open>build/qemu-nograb.c\<close>, which is preloaded into the emulator. It replaces \<open>malloc\<close> and \<open>calloc\<close> of the
  emulator in order to find the descriptor of the emulated mouse among the blocks the emulator allocates (a block of the size of
  the descriptor, followed by one of the size of the name of the mouse) and to set its field
  \<open>qemu_put_mouse_event_absolute\<close>. The allocator of the host is a parameter.
\<close>

section \<open>State\<close>

text \<open>The allocator of the host: \<open>malloc\<close> and \<open>calloc\<close> as \<open>dlsym\<close> finds them, and \<open>__libc_calloc\<close>; the calls may
  change memory.\<close>

record host_allocator =
  host_malloc :: "u64 \<Rightarrow> mem \<Rightarrow> u64 \<times> mem"
  host_calloc :: "u64 \<Rightarrow> u64 \<Rightarrow> mem \<Rightarrow> u64 \<times> mem"
  libc_calloc :: "u64 \<Rightarrow> u64 \<Rightarrow> mem \<Rightarrow> u64 \<times> mem"

text \<open>\<open>resolved\<close> says that the pointers \<open>next_malloc\<close> and \<open>next_calloc\<close> are set.\<close>

record nograb =
  resolved :: bool
  test_mode :: u32
  test_event :: u64
  test_name :: u64
  image :: mem

text \<open>Offsets of the fields of \<open>fake_qemu_put_mouse_event\<close>, and its size.\<close>

definition EVENT_ABSOLUTE :: u64 where "EVENT_ABSOLUTE = 16"
definition EVENT_NAME :: u64 where "EVENT_NAME = 24"
definition EVENT_SIZE :: u64 where "EVENT_SIZE = 56"

text \<open>\<open>QEMU PS/2 Mouse\<close>, with the terminating zero.\<close>

definition mouse_string :: "u8 list" where
  "mouse_string = [81, 69, 77, 85, 32, 80, 83, 47, 50, 32, 77, 111, 117, 115, 101, 0]"

definition MOUSE_STRING_SIZE :: u64 where
  "MOUSE_STRING_SIZE = of_nat (length mouse_string)"

section \<open>Functions\<close>

definition SDL_GetAppState :: u32 where "SDL_GetAppState = 0"
definition SDL_GetWindowFlags :: u32 where "SDL_GetWindowFlags = 0"

text \<open>\<open>memcmp\<close> of a block with a list of bytes is 0.\<close>

definition memcmp_equal :: "mem \<Rightarrow> u64 \<Rightarrow> u8 list \<Rightarrow> bool" where
  "memcmp_equal m p cs = list_all (\<lambda>i. m (p + of_nat i) = cs ! i) [0..<length cs]"

definition check :: "nograb \<Rightarrow> nograb" where
  "check s =
     (if test_mode s = 2 \<and> test_event s \<noteq> 0 \<and>
         load64 (image s) (test_event s + EVENT_NAME) = test_name s \<and>
         memcmp_equal (image s) (test_name s) mouse_string \<and>
         load32 (image s) (test_event s + EVENT_ABSOLUTE) = 0
      then s\<lparr>image := store32 (image s) (test_event s + EVENT_ABSOLUTE) 1, test_mode := - 1\<rparr>
      else s)"

definition track :: "u64 \<Rightarrow> u64 \<Rightarrow> u64 \<Rightarrow> nograb \<Rightarrow> nograb" where
  "track nmemb sz ptr s =
     (if test_mode s = 1 \<and> sz = MOUSE_STRING_SIZE \<and> nmemb = 1 then s\<lparr>test_name := ptr, test_mode := 2\<rparr>
      else if sz = EVENT_SIZE \<and> nmemb = 1 then s\<lparr>test_event := ptr, test_mode := 1\<rparr>
      else s\<lparr>test_mode := 0\<rparr>)"

definition hooked_malloc :: "host_allocator \<Rightarrow> u64 \<Rightarrow> nograb \<Rightarrow> u64 \<times> nograb" where
  "hooked_malloc h sz s0 =
     (let s1 = s0\<lparr>resolved := True\<rparr>;
          s2 = (if test_mode s1 = 2 then check s1 else s1);
          (ptr, m) = host_malloc h sz (image s2);
          s3 = s2\<lparr>image := m\<rparr>
      in (ptr, if sint (test_mode s3) \<ge> 0 then track 1 sz ptr s3 else s3))"

text \<open>\<open>calloc\<close> tracks every block as a single element, whatever \<open>nmemb\<close> is.\<close>

definition hooked_calloc :: "host_allocator \<Rightarrow> u64 \<Rightarrow> u64 \<Rightarrow> nograb \<Rightarrow> u64 \<times> nograb" where
  "hooked_calloc h nmemb sz s0 =
     (if \<not> resolved s0 then (case libc_calloc h nmemb sz (image s0) of (ptr, m) \<Rightarrow> (ptr, s0\<lparr>image := m\<rparr>))
      else let s2 = (if test_mode s0 = 2 then check s0 else s0);
               (ptr, m) = host_calloc h nmemb sz (image s2);
               s3 = s2\<lparr>image := m\<rparr>
           in (ptr, if sint (test_mode s3) \<ge> 0 then track 1 sz ptr s3 else s3))"

section \<open>Runs of the emulator\<close>

text \<open>The emulator between two allocations may write to its memory; the variables of the library are its own.\<close>

inductive emulated :: "host_allocator \<Rightarrow> nograb \<Rightarrow> nograb \<Rightarrow> bool" for h where
  start: "emulated h s s"
| computes: "emulated h s s1 \<Longrightarrow> emulated h s (s1\<lparr>image := m\<rparr>)"
| mallocs: "emulated h s s1 \<Longrightarrow> hooked_malloc h sz s1 = (ptr, s2) \<Longrightarrow> emulated h s s2"
| callocs: "emulated h s s1 \<Longrightarrow> hooked_calloc h nmemb sz s1 = (ptr, s2) \<Longrightarrow> emulated h s s2"

definition initial :: "mem \<Rightarrow> nograb" where
  "initial m = \<lparr>resolved = False, test_mode = 0, test_event = 0, test_name = 0, image = m\<rparr>"

lemma check_unless_two: "test_mode s \<noteq> 2 \<Longrightarrow> check s = s"
  by (simp add: check_def)

lemma hooked_malloc_off:
  assumes "test_mode s = - 1"
  shows "hooked_malloc h sz s = (fst (host_malloc h sz (image s)), s\<lparr>resolved := True, image := snd (host_malloc h sz (image s))\<rparr>)"
  using assms by (simp add: hooked_malloc_def Let_def split: prod.splits)

lemma hooked_calloc_off:
  assumes "test_mode s = - 1"
  shows "hooked_calloc h n sz s =
    (let r = (if resolved s then host_calloc h n sz (image s) else libc_calloc h n sz (image s)) in (fst r, s\<lparr>image := snd r\<rparr>))"
  using assms by (simp add: hooked_calloc_def Let_def split: prod.splits)

text \<open>The modes of the search, in every run.\<close>

lemma modes:
  assumes "emulated h s s'" and "test_mode s \<in> {0, 1, 2, - 1}"
  shows "test_mode s' \<in> {0, 1, 2, - 1}"
  using assms
proof (induction rule: emulated.induct)
  case (mallocs s s1 sz ptr s2)
  then show ?case
    by (auto simp: hooked_malloc_def Let_def check_def track_def split: prod.splits if_splits)
next
  case (callocs s s1 nmemb sz ptr s2)
  then show ?case
    by (auto simp: hooked_calloc_def Let_def check_def track_def split: prod.splits if_splits)
qed auto


lemma switched_off:
  assumes "emulated h s s'" and "test_mode s = - 1"
  shows "test_mode s' = - 1"
  using assms
proof (induction rule: emulated.induct)
  case (mallocs s s1 sz ptr s2)
  then show ?case
    using hooked_malloc_off [of s1 h sz] by auto
next
  case (callocs s s1 nmemb sz ptr s2)
  then show ?case
    using hooked_calloc_off [of s1 h nmemb sz] by (auto simp: Let_def)
qed auto

text \<open>When the emulator allocates a mouse descriptor and right after it the name of the mouse, and has filled in the name but
  not the field \<open>absolute\<close>, the next allocation sets this field and passes the memory on to the allocator of the host; from
  then on the library only passes calls on.\<close>

theorem marks_mouse:
  assumes "resolved s" and "test_mode s = 0 \<or> test_mode s = 1"
    and event: "hooked_calloc h 1 EVENT_SIZE s = (e, s1)" "e \<noteq> 0"
    and name: "hooked_malloc h MOUSE_STRING_SIZE (s1\<lparr>image := m1\<rparr>) = (n, s2)"
    and filled: "load64 m2 (e + EVENT_NAME) = n" "memcmp_equal m2 n mouse_string" "load32 m2 (e + EVENT_ABSOLUTE) = 0"
    and after: "hooked_malloc h sz (s2\<lparr>image := m2\<rparr>) = (p, s3)"
  shows "host_malloc h sz (store32 m2 (e + EVENT_ABSOLUTE) 1) = (p, image s3)"
    and "emulated h s3 s4 \<Longrightarrow> test_mode s4 = - 1"
proof -
  have s1: "test_mode s1 = 1" "test_event s1 = e"
    using assms(1,2) event(1)
    by (auto simp: hooked_calloc_def Let_def track_def EVENT_SIZE_def MOUSE_STRING_SIZE_def mouse_string_def split: prod.splits)
  then have s2: "test_mode s2 = 2" "test_event s2 = e" "test_name s2 = n"
    using name by (auto simp: hooked_malloc_def Let_def track_def split: prod.splits)
  have "check (s2\<lparr>image := m2, resolved := True\<rparr>)
      = s2\<lparr>image := store32 m2 (e + EVENT_ABSOLUTE) 1, test_mode := - 1, resolved := True\<rparr>"
    using s2 filled event(2) by (simp add: check_def)
  then have s3: "host_malloc h sz (store32 m2 (e + EVENT_ABSOLUTE) 1) = (p, image s3)" "test_mode s3 = - 1"
    using after s2(1) by (auto simp: hooked_malloc_def Let_def split: prod.splits)
  then show "host_malloc h sz (store32 m2 (e + EVENT_ABSOLUTE) 1) = (p, image s3)"
    by blast
  show "emulated h s3 s4 \<Longrightarrow> test_mode s4 = - 1"
    using switched_off s3(2) by blast
qed

text \<open>Since the number of elements is dropped, an array of any number of descriptors is taken for a single one.\<close>

theorem calloc_drops_count:
  assumes "resolved s" and "test_mode s = 0" and "host_calloc h nmemb EVENT_SIZE (image s) = (e, m)"
  shows "hooked_calloc h nmemb EVENT_SIZE s = (e, s\<lparr>image := m, test_event := e, test_mode := 1\<rparr>)"
  using assms by (simp add: hooked_calloc_def Let_def track_def)

end
