(* ===== verification/Address_Translation.thy ===== *)
theory Address_Translation
  imports Keyboard
begin

text \<open>
  The walk of the processor through a page table of four levels, with large pages, and its agreement with the walk of
  \<open>virtual_memory_lookup\<close> in \<^verbatim>\<open>kernel/vm.c\<close>. The temporary page table that \<open>check_keyboard\<close> builds for a reboot
  has a large page, which only the walk of the processor understands.
\<close>

section \<open>The walk of the processor\<close>

text \<open>The physical address in an entry that maps or links to a region of \<open>2 ^ n\<close> bytes: bits \<open>n\<close> to 51. The bits above are
  flags.\<close>

definition frame_of :: "nat \<Rightarrow> u64 \<Rightarrow> u64" where
  "frame_of n e = take_bit 52 e AND NOT (mask n)"

text \<open>The translation of a virtual address, with pages of 1 GB and 2 MB; \<open>None\<close> is a page fault.\<close>

definition cpu_translate :: "mem \<Rightarrow> u64 \<Rightarrow> u64 \<Rightarrow> u64 option" where
  "cpu_translate m pt va =
     (let e1 = entry_at m pt (pageindex va 0);
          e2 = entry_at m (frame_of 12 e1) (pageindex va 1);
          e3 = entry_at m (frame_of 12 e2) (pageindex va 2);
          e4 = entry_at m (frame_of 12 e3) (pageindex va 3)
      in if e1 AND PTE_P = 0 \<or> e2 AND PTE_P = 0 then None
         else if e2 AND PTE_PS \<noteq> 0 then Some (frame_of 30 e2 OR (va AND mask 30))
         else if e3 AND PTE_P = 0 then None
         else if e3 AND PTE_PS \<noteq> 0 then Some (frame_of 21 e3 OR (va AND mask 21))
         else if e4 AND PTE_P = 0 then None
         else Some (frame_of 12 e4 OR (va AND mask 12)))"

text \<open>The present entries that the walk of \<open>virtual_memory_lookup\<close> meets, and the entries that have no flags beyond the low
  twelve bits and are no large pages, as all entries that this kernel writes to its own tables.\<close>

primrec walked :: "mem \<Rightarrow> u64 \<Rightarrow> nat list \<Rightarrow> u64 \<Rightarrow> u64 list" where
  "walked m va [] pt = []"
| "walked m va (i # is) pt =
     (let e = entry_at m pt (pageindex va i) in if e AND PTE_P = 0 then [] else e # walked m va is (PTE_ADDR e))"

definition plain_entry :: "u64 \<Rightarrow> bool" where
  "plain_entry e \<longleftrightarrow> e AND PTE_PS = 0 \<and> unat e < 2 ^ 52"

section \<open>Agreement with \<open>virtual_memory_lookup\<close>\<close>

lemma frame_of_plain: "plain_entry e \<Longrightarrow> frame_of 12 e = PTE_ADDR e"
proof -
  assume "plain_entry e"
  then have "take_bit 52 e = e"
    by (simp add: plain_entry_def take_bit_eq_mod word_unat_eq_iff unat_mod)
  then show ?thesis
    by (simp add: frame_of_def PTE_ADDR_def mask_eq_exp_minus_1)
qed

lemma masked_entry:
  "(e AND NOT (x AND (PTE_W OR PTE_U))) AND PTE_P = e AND PTE_P"
  "PTE_ADDR (e AND NOT (x AND (PTE_W OR PTE_U))) = PTE_ADDR e"
proof -
  show "(e AND NOT (x AND (PTE_W OR PTE_U))) AND PTE_P = e AND PTE_P"
    by (rule bit_word_eqI) (auto simp: bit_and_iff bit_or_iff bit_not_iff)
  show "PTE_ADDR (e AND NOT (x AND (PTE_W OR PTE_U))) = PTE_ADDR e"
    by (rule bit_word_eqI) (auto simp: bit_PTE_ADDR bit_and_iff bit_or_iff bit_not_iff)
qed

lemma page_and_offset: "PTE_ADDR e OR (va AND mask 12) = PTE_ADDR e + PAGEOFFSET va"
proof -
  have "PAGEOFFSET va = va AND mask 12"
    by (simp add: PAGEOFFSET_def mask_eq_exp_minus_1)
  moreover have "PTE_ADDR e AND (va AND mask 12) = 0"
    by (rule bit_word_eqI) (auto simp: bit_PTE_ADDR bit_and_iff bit_mask_iff)
  ultimately show ?thesis
    by (simp add: disjunctive_add_eq_or)
qed

lemma start_present: "(PTE_W OR PTE_U OR PTE_P) AND PTE_P \<noteq> 0"
  by (simp add: pte_bits)

lemma present_flags:
  assumes "e AND PTE_P \<noteq> 0"
  shows "(ucast (PTE_FLAGS e) :: u32) \<noteq> 0"
proof -
  have "bit (ucast (PTE_FLAGS e) :: u32) 0"
    using assms by (simp add: pte_bit PTE_FLAGS_def bit_and_iff bit_ucast_iff bit_fff [of 0, simplified])
  then show ?thesis
    by (metis bit_0_eq bot_apply bot_bool_def)
qed

lemma absent_stops: "x AND PTE_P = 0 \<Longrightarrow> lookup_levels m va is pt x = x"
  by (cases "is") simp_all

lemma lookup_levels_walked:
  "x AND PTE_P \<noteq> 0 \<Longrightarrow>
    (lookup_levels m va is pt x AND PTE_P \<noteq> 0 \<longleftrightarrow> length (walked m va is pt) = length is) \<and>
    (length (walked m va is pt) = length is \<longrightarrow> is \<noteq> [] \<longrightarrow>
      PTE_ADDR (lookup_levels m va is pt x) = PTE_ADDR (last (walked m va is pt)))"
proof (induction "is" arbitrary: pt x)
  case (Cons i "is")
  let ?e = "entry_at m pt (pageindex va i)"
  let ?pe = "?e AND NOT (x AND (PTE_W OR PTE_U))"
  have step: "lookup_levels m va (i # is) pt x = lookup_levels m va is (PTE_ADDR ?e) ?pe"
    using Cons.prems by (simp add: Let_def masked_entry(2) del: bit.de_Morgan_conj bit.de_Morgan_disj)
  show ?case
  proof (cases "?e AND PTE_P = 0")
    case True
    then show ?thesis
      unfolding step by (simp add: absent_stops masked_entry del: bit.de_Morgan_conj bit.de_Morgan_disj)
  next
    case False
    then have "?pe AND PTE_P \<noteq> 0"
      by (simp only: masked_entry(1) not_False_eq_True)
    from Cons.IH [OF this, of "PTE_ADDR ?e"] show ?thesis
      unfolding step using False masked_entry(2) [of ?e x]
      by (cases "is") (auto simp: Let_def split: if_splits simp del: bit.de_Morgan_conj bit.de_Morgan_disj)
  qed
qed simp


definition four_tables :: mem where
  "four_tables = set_entry 0x4000 5 0x9007 (set_entry 0x3000 0 0x4007 (set_entry 0x2000 0 0x3007
     (set_entry 0x1000 0 0x2007 (\<lambda>_. 0))))"


section \<open>The table of a reboot\<close>

lemma reboot_entries:
  assumes "unat i < 512"
  shows "entry_at (reboot_pagetable m) 0x8000 i = (if i = 0 then 0x9007 else 0)"
    and "entry_at (reboot_pagetable m) 0x9000 i = (if i = 0 then 0xA007 else 0)"
    and "entry_at (reboot_pagetable m) 0xA000 i = (if i = 0 then 0x87 else 0)"
proof -
  let ?z = "memset m 0x8000 0 (PAGESIZE * 3)"
  have z: "entry_at ?z t i = 0" if t: "page_aligned t" "0x8000 \<le> unat t" "unat t < 0xB000" for t
  proof -
    have "unat t \<le> 0xA000"
      using t(1,3) unfolding page_aligned_iff dvd_def by auto
    have "entry_at ?z t i = entry_at (\<lambda>_. 0) t i"
    proof (rule entry_at_cong [OF t(1) assms])
      fix x assume "in_page t x"
      then have "unat (x - 0x8000) < 0x3000"
        using t(2) \<open>unat t \<le> 0xA000\<close> by (auto simp: in_page_def unat_sub word_le_nat_alt)
      then show "?z x = 0"
        by (simp add: memset_filled filled_def PAGESIZE_def word_less_nat_alt)
    qed
    then show ?thesis
      by (simp add: entry_at_def load64_def)
  qed
  have al: "page_aligned 0x8000" "page_aligned 0x9000" "page_aligned 0xA000"
    by (simp_all add: page_aligned_iff)
  show "entry_at (reboot_pagetable m) 0x8000 i = (if i = 0 then 0x9007 else 0)"
    "entry_at (reboot_pagetable m) 0x9000 i = (if i = 0 then 0xA007 else 0)"
    "entry_at (reboot_pagetable m) 0xA000 i = (if i = 0 then 0x87 else 0)"
    unfolding reboot_pagetable_def
    by (auto simp: entry_at_set_entry al assms z PTE_P_def PTE_W_def PTE_U_def PTE_PS_def)
qed

theorem reboot_pagetable_translates:
  assumes "unat va < 2 ^ 47"
  shows "cpu_translate (reboot_pagetable m) 0x8000 va = (if unat va < 0x200000 then Some va else None)"
proof -
  have ix: "unat (pageindex va k) < 512" for k
    by (simp add: unat_pageindex)
  have zero: "pageindex va 0 = 0 \<longleftrightarrow> unat va < 2 ^ 39"
    "pageindex va 0 = 0 \<Longrightarrow> pageindex va 1 = 0 \<longleftrightarrow> unat va < 2 ^ 30"
    "pageindex va 1 = 0 \<Longrightarrow> unat va < 2 ^ 39 \<Longrightarrow> pageindex va 2 = 0 \<longleftrightarrow> unat va < 2 ^ 21"
    using assms by (auto simp: word_unat_eq_iff unat_pageindex)
  have frames: "frame_of 12 0x9007 = 0x9000" "frame_of 12 0xA007 = 0xA000" "frame_of 21 0x87 = 0"
    by (simp_all add: frame_of_def mask_eq_exp_minus_1)
  have low: "va AND mask 21 = va" if "unat va < 2 ^ 21"
    using that by (simp add: take_bit_eq_mask [symmetric] take_bit_eq_mod word_unat_eq_iff unat_mod)
  show ?thesis
  proof (cases "unat va < 2 ^ 39")
    case False
    then show ?thesis
      by (simp add: cpu_translate_def Let_def reboot_entries ix zero PTE_P_def)
  next
    case True
    then show ?thesis
      using zero low
      by (simp add: cpu_translate_def Let_def reboot_entries ix PTE_P_def PTE_PS_def frames)
  qed
qed

end
