(* ===== verification/Start_Up.thy ===== *)
theory Start_Up
  imports Trap_Entry Address_Translation
begin

text \<open>
  The start of the machine (\<^verbatim>\<open>kernel/bootstart.S\<close>): the address line A20, the initial page table and the switch to
  64-bit mode, up to the jump to \<open>boot\<close> of \<^verbatim>\<open>kernel/boot.c\<close>. The page table it builds is the one of a soft reboot.
\<close>

section \<open>State\<close>

text \<open>The registers of the processor that the code sets, its port accesses and memory. \<open>kb_polls\<close> counts the reads of the
  status of the keyboard controller, whose answers are a parameter.\<close>

record startup =
  interrupts_on :: bool
  sp16 :: u16
  kb_polls :: nat
  io_log :: "port_write list"
  low_mem :: mem
  creg0 :: u32
  creg3 :: u32
  creg4 :: u32
  efer :: u64
  gdt_register :: x86_64_pseudodescriptor
  code_segment :: u16

text \<open>The addresses that the linker gives to \<open>boot_start\<close> and \<open>gdt\<close>.\<close>

record boot_symbols =
  boot_start_addr :: u64
  gdt_addr :: u64

definition SEGSEL_BOOT_CODE :: u16 where "SEGSEL_BOOT_CODE = 0x8"
definition INITIAL_PT :: u64 where "INITIAL_PT = 0x8000"
definition CR4_PSE :: u32 where "CR4_PSE = 0x10"
definition CR4_PAE :: u32 where "CR4_PAE = 0x20"
definition IA32_EFER_SCE :: u32 where "IA32_EFER_SCE = 1"
definition IA32_EFER_LME :: u32 where "IA32_EFER_LME = 0x100"
definition IA32_EFER_NXE :: u32 where "IA32_EFER_NXE = 0x800"

text \<open>The words of the table \<open>gdt\<close>.\<close>

definition boot_gdt :: "u64 list" where
  "boot_gdt = [0, 0x0020980000000000]"

section \<open>Code\<close>

text \<open>The loops \<open>seta20.1\<close> and \<open>seta20.2\<close>: wait until the controller is not busy.\<close>

partial_function (option) seta20_wait :: "(nat \<Rightarrow> u8) \<Rightarrow> nat \<Rightarrow> nat option" where
  "seta20_wait st n = (if st n AND 2 \<noteq> 0 then seta20_wait st (n + 1) else Some (n + 1))"

definition seta20 :: "(nat \<Rightarrow> u8) \<Rightarrow> startup \<Rightarrow> startup option" where
  "seta20 st s =
     Option.bind (seta20_wait st (kb_polls s)) (\<lambda>n1.
     Option.bind (seta20_wait st n1) (\<lambda>n2.
       Some (s\<lparr>kb_polls := n2, io_log := io_log s @ [Outb 0x64 0xD1, Outb 0x60 0xDF]\<rparr>)))"

text \<open>\<open>rep stosl\<close> with 0 in \<open>eax\<close>.\<close>

fun stosl :: "mem \<Rightarrow> u64 \<Rightarrow> nat \<Rightarrow> mem" where
  "stosl m di 0 = m"
| "stosl m di (Suc n) = stosl (store32 m di 0) (di + 4) n"

definition init_pt :: "mem \<Rightarrow> mem" where
  "init_pt m =
     (let m1 = stosl m INITIAL_PT (0x3000 div 4);
          edi = INITIAL_PT;
          ecx = edi + 0x1000 + 7;
          m2 = store32 m1 edi (ucast ecx);
          ecx2 = edi + 0x2000 + 7;
          m3 = store32 m2 (edi + 0x1000) (ucast ecx2)
      in store32 m3 (ecx2 - 7) (1 + 2 + 4 + 128))"

definition real_to_prot :: "boot_symbols \<Rightarrow> startup \<Rightarrow> startup" where
  "real_to_prot bs s =
     s\<lparr>creg4 := creg4 s OR (CR4_PSE OR CR4_PAE),
       efer := efer s OR ucast (IA32_EFER_LME OR IA32_EFER_SCE OR IA32_EFER_NXE),
       creg0 := creg0 s OR (0x1 OR 0x10000 OR 0x80000000),
       gdt_register := \<lparr>pseudod_limit = 0x0F, pseudod_base = gdt_addr bs\<rparr>,
       code_segment := SEGSEL_BOOT_CODE\<rparr>"

text \<open>From \<open>boot_start\<close> to the jump to \<open>boot\<close>.\<close>

definition boot_start :: "boot_symbols \<Rightarrow> (nat \<Rightarrow> u8) \<Rightarrow> startup \<Rightarrow> startup option" where
  "boot_start bs st s =
     map_option (\<lambda>s1. real_to_prot bs (s1\<lparr>low_mem := init_pt (low_mem s1), creg3 := ucast INITIAL_PT\<rparr>))
       (seta20 st (s\<lparr>interrupts_on := False, sp16 := ucast (boot_start_addr bs)\<rparr>))"

section \<open>The initial page table\<close>

lemma memset_step:
  assumes "Suc k < 2 ^ 64"
  shows "memset m d c (of_nat (Suc k)) = memset (m(d := ucast c)) (d + 1) c (of_nat k)"
proof -
  have "unat (of_nat (Suc k) :: u64) = Suc k"
    using assms by (simp add: unat_of_nat del: of_nat_Suc)
  then have "0 < (of_nat (Suc k) :: u64)"
    by (simp add: word_gt_0 unat_eq_zero del: of_nat_Suc) (metis nat.distinct(1) unat_0)
  then show ?thesis
    by (subst memset.simps) (simp add: memset.simps)
qed

lemma stosl_memset: "4 * n < 2 ^ 64 \<Longrightarrow> stosl m d n = memset m d 0 (of_nat (4 * n))"
proof (induction n arbitrary: m d)
  case 0
  show ?case
    by (simp add: memset.simps)
next
  case (Suc n)
  have "memset m d 0 (of_nat (4 * Suc n)) = memset m d 0 (of_nat (Suc (Suc (Suc (Suc (4 * n))))))"
    by (rule arg_cong [where f = "\<lambda>k. memset m d 0 (of_nat k)"]) simp
  also have "\<dots> = memset (store32 m d 0) (d + 4) 0 (of_nat (4 * n))"
    using Suc.prems by (subst memset_step, simp)+ (simp add: store32_def add.commute)
  finally show ?case
    using Suc by simp
qed

lemma store64_small:
  assumes "unat v < 2 ^ 32" and "M (a + 4) = 0" "M (a + 5) = 0" "M (a + 6) = 0" "M (a + 7) = 0"
  shows "store64 M a v = store32 M a (ucast v)"
proof -
  have v: "v = take_bit 32 v"
    using assms(1) by (simp add: take_bit_eq_mod word_unat_eq_iff unat_mod)
  then have "drop_bit k v = 0" if "32 \<le> k" for k
    using that by (metis drop_bit_take_bit diff_is_0_eq take_bit_0)
  moreover have "(ucast (drop_bit k (ucast v :: u32)) :: u8) = ucast (drop_bit k v)" if "k \<le> 24" for k
    using that by (intro bit_word_eqI) (auto simp: bit_simps)
  moreover have "(ucast (ucast v :: u32) :: u8) = ucast v"
    by (rule bit_word_eqI) (auto simp: bit_simps)
  ultimately show ?thesis
    using assms(2-) by (auto simp: store64_def store32_def fun_eq_iff)
qed

text \<open>The code builds the table that \<open>check_keyboard\<close> builds before a reboot.\<close>

theorem init_pt_reboot: "init_pt m = reboot_pagetable m"
proof -
  let ?z = "memset m 0x8000 0 (PAGESIZE * 3)"
  let ?m1 = "store32 ?z 0x8000 0x9007"
  let ?m2 = "store32 ?m1 0x9000 0xA007"
  have z: "?z x = 0" if "0x8000 \<le> unat x" "unat x < 0xB000" for x
  proof -
    have "unat (x - 0x8000) < 0x3000"
      using that by (simp add: unat_sub word_le_nat_alt)
    then show ?thesis
      by (simp add: memset_filled filled_def PAGESIZE_def word_less_nat_alt)
  qed
  have "store64 ?z 0x8000 0x9007 = ?m1"
    by (subst store64_small) (simp_all add: z)
  moreover have "store64 ?m1 0x9000 0xA007 = ?m2"
    by (subst store64_small) (simp_all add: store32_frame z)
  moreover have "store64 ?m2 0xA000 0x87 = store32 ?m2 0xA000 0x87"
    by (subst store64_small) (simp_all add: store32_frame z)
  moreover have "init_pt m = store32 ?m2 0xA000 0x87"
    by (simp add: init_pt_def Let_def INITIAL_PT_def stosl_memset PAGESIZE_def)
  ultimately show ?thesis
    by (simp add: reboot_pagetable_def set_entry_def PTE_P_def PTE_W_def PTE_U_def PTE_PS_def)
qed

section \<open>The switch to 64-bit mode\<close>

lemma seta20_wait_ends:
  assumes "st n AND 2 = 0" and "k \<le> n"
  shows "\<exists>n'. seta20_wait st k = Some n' \<and> n' \<le> n + 1"
  using assms(2)
proof (induction k rule: inc_induct)
  case base
  then show ?case
    using assms(1) by (simp add: seta20_wait.simps)
next
  case (step k)
  then show ?case
    by (subst seta20_wait.simps) auto
qed

lemma flags_set: "(x OR c) AND c = (c :: 'a::len word)"
  by (simp add: word_ao_absorbs)

theorem boot_start_enters_long_mode:
  assumes "\<And>k. \<exists>n\<ge>k. st n AND 2 = 0"
  shows "\<exists>s'. boot_start bs st s = Some s' \<and> \<not> interrupts_on s' \<and>
    io_log s' = io_log s @ [Outb 0x64 0xD1, Outb 0x60 0xDF] \<and>
    (\<forall>va. unat va < 0x200000 \<longrightarrow> cpu_translate (low_mem s') (ucast (creg3 s')) va = Some va) \<and>
    creg0 s' AND 0x80010001 = 0x80010001 \<and> creg4 s' AND 0x30 = 0x30 \<and> efer s' AND 0x901 = 0x901 \<and>
    boot_gdt ! unat (drop_bit 3 (code_segment s')) = set_app_segment (X86SEG_X OR X86SEG_L) 0"
proof -
  obtain n1 where n1: "seta20_wait st (kb_polls s) = Some n1"
    using assms [of "kb_polls s"] seta20_wait_ends by blast
  obtain n2 where n2: "seta20_wait st n1 = Some n2"
    using assms [of n1] seta20_wait_ends by blast
  show ?thesis
    using n1 n2
    by (simp add: boot_start_def seta20_def real_to_prot_def init_pt_reboot INITIAL_PT_def reboot_pagetable_translates
        flags_set boot_gdt_def SEGSEL_BOOT_CODE_def set_app_segment_def X86SEG_X_def X86SEG_L_def X86SEG_S_def X86SEG_P_def
        CR4_PSE_def CR4_PAE_def IA32_EFER_LME_def IA32_EFER_SCE_def IA32_EFER_NXE_def)
qed

end
