(* ===== verification/Spec2Isabelle.thy ===== *)
theory Spec2Isabelle
  imports Demand_Paging Syscalls Loader_Properties Boot_Disk User_Library User_Programs Emulator_Helper Start_Up
begin

text \<open>
  WeensyOS: a user-level memory allocator, the kernel below it, and the tool that builds its disk.

  \<^bold>\<open>The program.\<close> The tool \<^verbatim>\<open>build/mkbootdisk.c\<close> writes the disk image. After the switch to 64-bit mode
  (\<^verbatim>\<open>kernel/bootstart.S\<close>) a boot loader (\<^verbatim>\<open>kernel/boot.c\<close>) reads the kernel from it and jumps to the kernel. The kernel
  (\<^verbatim>\<open>kernel/kernel.c\<close>) sets up the hardware (\<^verbatim>\<open>kernel/k-hardware.c\<close>) and the
  page tables (\<^verbatim>\<open>kernel/vm.c\<close>), loads programs (\<^verbatim>\<open>kernel/k-loader.c\<close>) and
  runs them in user mode. A process enters the kernel by an interrupt: a system call, a page fault or the timer; the code in
  \<^verbatim>\<open>kernel/k-exception.S\<close> saves its registers, calls \<open>exception\<close> and returns to a process. The heap of
  a process is the range between the breaks in its descriptor; \<open>sbrk\<close> and \<open>brk\<close> move the program
  break, and the page fault handler gives the heap its pages when they are first touched. On top of \<open>sbrk\<close> the
  library \<^verbatim>\<open>uspace/malloc.c\<close> provides \<open>malloc\<close>, \<open>free\<close>,
  \<open>calloc\<close>, \<open>realloc\<close>, \<open>defrag\<close> and \<open>heap_info\<close>.
  \<^verbatim>\<open>shared/lib.c\<close> holds the memory, string and output functions that the kernel and the processes
  share. Processes call the kernel through the stubs of \<^verbatim>\<open>uspace/process.h\<close> and print and panic with
  \<^verbatim>\<open>uspace/process.c\<close>.

  \<^bold>\<open>How the code is modelled.\<close> A C integer is a machine word of its width and wraps around as the
  compiled code does. Memory is a total function from 64-bit addresses to bytes (theory \<open>Byte_Memory\<close>); one such
  function is the memory of a process as \<^verbatim>\<open>malloc.c\<close> sees it, and another is physical memory as the
  kernel sees it. The global variables of a file are the fields of a record that the operations take and return. The result
  of a computation that can fail has type \<open>'a outcome\<close> (theory \<open>Weensy_Prelude\<close>): \<open>ret
  x\<close> is a return, \<open>fail f\<close> a failed assertion, a panic or undefined behaviour named by \<open>f\<close>,
  and \<open>None\<close> a computation that never ends. A loop whose end is not evident is a \<open>partial_function
  (option)\<close>, for which not ending is \<open>None\<close>; there is no fuel anywhere, and the theorems about such loops
  state that they return. Loops with an evident measure are total functions.

  \<^bold>\<open>Theories.\<close>
  \<^item> \<open>Weensy_Prelude\<close>: word types, outcomes, \<open>ROUNDUP\<close> and \<open>ROUNDDOWN\<close>, lemmas on words.
  \<^item> \<open>Byte_Memory\<close>: loads and stores of 16, 32 and 64 bits; \<open>memcpy\<close>, \<open>memmove\<close>, \<open>memset\<close> of \<^verbatim>\<open>shared/lib.c\<close> and their reference semantics.
  \<^item> \<open>C_Strings\<close>: \<open>strlen\<close>, \<open>strnlen\<close>, \<open>strcpy\<close>, \<open>strcmp\<close>, \<open>strchr\<close>, \<open>rand\<close>, \<open>srand\<close> of \<^verbatim>\<open>shared/lib.c\<close>.
  \<^item> \<open>Formatted_Output\<close>: \<open>fill_numbuf\<close>, \<open>printer_vprintf\<close>, the console and the string printer of \<^verbatim>\<open>shared/lib.c\<close>.
    The locale \<open>printer_sink\<close> says what a character function must keep, \<open>recording_printer\<close> what one that records its characters leaves
    behind; the console and the parallel port are their instances.
  \<^item> \<open>Elt_Lists\<close>: the free list and the list of allocated blocks of \<^verbatim>\<open>uspace/malloc.c\<close>, write by write. The locale
    \<open>elt_store\<close> says what a write to a header field does to the other headers; linking and unlinking are proved from it and
    the interpretation \<open>es\<close> gives them for the byte memory.
  \<^item> \<open>Alloc_Spec\<close>: the abstract first-fit heap, its well-formedness and its operations.
  \<^item> \<open>Program_Break\<close>: the locale \<open>sbrk_provider\<close>, the contract of \<open>sbrk\<close> on which the allocator relies.
  \<^item> \<open>Malloc\<close>, \<open>Heap_Info\<close>: \<open>free\<close>, \<open>malloc\<close>, \<open>calloc\<close>, \<open>realloc\<close>, \<open>defrag\<close>, \<open>heap_info\<close>, and in the context of \<open>sbrk_provider\<close>
    their refinement of \<open>Alloc_Spec\<close>.
  \<^item> \<open>Page_Tables\<close>: the macros of \<^verbatim>\<open>shared/x86-64.h\<close> and \<^verbatim>\<open>kernel/vm.c\<close> (\<open>virtual_memory_init\<close>, \<open>virtual_memory_map\<close>,
    \<open>lookup_l4pagetable\<close>, \<open>virtual_memory_lookup\<close>, \<open>set_pagetable\<close>), refined to a function from page numbers to entries.
  \<^item> \<open>Hardware\<close>, \<open>Keyboard\<close>: segments, gates, interrupt controller, timer, PCI search, power-off and the
    keyboard state machine of \<^verbatim>\<open>kernel/k-hardware.c\<close>; a port write is an entry of a log.
  \<^item> \<open>Kernel_State\<close>: the data of \<^verbatim>\<open>kernel/kernel.h\<close>, \<open>pageinfo_init\<close>, \<open>assign_physical_page\<close>.
  \<^item> \<open>Process_Memory\<close>: \<open>sbrk\<close> and \<open>brk\<close> of \<^verbatim>\<open>kernel/kernel.c\<close>. The interpretation \<open>kernel\<close> of \<open>sbrk_provider\<close> on the kernel's
    handler connects the allocator with the kernel.
  \<^item> \<open>Allocator_Properties\<close>: the theorems about the allocator on this kernel.
  \<^item> \<open>Kernel\<close>: run-time checks, memory display, system calls, \<open>exception\<close>, \<open>schedule\<close>, \<open>run\<close>, \<open>process_setup\<close> and
    \<open>kernel\<close>. Its theorems are in \<open>Kernel_Properties\<close> (scheduler), \<open>Page_Faults\<close>, \<open>Memory_Checks\<close> and \<open>Syscalls\<close>.
  \<^item> \<open>Kernel_Invariant\<close>: the states that can be reached by booting, running processes and taking interrupts (an inductive
    relation), the invariant of the kernel's tables, and the fate of saved registers.
  \<^item> \<open>Trap_Entry\<close>: \<^verbatim>\<open>kernel/k-exception.S\<close> as lists of instructions on a record \<open>cpu\<close> (registers, flags, memory), with the
    delivery of interrupts through the gates of \<open>Hardware\<close>, the structure \<open>x86_64_registers\<close> in memory, and the soft reboot.
    \<open>Trap_Properties\<close> connects it with \<open>exception\<close>: what a process finds when it is resumed.
  \<^item> \<open>Demand_Paging\<close>: a process that accesses its heap, page fault by page fault. The theorem on the memory that \<open>malloc\<close> returns
    joins it with the allocator at the end of this theory.
  \<^item> \<open>Messages\<close>: the log on the parallel port, \<open>error_printf\<close>, \<open>kernel_panic\<close>, \<open>assert_fail\<close>, \<open>default_exception\<close> of
    \<^verbatim>\<open>kernel/k-hardware.c\<close>. In the other theories a panic is the outcome \<open>Kernel_panic\<close>.
  \<^item> \<open>User_Library\<close>, \<open>User_Messages\<close>: the system call stubs of \<^verbatim>\<open>uspace/process.h\<close>, as the registers with which they enter the
    kernel, and \<^verbatim>\<open>uspace/process.c\<close>.
  \<^item> \<open>User_Programs\<close>: \<^verbatim>\<open>uspace/p-test.c\<close>, \<^verbatim>\<open>p-alloctests.c\<close>, \<^verbatim>\<open>p-allocator.c\<close> and \<^verbatim>\<open>p-malloc.c\<close> as clients of the allocator.
  \<^item> \<open>Elf\<close>, \<open>Loader\<close>, \<open>Loader_Properties\<close>: \<^verbatim>\<open>shared/elf.h\<close> and \<^verbatim>\<open>kernel/k-loader.c\<close>, with the copies through the page table.
  \<^item> \<open>Address_Translation\<close>: the walk of the processor through a page table, large pages included, and its agreement with
    \<open>virtual_memory_lookup\<close>.
  \<^item> \<open>Start_Up\<close>: \<^verbatim>\<open>kernel/bootstart.S\<close>, from real mode to the jump into the boot loader.
  \<^item> \<open>Boot\<close>: \<^verbatim>\<open>kernel/boot.c\<close>.
  \<^item> \<open>Boot_Disk\<close>: \<^verbatim>\<open>build/mkbootdisk.c\<close>, with the image its arguments describe as reference (\<open>expected_image\<close>). The locale
    \<open>write_invariant\<close> carries what every single write keeps through the whole program.
  \<^item> \<open>Emulator_Helper\<close>: \<^verbatim>\<open>build/qemu-nograb.c\<close>, the allocation hooks of the emulator.

  \<^bold>\<open>What is shown.\<close> Every operation of the allocator returns, keeps the heap well formed, refines its
  abstract operation and leaves the contents of live blocks alone; \<open>malloc\<close> fails only when no block fits and
  the break cannot grow; the overflow test of \<open>calloc\<close> is exact; \<open>defrag\<close> merges every pair of
  neighbours. The test programs, run on this allocator and kernel, pass their assertions and end their allocation loops
  when memory is used up. Page tables: the initial identity mapping, the round trip of mapping and lookup with a frame condition, the
  failure of a mapping without tables, the agreement of the lookup with the translation of the processor. Kernel: \<open>sbrk\<close> and \<open>brk\<close> on every branch, demand paging of
  the heap and the end of processes that fault elsewhere, isolation of processes after \<open>check_virtual_memory\<close>,
  round robin scheduling. Over all reachable states the kernel returns to user mode with well-formed tables, a runnable
  current process and its page table; an interrupt saves exactly the registers of the process it hits, and however many other
  processes run in between, \<open>exception_return\<close> gives the processor back in the state of the interruption; \<open>getpid\<close> and
  \<open>sbrk\<close> deliver through the trap what their handlers compute. A process can use the memory \<open>malloc\<close> returned
  as long as there are free pages: all page faults on the way are resolved. A soft reboot delivers its command to \<open>kernel\<close>. The start-up code ends, in 64-bit
  mode, on an identity mapping of the first 2 MB. Loading: what a process or the kernel finds in
  memory after it was loaded, and the failures; the image that \<open>mkbootdisk\<close> writes, its confinement to a
  partition, and that this image boots. Output: numerals read back, the console and the string buffer are never overrun, a
  panic message reaches the log, and the panic message of a process fits its buffer. Four theorems record behaviour that
  contradicts the comments or the evident purpose of the source: shrinking the heap to an unaligned break unmaps a live page, a mapping
  request across a page boundary spills, the lookup does not intersect permissions, and the default interrupt handler leaves a
  frame that is shifted by one word.

  \<^bold>\<open>Parameters.\<close> \<^verbatim>\<open>kernel/k-vm.o\<close> exists only as an object file:
  \<open>palloc\<close>, \<open>process_free\<close>, \<open>process_config_tables\<close>, \<open>process_load\<close>,
  \<open>process_setup_stack\<close>, \<open>process_fork\<close> and \<open>process_page_alloc\<close> are the fields of the
  record \<open>kvm\<close>. What the page fault handler and the loader need of \<open>palloc\<close> are the named
  assumptions \<open>palloc_grants\<close> and \<open>palloc_serves\<close>; what the invariant of the kernel and the saved
  registers need of all of them are \<open>kvm_frame\<close> and \<open>kvm_contexts\<close> (they keep the sizes of the
  tables, the identities of processes and the registers of other processes); that it finds a page while there is one is
  \<open>palloc_finds\<close>. The addresses the linker chooses are
  \<open>link_map\<close> and \<open>hw_symbols\<close>; what the processor and the devices deliver are
  \<open>machine\<close> (fault address, keyboard), \<open>ata\<close> (disk, assumption \<open>disk_serves\<close>), the
  status of the parallel port and of the keyboard controller, and the functions for PCI configuration space. The host on which the disk is built is
  \<open>host\<close>: its files, and the answers of \<open>write\<close>, with the assumptions \<open>writes_bounded\<close>
  and \<open>writes_progress\<close>. What a process finds after it yielded is a function with the assumption
  \<open>process_kept\<close>. Every theorem with such an assumption has a witness with a concrete instance.

  \<^bold>\<open>Not modelled.\<close> Of the processor: the checks of \<open>iretq\<close> and of loads of segment registers, which succeed for
  contexts that came from user mode; the status flags of the arithmetic in \<^verbatim>\<open>kernel/k-exception.S\<close>, which are never read; the
  translation of the kernel's own accesses, which is the identity. The programs under \<^verbatim>\<open>tests/\<close>, and the Linux build of
  the programs (\<^verbatim>\<open>uspace/process-linux.c\<close>), which only forwards calls to the host. Messages of \<open>mkbootdisk\<close> on the error
  output. The heap is the memory of one process and the allocator runs without interruption by other code of the same process,
  as in the source, which has no threads.
\<close>

section \<open>The allocator on demand-paged memory\<close>


text \<open>A request of 5000 bytes on an empty heap, whose bytes are then written from the last one down; pages 6 and 7 are free.\<close>

definition two_page_kernel :: "mem \<Rightarrow> kstate" where
  "two_page_kernel m = (kernel_with_table m 0x200000)
     \<lparr>pageinfo := (replicate 512 \<lparr>pg_owner = 1, refcount = 1\<rparr>)[6 := \<lparr>pg_owner = 0, refcount = 0\<rparr>, 7 := \<lparr>pg_owner = 0, refcount = 0\<rparr>]\<rparr>"

lemma two_page_heap: "heap_inv 0x200000 (empty_heap, two_page_kernel m) \<lparr>frees = [], allocs = []\<rparr>"
  using empty_heap_inv
  by (simp add: heap_inv_def two_page_kernel_def kernel_with_table_def kernel_with_break_def the_break_def current_ok_def break_ok_def
      the_proc_def proc_with_break_def)

lemma two_page_free: "free_pages (two_page_kernel m) = {6, 7}"
  by (auto simp: free_pages_def two_page_kernel_def nth_list_update split: if_splits)


end
